(* ===== verification/Levin_Prelude.thy ===== *)
theory Levin_Prelude
  imports Main "HOL-Library.Word" "HOL-Library.Monad_Syntax"
begin

text \<open>
  Shared vocabulary of the development: the fixed-width integers of
  include/defs.h, byte-addressed memory in which an access outside the mapped
  bytes is a fault, little- and big-endian readers, the I/O status codes of
  include/iost.h, and the generic lemmas about lists, words and memory that the
  component theories use.

  Throughout the development a C function that may stop the machine (a failing
  assert, abort or die, or an access outside the memory it was given) is a
  function into an option type: None means that the machine stopped, Some r
  means that the function returned r.
\<close>

unbundle bit_operations_syntax

named_theorems mem_simps "evaluation of memory accesses"
named_theorems byte_simps "bytes of a word and words of bytes"

section \<open>Machine integers\<close>

type_synonym u8 = "8 word"
type_synonym u16 = "16 word"
type_synonym u32 = "32 word"
type_synonym u64 = "64 word"

section \<open>I/O status codes (include/iost.h)\<close>

datatype iost = IOST_OK | IOST_TRANSIENT | IOST_INVALID | IOST_LOCAL | IOST_GLOBAL

fun iost_num :: "iost \<Rightarrow> nat" where
  "iost_num IOST_OK = 0"
| "iost_num IOST_TRANSIENT = 1"
| "iost_num IOST_INVALID = 2"
| "iost_num IOST_LOCAL = 3"
| "iost_num IOST_GLOBAL = 4"

instantiation iost :: linorder
begin

definition less_eq_iost :: "iost \<Rightarrow> iost \<Rightarrow> bool" where
  "less_eq_iost a b \<longleftrightarrow> iost_num a \<le> iost_num b"

definition less_iost :: "iost \<Rightarrow> iost \<Rightarrow> bool" where
  "less_iost a b \<longleftrightarrow> iost_num a < iost_num b"

instance
proof
  fix a b c :: iost
  show "a < b \<longleftrightarrow> a \<le> b \<and> \<not> b \<le> a"
    by (auto simp: less_eq_iost_def less_iost_def)
  show "a \<le> a"
    by (simp add: less_eq_iost_def)
  show "a \<le> b \<Longrightarrow> b \<le> c \<Longrightarrow> a \<le> c"
    by (simp add: less_eq_iost_def)
  show "a \<le> b \<Longrightarrow> b \<le> a \<Longrightarrow> a = b"
    by (cases a; cases b) (simp_all add: less_eq_iost_def)
  show "a \<le> b \<or> b \<le> a"
    by (auto simp: less_eq_iost_def)
qed

end

section \<open>Word lemmas\<close>

lemma ucast_up_inj:
  assumes "LENGTH('a) \<le> LENGTH('b)"
  shows "(ucast (a :: 'a::len word) :: 'b::len word) = ucast b \<longleftrightarrow> a = b"
proof
  assume eq: "(ucast a :: 'b word) = ucast b"
  show "a = b"
  proof (rule bit_word_eqI)
    fix n assume "n < LENGTH('a)"
    then show "bit a n = bit b n"
      using assms arg_cong [OF eq, of "\<lambda>w. bit w n"] by (simp add: bit_simps)
  qed
qed simp

section \<open>Byte strings and words\<close>

text \<open>The word whose little-endian bytes are bs, and the low n bytes of a word.\<close>

definition le_word :: "u8 list \<Rightarrow> 'a::len word" where
  "le_word bs = foldr (\<lambda>b w. ucast b OR push_bit 8 w) bs 0"

definition le_bytes :: "nat \<Rightarrow> 'a::len word \<Rightarrow> u8 list" where
  "le_bytes n w = map (\<lambda>i. ucast (drop_bit (8 * i) w)) [0..<n]"

lemma le_word_simps [byte_simps]:
  "le_word [] = 0" "le_word (b # bs) = ucast b OR push_bit 8 (le_word bs)"
  by (simp_all add: le_word_def)

lemma le_word_Nil [simp]: "le_word [] = 0"
  by (simp add: le_word_def)

lemma bit_le_word:
  "bit (le_word bs :: 'a::len word) n \<longleftrightarrow>
     n < LENGTH('a) \<and> n div 8 < length bs \<and> bit (bs ! (n div 8)) (n mod 8)"
proof (induction bs arbitrary: n)
  case Nil
  then show ?case by (simp add: byte_simps)
next
  case (Cons b bs)
  show ?case
  proof (cases "n < 8")
    case True
    then show ?thesis
      by (auto simp: byte_simps bit_simps)
  next
    case False
    then obtain k where k: "n = 8 + k"
      using le_Suc_ex [of 8 n] by auto
    then have "n div 8 = Suc (k div 8)" by simp
    moreover have "\<not> bit b n"
      using False bit_imp_le_length [of b n] by auto
    ultimately show ?thesis
      using Cons.IH [of k] k by (auto simp: byte_simps bit_simps)
  qed
qed

lemma length_le_bytes [simp]: "length (le_bytes n w) = n"
  by (simp add: le_bytes_def)

lemma bit_le_bytes: "i < n \<Longrightarrow> bit (le_bytes n w ! i) j \<longleftrightarrow> j < 8 \<and> bit w (8 * i + j)"
  by (simp add: le_bytes_def bit_simps)

lemma le_word_append:
  "(le_word (xs @ ys) :: 'a::len word) = le_word xs OR push_bit (8 * length xs) (le_word ys)"
proof (rule bit_word_eqI)
  fix n assume "n < LENGTH('a)"
  show "bit (le_word (xs @ ys) :: 'a word) n =
    bit (le_word xs OR push_bit (8 * length xs) (le_word ys) :: 'a word) n"
  proof (cases "n < 8 * length xs")
    case True
    then have "n div 8 < length xs" by auto
    with True \<open>n < LENGTH('a)\<close> show ?thesis
      by (simp add: bit_le_word bit_simps nth_append)
  next
    case False
    then obtain k where k: "n = 8 * length xs + k"
      using le_Suc_ex [of "8 * length xs" n] by auto
    then have "n div 8 = length xs + k div 8" "n mod 8 = k mod 8" by auto
    with False k \<open>n < LENGTH('a)\<close> show ?thesis
      by (auto simp: bit_le_word bit_simps nth_append)
  qed
qed

lemma le_word_replicate_0 [simp]: "le_word (replicate n 0) = 0"
  by (induction n) (simp_all add: byte_simps)

lemma le_word_pad: "le_word (bs @ replicate n 0) = le_word bs"
  by (simp add: le_word_append)

lemma le_bytes_le_word:
  assumes "n \<le> length bs" "8 * n \<le> LENGTH('a)"
  shows "le_bytes n (le_word bs :: 'a::len word) = take n bs"
proof (rule nth_equalityI)
  fix i assume "i < length (le_bytes n (le_word bs :: 'a word))"
  then have i: "i < n" by simp
  show "le_bytes n (le_word bs :: 'a word) ! i = take n bs ! i"
  proof (rule bit_word_eqI)
    fix j assume "j < LENGTH(8)"
    with i assms show "bit (le_bytes n (le_word bs :: 'a word) ! i) j = bit (take n bs ! i) j"
      by (simp add: bit_le_bytes bit_le_word div_mult_self4 mod_mult_self4)
  qed
qed (use assms in simp)

lemma drop_bit_le_word:
  assumes "8 * length bs \<le> LENGTH('a)"
  shows "drop_bit (8 * n) (le_word bs :: 'a::len word) = le_word (drop n bs)"
proof (rule bit_word_eqI)
  fix k assume "k < LENGTH('a)"
  have "(8 * n + k) div 8 = n + k div 8" "(8 * n + k) mod 8 = k mod 8" by auto
  moreover have "8 * n + k < LENGTH('a)" if "n + k div 8 < length bs"
    using that assms by linarith
  ultimately show "bit (drop_bit (8 * n) (le_word bs :: 'a word)) k = bit (le_word (drop n bs) :: 'a word) k"
    using \<open>k < LENGTH('a)\<close> by (auto simp: bit_le_word bit_simps)
qed

lemma le_word_take:
  assumes "LENGTH('a) \<le> 8 * n"
  shows "(le_word (take n bs) :: 'a::len word) = le_word bs"
proof (rule bit_word_eqI)
  fix k assume "k < LENGTH('a)"
  then have "k div 8 < n" using assms by linarith
  then show "bit (le_word (take n bs) :: 'a word) k = bit (le_word bs :: 'a word) k"
    by (simp add: bit_le_word)
qed

text \<open>The number with the little-endian bytes bs.\<close>

primrec le_val :: "u8 list \<Rightarrow> nat" where
  "le_val [] = 0"
| "le_val (b # bs) = unat b + 256 * le_val bs"

lemma le_val_less: "le_val bs < 256 ^ length bs"
proof (induction bs)
  case (Cons b bs)
  have "unat b < 256" using unsigned_less [of b] by simp
  moreover have "256 * (le_val bs + 1) \<le> 256 * 256 ^ length bs"
    using Cons by (intro mult_le_mono2) simp
  ultimately show ?case by simp
qed simp

lemma unat_le_word:
  assumes "8 * length bs \<le> LENGTH('a)"
  shows "unat (le_word bs :: 'a::len word) = le_val bs"
  using assms
proof (induction bs)
  case (Cons b bs)
  let ?w = "le_word bs :: 'a word"
  have w: "unat ?w = le_val bs" using Cons by simp
  have b: "unat b < 256" using unsigned_less [of b] by simp
  have "le_val bs < 256 ^ length bs" by (rule le_val_less)
  then have "256 * le_val bs < 256 ^ Suc (length bs)" by simp
  also have "\<dots> = 2 ^ (8 * Suc (length bs))"
    by (simp add: power_mult del: power_Suc mult_Suc_right)
  also have "\<dots> \<le> 2 ^ LENGTH('a)" using Cons.prems by (intro power_increasing) simp_all
  finally have f: "256 * le_val bs < 2 ^ LENGTH('a)" .
  have "8 \<le> LENGTH('a)" using Cons.prems by simp
  then have "(2 :: nat) ^ 8 \<le> 2 ^ LENGTH('a)"
    by (intro power_increasing) simp_all
  then have "unat b < 2 ^ LENGTH('a)"
    using b by simp
  then have uc: "unat (ucast b :: 'a word) = unat b"
    by (simp add: unsigned_ucast_eq take_bit_nat_eq_self)
  have "push_bit 8 ?w = of_nat (256 * le_val bs)"
    by (simp add: push_bit_eq_mult w [symmetric])
  then have up: "unat (push_bit 8 ?w) = 256 * le_val bs"
    using f by (simp add: unat_of_nat take_bit_nat_eq_self del: of_nat_mult)
  have "unat (ucast b OR push_bit 8 ?w) = unat b OR 256 * le_val bs"
    by (simp add: unsigned_or_eq uc up)
  also have "\<dots> = unat b + 256 * le_val bs"
  proof (rule disjunctive_add [symmetric])
    fix n
    have "256 * le_val bs = push_bit 8 (le_val bs)" by (simp add: push_bit_eq_mult)
    then show "\<not> bit (unat b) n \<or> \<not> bit (256 * le_val bs) n"
      using bit_imp_le_length [of b n] by (auto simp: bit_unsigned_iff bit_push_bit_iff_nat)
  qed
  finally show ?case by (simp add: byte_simps)
qed simp

lemma le_word_le_bytes:
  assumes "LENGTH('a) \<le> 8 * n"
  shows "le_word (le_bytes n w) = (w :: 'a::len word)"
proof (rule bit_word_eqI)
  fix k assume k: "k < LENGTH('a)"
  then have "k div 8 < n" using assms by linarith
  then show "bit (le_word (le_bytes n w) :: 'a word) k = bit w k"
    using k by (simp add: bit_le_word bit_le_bytes)
qed

section \<open>Memory\<close>

text \<open>
  Memory maps addresses to bytes.  An access is defined only when all bytes it touches
  are mapped; otherwise it faults (None).
\<close>

type_synonym mem = "nat \<rightharpoonup> u8"

definition mapped :: "mem \<Rightarrow> nat \<Rightarrow> nat \<Rightarrow> bool" where
  "mapped m a n \<longleftrightarrow> (\<forall>x \<in> {a..<a + n}. m x \<noteq> None)"

definition bytes_at :: "mem \<Rightarrow> nat \<Rightarrow> nat \<Rightarrow> u8 list" where
  "bytes_at m a n = map (\<lambda>i. the (m i)) [a..<a + n]"

definition load_bytes :: "mem \<Rightarrow> nat \<Rightarrow> nat \<Rightarrow> u8 list option" where
  "load_bytes m a n = (if mapped m a n then Some (bytes_at m a n) else None)"

definition mem_write :: "mem \<Rightarrow> nat \<Rightarrow> u8 list \<Rightarrow> mem" where
  "mem_write m a bs = (\<lambda>x. if a \<le> x \<and> x < a + length bs then Some (bs ! (x - a)) else m x)"

definition store_bytes :: "mem \<Rightarrow> nat \<Rightarrow> u8 list \<Rightarrow> mem option" where
  "store_bytes m a bs = (if mapped m a (length bs) then Some (mem_write m a bs) else None)"

definition load_le :: "nat \<Rightarrow> mem \<Rightarrow> nat \<Rightarrow> 'a::len word option" where
  "load_le n m a = map_option le_word (load_bytes m a n)"

definition store_le :: "nat \<Rightarrow> mem \<Rightarrow> nat \<Rightarrow> 'a::len word \<Rightarrow> mem option" where
  "store_le n m a w = store_bytes m a (le_bytes n w)"

lemma mappedD: "mapped m a n \<Longrightarrow> a \<le> x \<Longrightarrow> x < a + n \<Longrightarrow> \<exists>b. m x = Some b"
  by (auto simp: mapped_def)

lemma mapped_sub: "mapped m a n \<Longrightarrow> a \<le> b \<Longrightarrow> b + k \<le> a + n \<Longrightarrow> mapped m b k"
  by (auto simp: mapped_def)

lemma mapped_dom: "mapped m a n \<longleftrightarrow> {a..<a + n} \<subseteq> dom m"
  by (auto simp: mapped_def)

lemma length_bytes_at [simp]: "length (bytes_at m a n) = n"
  by (simp add: bytes_at_def)

lemma bytes_at_0 [simp]: "bytes_at m a 0 = []"
  by (simp add: bytes_at_def)

lemma nth_bytes_at [simp]: "i < n \<Longrightarrow> bytes_at m a n ! i = the (m (a + i))"
  by (simp add: bytes_at_def)

lemma load_bytes_mapped [mem_simps]: "mapped m a n \<Longrightarrow> load_bytes m a n = Some (bytes_at m a n)"
  by (simp add: load_bytes_def)

lemma store_bytes_mapped [mem_simps]:
  "mapped m a (length bs) \<Longrightarrow> store_bytes m a bs = Some (mem_write m a bs)"
  by (simp add: store_bytes_def)

lemma dom_mem_write: "mapped m a (length bs) \<Longrightarrow> dom (mem_write m a bs) = dom m"
  by (auto simp: mem_write_def mapped_def dom_def split: if_splits)

lemma bytes_at_append: "bytes_at m a (n + k) = bytes_at m a n @ bytes_at m (a + n) k"
  unfolding bytes_at_def map_append [symmetric] add.assoc [symmetric]
  by (simp flip: upt_add_eq_append)

lemma drop_bytes_at: "drop k (bytes_at m a n) = bytes_at m (a + k) (n - k)"
  by (rule nth_equalityI) (simp_all add: add.assoc)

lemma bytes_at_cong: "(\<And>i. i < n \<Longrightarrow> m (a + i) = m' (b + i)) \<Longrightarrow> bytes_at m a n = bytes_at m' b n"
  by (rule nth_equalityI) simp_all

text \<open>Only bytes from a up to, not including, b may differ.\<close>

definition only_within :: "mem \<Rightarrow> mem \<Rightarrow> nat \<Rightarrow> nat \<Rightarrow> bool" where
  "only_within m m' a b \<longleftrightarrow> dom m' = dom m \<and> (\<forall>x. x < a \<or> b \<le> x \<longrightarrow> m' x = m x)"

lemma only_within_refl [simp]: "only_within m m a b"
  by (simp add: only_within_def)

lemma only_within_trans:
  "only_within m m' a b \<Longrightarrow> only_within m' m'' c d \<Longrightarrow> a \<le> c \<Longrightarrow> d \<le> b \<Longrightarrow> only_within m m'' a b"
  by (auto simp: only_within_def)

lemma only_within_mono: "only_within m m' a b \<Longrightarrow> c \<le> a \<Longrightarrow> b \<le> d \<Longrightarrow> only_within m m' c d"
  by (auto simp: only_within_def)

lemma only_within_mapped: "only_within m m' a b \<Longrightarrow> mapped m' x n \<longleftrightarrow> mapped m x n"
  by (simp add: only_within_def mapped_dom)

lemma only_within_bytes:
  "only_within m m' a b \<Longrightarrow> x + n \<le> a \<or> b \<le> x \<Longrightarrow> bytes_at m' x n = bytes_at m x n"
  by (rule bytes_at_cong) (auto simp: only_within_def)

lemma bind_Some_exI: "(\<exists>x. f = Some x \<and> P x) \<Longrightarrow> (\<And>x. P x \<Longrightarrow> \<exists>y. g x = Some y \<and> Q y) \<Longrightarrow>
    \<exists>y. Option.bind f g = Some y \<and> Q y"
  by auto

text \<open>The bytes bs are stored from address a on.\<close>

primrec mem_holds :: "mem \<Rightarrow> nat \<Rightarrow> u8 list \<Rightarrow> bool" where
  "mem_holds m a [] \<longleftrightarrow> True"
| "mem_holds m a (b # bs) \<longleftrightarrow> m a = Some b \<and> mem_holds m (a + 1) bs"

lemma mem_holds_append [simp]:
  "mem_holds m a (xs @ ys) \<longleftrightarrow> mem_holds m a xs \<and> mem_holds m (a + length xs) ys"
  by (induction xs arbitrary: a) auto

lemma mem_holds_nth: "mem_holds m a bs \<longleftrightarrow> (\<forall>k < length bs. m (a + k) = Some (bs ! k))"
proof (induction bs arbitrary: a)
  case (Cons b bs)
  show ?case
    unfolding mem_holds.simps Cons.IH by (auto simp: less_Suc_eq_0_disj)
qed simp

lemma mem_holds_mapped: "mem_holds m a bs \<Longrightarrow> mapped m a (length bs)"
proof -
  assume h: "mem_holds m a bs"
  have "m x \<noteq> None" if "a \<le> x" "x < a + length bs" for x
    using h that le_Suc_ex [OF that(1)] by (auto simp: mem_holds_nth)
  then show ?thesis by (simp add: mapped_def)
qed

lemma mem_holds_bytes_at: "mem_holds m a bs \<Longrightarrow> bytes_at m a (length bs) = bs"
  by (rule nth_equalityI) (simp_all add: mem_holds_nth)

lemma mem_holds_only_within:
  "only_within m m' a b \<Longrightarrow> x + length bs \<le> a \<or> b \<le> x \<Longrightarrow> mem_holds m' x bs \<longleftrightarrow> mem_holds m x bs"
  by (auto simp: mem_holds_nth only_within_def)

lemma unat_and_15: "unat (t AND 15 :: u8) = unat t mod 16"
proof -
  have "t AND 15 = take_bit 4 t"
    by (simp add: take_bit_eq_mask mask_eq_exp_minus_1)
  then show ?thesis
    by (simp add: unsigned_take_bit_eq take_bit_nat_def)
qed

lemma unat_and_mask: "unat (w AND mask n) = unat w mod 2 ^ n"
  by (simp add: take_bit_eq_mask [symmetric] unsigned_take_bit_eq take_bit_nat_def)

lemma and_exp_iff_odd:
  fixes w :: "'a::len word"
  assumes "n < LENGTH('a)"
  shows "w AND 2 ^ n \<noteq> 0 \<longleftrightarrow> odd (unat w div 2 ^ n)"
proof -
  have "w AND 2 ^ n \<noteq> 0 \<longleftrightarrow> bit w n"
    by (simp add: and_exp_eq_0_iff_not_bit)
  also have "\<dots> \<longleftrightarrow> bit (unat w) n"
    by (simp add: bit_unsigned_iff)
  finally show ?thesis
    by (simp add: bit_iff_odd)
qed

lemma unat_drop_bit_4: "unat (drop_bit 4 t :: u8) = unat t div 16"
  by (simp add: drop_bit_eq_div unat_div)

lemma load_le_holds:
  assumes "mem_holds m a bs" "length bs = n"
  shows "load_le n m a = Some (le_word bs)"
  using mem_holds_bytes_at [OF assms(1)] mem_holds_mapped [OF assms(1)] assms(2)
  by (simp add: load_le_def load_bytes_def)

section \<open>Loops\<close>

text \<open>
  A loop whose body either continues with a new state (Inl), leaves the loop with a result
  (Inr) or stops the machine; the loop itself need not terminate.
\<close>

partial_function (option) iterate :: "('s \<Rightarrow> ('s + 'r) option) \<Rightarrow> 's \<Rightarrow> 'r option" where
  [code]: "iterate step s = do {
     r \<leftarrow> step s;
     case r of Inl s' \<Rightarrow> iterate step s' | Inr x \<Rightarrow> Some x
   }"

lemma iterate_total:
  fixes f :: "'s \<Rightarrow> nat"
  assumes "I s"
    and step: "\<And>s. I s \<Longrightarrow>
      (\<exists>s'. step s = Some (Inl s') \<and> I s' \<and> f s' < f s) \<or> (\<exists>x. step s = Some (Inr x) \<and> Q x)"
  shows "\<exists>x. iterate step s = Some x \<and> Q x"
  using assms(1)
proof (induction "f s" arbitrary: s rule: less_induct)
  case less
  then show ?case
    using step [OF less(2)] by (subst iterate.simps) auto
qed

lemma iterate_wf:
  assumes "wf R" "I s"
    and step: "\<And>s. I s \<Longrightarrow>
      (\<exists>s'. step s = Some (Inl s') \<and> I s' \<and> (s', s) \<in> R) \<or> (\<exists>x. step s = Some (Inr x) \<and> Q x)"
  shows "\<exists>x. iterate step s = Some x \<and> Q x"
  using assms(1,2)
proof (induction s rule: wf_induct_rule)
  case (less s)
  then show ?case
    using step [OF less(2)] by (subst iterate.simps) auto
qed

lemma iterate_partial:
  assumes "iterate step s = Some x" "I s"
    and cont: "\<And>s s'. I s \<Longrightarrow> step s = Some (Inl s') \<Longrightarrow> I s'"
    and leave: "\<And>s x. I s \<Longrightarrow> step s = Some (Inr x) \<Longrightarrow> Q x"
  shows "Q x"
proof -
  have "step = step \<longrightarrow> I s \<longrightarrow> Q x"
  proof (rule iterate.raw_induct [where P = "\<lambda>f s x. f = step \<longrightarrow> I s \<longrightarrow> Q x", OF _ assms(1)])
    fix it f s x
    assume IH: "\<And>f s x. it f s = Some x \<Longrightarrow> f = step \<longrightarrow> I s \<longrightarrow> Q x"
      and body: "Option.bind (f s) (\<lambda>r. case r of Inl s' \<Rightarrow> it f s' | Inr x \<Rightarrow> Some x) = Some x"
    show "f = step \<longrightarrow> I s \<longrightarrow> Q x"
      using IH body cont leave by (auto split: bind_splits sum.splits)
  qed
  then show ?thesis using assms(2) by blast
qed

section \<open>Arrays and counted loops\<close>

text \<open>Array accesses with the bound written out, and a loop over a list that may stop the machine.\<close>

definition get_at :: "nat \<Rightarrow> 'a list \<Rightarrow> 'a option" where
  "get_at i xs = (if i < length xs then Some (xs ! i) else None)"

definition upd_at :: "nat \<Rightarrow> 'a \<Rightarrow> 'a list \<Rightarrow> 'a list option" where
  "upd_at i x xs = (if i < length xs then Some (xs[i := x]) else None)"

fun mfold :: "('a \<Rightarrow> 's \<Rightarrow> 's option) \<Rightarrow> 'a list \<Rightarrow> 's \<Rightarrow> 's option" where
  "mfold f [] s = Some s"
| "mfold f (x # xs) s = do { s \<leftarrow> f x s; mfold f xs s }"

lemma get_at_Some [simp]: "i < length xs \<Longrightarrow> get_at i xs = Some (xs ! i)"
  by (simp add: get_at_def)

lemma upd_at_Some [simp]: "i < length xs \<Longrightarrow> upd_at i x xs = Some (xs[i := x])"
  by (simp add: upd_at_def)

lemma mfold_append: "mfold f (xs @ ys) s = do { s \<leftarrow> mfold f xs s; mfold f ys s }"
  by (induction xs arbitrary: s) (simp_all split: bind_splits)

text \<open>A counted loop with an invariant that depends on the number of rounds done.\<close>

lemma mfold_upt:
  assumes "I a s" "a \<le> b" "\<And>i s. a \<le> i \<Longrightarrow> i < b \<Longrightarrow> I i s \<Longrightarrow> \<exists>s'. f i s = Some s' \<and> I (Suc i) s'"
  shows "\<exists>s'. mfold f [a..<b] s = Some s' \<and> I b s'"
  using assms(2,3)
proof (induction b)
  case 0
  then show ?case using assms(1) by simp
next
  case (Suc b)
  show ?case
  proof (cases "a = Suc b")
    case False
    then obtain s1 where "mfold f [a..<b] s = Some s1" "I b s1" using Suc by auto
    moreover obtain s2 where "f b s1 = Some s2" "I (Suc b) s2"
      using Suc.prems(2) [of b s1] False Suc.prems(1) \<open>I b s1\<close> by auto
    ultimately show ?thesis using False Suc.prems(1) by (auto simp: mfold_append)
  qed (use assms(1) in simp)
qed

end
