(* ===== verification/Lzcommon.thy ===== *)
theory Lzcommon
  imports Levin_Prelude
begin

text \<open>
  The copy routines shared by the decompressors, compression/lzcommon.c: an 8-byte
  aligned copy that may write garbage up to the next 8-byte boundary, and the match
  copy built on it.  Addresses are natural numbers; the accesses of 1, 2, 4 and 8
  bytes go to the byte memory of the prelude and fault outside the mapped bytes.
\<close>

section \<open>Definitions\<close>

definition LZCOMMON_BLOCK :: nat where
  "LZCOMMON_BLOCK = 8"

text \<open>(x + 7) \& ~7 and (~x + 1) \& 7 for an address x.\<close>

definition round_up8 :: "nat \<Rightarrow> nat" where
  "round_up8 a = (a + 7) div 8 * 8"

definition align_off :: "nat \<Rightarrow> nat" where
  "align_off a = (8 - a mod 8) mod 8"

text \<open>One of the conditional accesses that align both pointers when they are congruent.\<close>

definition copy_part :: "nat \<Rightarrow> nat \<Rightarrow> mem \<times> nat \<times> nat \<Rightarrow> (mem \<times> nat \<times> nat) option" where
  "copy_part k off = (\<lambda>(m, dest, src).
    if odd (off div k) then do {
      x \<leftarrow> load_bytes m src k;
      m \<leftarrow> store_bytes m dest x;
      Some (m, dest + k, src + k)
    } else Some (m, dest, src))"

function copy64_loop :: "nat \<Rightarrow> mem \<Rightarrow> nat \<Rightarrow> nat \<Rightarrow> mem option" where
  "copy64_loop src_end m dest64 src64 =
    (if src64 < src_end then do {
       x \<leftarrow> load_bytes m src64 8;
       m \<leftarrow> store_bytes m dest64 x;
       copy64_loop src_end m (dest64 + 8) (src64 + 8)
     } else Some m)"
  by pat_completeness auto
termination
  by (relation "measure (\<lambda>(e, m, d, s). e - s)") auto

text \<open>Collecting unaligned source bytes into the bits register, and emitting them.\<close>

definition gather :: "nat \<Rightarrow> nat \<Rightarrow> mem \<Rightarrow> u64 \<times> u8 \<times> nat \<Rightarrow> (u64 \<times> u8 \<times> nat) option" where
  "gather k off m = (\<lambda>(bits, shift, src).
    if odd (off div k) then do {
      x \<leftarrow> load_le k m src;
      Some (bits OR push_bit (unat shift) x, shift + of_nat (8 * k), src + k)
    } else Some (bits, shift, src))"

definition scatter :: "nat \<Rightarrow> nat \<Rightarrow> mem \<times> u64 \<times> u8 \<times> nat \<Rightarrow> (mem \<times> u64 \<times> u8 \<times> nat) option" where
  "scatter k off = (\<lambda>(m, bits, shift, dest).
    if odd (off div k) then do {
      m \<leftarrow> store_le k m dest bits;
      Some (m, drop_bit (8 * k) bits, shift - of_nat (8 * k), dest + k)
    } else Some (m, bits, shift, dest))"

function shift_loop :: "nat \<Rightarrow> nat \<Rightarrow> mem \<Rightarrow> u64 \<Rightarrow> nat \<Rightarrow> nat \<Rightarrow> (mem \<times> u64 \<times> nat \<times> nat) option" where
  "shift_loop src_end shift m bits dest64 src64 =
    (if src64 < src_end then do {
       x \<leftarrow> load_le 8 m src64;
       m \<leftarrow> store_le 8 m dest64 (push_bit shift x OR bits);
       shift_loop src_end shift m (drop_bit (64 - shift) x) (dest64 + 8) (src64 + 8)
     } else Some (m, bits, dest64, src64))"
  by pat_completeness auto
termination
  by (relation "measure (\<lambda>(e, sh, m, b, d, s). e - s)") auto

definition copy_unaligned :: "nat \<Rightarrow> nat \<Rightarrow> nat \<Rightarrow> nat \<Rightarrow> mem \<Rightarrow> mem option" where
  "copy_unaligned dest src src_end dest_end m = do {
     let src_align_off = align_off src;
     let dest_align_off = align_off dest;
     (bits, shift, src) \<leftarrow> gather 1 src_align_off m (0, 0, src);
     (bits, shift, src) \<leftarrow> gather 2 src_align_off m (bits, shift, src);
     (bits, shift, src) \<leftarrow> gather 4 src_align_off m (bits, shift, src);
     if src mod 8 \<noteq> 0 then None else do {
     bits \<leftarrow> (if src_align_off < dest_align_off then do {
                 x \<leftarrow> load_le 8 m src;
                 Some (bits OR push_bit (unat shift) x)
               } else Some bits);
     (m, bits, shift, dest) \<leftarrow> scatter 1 dest_align_off (m, bits, shift, dest);
     (m, bits, shift, dest) \<leftarrow> scatter 2 dest_align_off (m, bits, shift, dest);
     (m, bits, shift, dest) \<leftarrow> scatter 4 dest_align_off (m, bits, shift, dest);
     if dest mod 8 \<noteq> 0 then None else do {
     let shift = shift AND 0x38;
     if shift = 0 then None else do {
     (bits, src) \<leftarrow> (if src_align_off < dest_align_off then do {
                        x \<leftarrow> load_le 8 m src;
                        Some (drop_bit (64 - unat shift) x, src + 8)
                      } else Some (bits, src));
     (m, bits, dest, src) \<leftarrow> shift_loop src_end (unat shift) m bits dest src;
     if int src_end - int src < int dest_end - int dest then store_le 8 m dest bits else Some m
   }}}}"

definition copy :: "nat \<Rightarrow> nat \<Rightarrow> nat \<Rightarrow> mem \<Rightarrow> mem option" where
  "copy dest src len m =
    (let src_end = round_up8 (src + len);
         dest_end = round_up8 (dest + len);
         src_align_off = align_off src
     in if src_align_off = align_off dest then do {
          (m, dest, src) \<leftarrow> copy_part 1 src_align_off (m, dest, src);
          (m, dest, src) \<leftarrow> copy_part 2 src_align_off (m, dest, src);
          (m, dest, src) \<leftarrow> copy_part 4 src_align_off (m, dest, src);
          copy64_loop src_end m dest src
        } else copy_unaligned dest src src_end dest_end m)"

definition lzcommon_literal_copy :: "nat \<Rightarrow> nat \<Rightarrow> nat \<Rightarrow> mem \<Rightarrow> mem option" where
  "lzcommon_literal_copy dest src len m =
    (if len < LZCOMMON_BLOCK then do {
       x \<leftarrow> load_bytes m src LZCOMMON_BLOCK;
       store_bytes m dest x
     } else copy dest src len m)"

fun byte_loop :: "nat \<Rightarrow> nat \<Rightarrow> nat \<Rightarrow> mem \<Rightarrow> mem option" where
  "byte_loop dest src 0 m = Some m"
| "byte_loop dest src (Suc len) m = do {
     x \<leftarrow> load_bytes m src 1;
     m \<leftarrow> store_bytes m dest x;
     byte_loop (dest + 1) (src + 1) len m
   }"

text \<open>
  The subtraction dest - dist is on pointers: the callers check that it stays inside the
  window, so truncated subtraction on addresses does not arise there.
\<close>

definition lzcommon_match_copy :: "nat \<Rightarrow> nat \<Rightarrow> nat \<Rightarrow> mem \<Rightarrow> mem option" where
  "lzcommon_match_copy dest dist len m =
    (let src = dest - dist
     in if dist \<ge> len then lzcommon_literal_copy dest src len m
        else if dist = 1 then do {
          x \<leftarrow> load_bytes m src 1;
          store_bytes m dest (replicate len (hd x))
        } else byte_loop dest src len m)"

declare copy64_loop.simps [simp del] shift_loop.simps [simp del]

section \<open>Progress of a front-to-back copy\<close>

text \<open>
  separated: the condition of the comment on lzcommon_literal_copy, that dest is not
  within src and src + len.  copied: n bytes have been written at dest, of which those
  below len are the original source bytes, and nothing else has changed.  pending:
  the bytes bs follow the n written ones in the source.
\<close>

definition separated :: "nat \<Rightarrow> nat \<Rightarrow> nat \<Rightarrow> bool" where
  "separated dest src len \<longleftrightarrow> dest < src \<or> src + len \<le> dest"

definition copied :: "mem \<Rightarrow> mem \<Rightarrow> nat \<Rightarrow> nat \<Rightarrow> nat \<Rightarrow> nat \<Rightarrow> bool" where
  "copied m0 m dest src len n \<longleftrightarrow> dom m = dom m0 \<and>
     (\<forall>x. x < dest \<or> dest + n \<le> x \<longrightarrow> m x = m0 x) \<and>
     (\<forall>i. i < n \<and> i < len \<longrightarrow> m (dest + i) = m0 (src + i))"

definition pending :: "mem \<Rightarrow> nat \<Rightarrow> nat \<Rightarrow> nat \<Rightarrow> u8 list \<Rightarrow> bool" where
  "pending m0 src len n bs \<longleftrightarrow>
     (\<forall>t < length bs. n + t < len \<longrightarrow> m0 (src + (n + t)) = Some (bs ! t))"

lemma copied_init: "copied m m dest src len 0"
  by (simp add: copied_def)

lemma copied_mapped: "copied m0 m dest src len n \<Longrightarrow> mapped m a k \<longleftrightarrow> mapped m0 a k"
  by (simp add: copied_def mapped_dom)

lemma copied_read:
  assumes "copied m0 m dest src len n" "separated dest src len" "n \<le> i" "i < len"
  shows "m (src + i) = m0 (src + i)"
  using assms by (auto simp: copied_def separated_def)

lemma copied_pending:
  assumes "copied m0 m dest src len n" "separated dest src len" "mapped m0 (src + i) k" "n \<le> i"
  shows "pending m0 src len i (bytes_at m (src + i) k)"
proof -
  have "m0 (src + (i + t)) = Some (the (m (src + (i + t))))" if "t < k" "i + t < len" for t
    using copied_read [OF assms(1,2), of "i + t"] assms(3,4) that mappedD [of m0 "src + i" k "src + (i + t)"]
    by force
  then show ?thesis
    by (simp add: pending_def ac_simps)
qed

lemma copied_write:
  assumes "copied m0 m dest src len n" "mapped m0 (dest + n) (length bs)" "pending m0 src len n bs"
  shows "copied m0 (mem_write m (dest + n) bs) dest src len (n + length bs)"
proof -
  have "mapped m (dest + n) (length bs)"
    using assms(1,2) copied_mapped by blast
  then have "dom (mem_write m (dest + n) bs) = dom m0"
    using assms(1) by (simp add: dom_mem_write copied_def)
  moreover have "mem_write m (dest + n) bs (dest + i) = m0 (src + i)"
    if "i < n + length bs" "i < len" for i
  proof (cases "i < n")
    case True
    with assms(1) that show ?thesis by (simp add: mem_write_def copied_def)
  next
    case False
    then obtain t where "i = n + t"
      using le_Suc_ex [of n i] by auto
    with assms(3) that show ?thesis by (simp add: mem_write_def pending_def)
  qed
  moreover have "mem_write m (dest + n) bs x = m0 x" if "x < dest \<or> dest + (n + length bs) \<le> x" for x
    using assms(1) that by (auto simp: mem_write_def copied_def)
  ultimately show ?thesis
    by (simp add: copied_def)
qed

lemma pending_append:
  "pending m0 src len n bs \<Longrightarrow> pending m0 src len (n + length bs) cs \<Longrightarrow> pending m0 src len n (bs @ cs)"
proof -
  assume b: "pending m0 src len n bs" and c: "pending m0 src len (n + length bs) cs"
  show ?thesis
    unfolding pending_def
  proof (intro allI impI)
    fix t assume t: "t < length (bs @ cs)" "n + t < len"
    show "m0 (src + (n + t)) = Some ((bs @ cs) ! t)"
    proof (cases "t < length bs")
      case True
      with b t show ?thesis by (simp add: pending_def nth_append)
    next
      case False
      then obtain u where "t = length bs + u"
        using le_Suc_ex [of "length bs" t] by auto
      with c t show ?thesis by (simp add: pending_def nth_append add.assoc)
    qed
  qed
qed

lemma pending_drop: "pending m0 src len n bs \<Longrightarrow> pending m0 src len (n + k) (drop k bs)"
  by (auto simp: pending_def add.assoc)

lemma pending_take: "pending m0 src len n bs \<Longrightarrow> pending m0 src len n (take k bs)"
  by (auto simp: pending_def)

lemma pending_pad:
  "pending m0 src len n bs \<Longrightarrow> len \<le> n + length bs \<Longrightarrow> pending m0 src len n (bs @ cs)"
  by (auto simp: pending_def nth_append)

lemma copied_step:
  assumes "copied m0 m dest src len n" "separated dest src len"
    "mapped m0 (src + n) k" "mapped m0 (dest + n) k"
  shows "\<exists>x m'. load_bytes m (src + n) k = Some x \<and> store_bytes m (dest + n) x = Some m' \<and>
    copied m0 m' dest src len (n + k)"
proof -
  have "pending m0 src len n (bytes_at m (src + n) k)"
    using copied_pending [OF assms(1-3)] by simp
  with copied_write [OF assms(1), of "bytes_at m (src + n) k"] assms
  show ?thesis
    by (simp add: load_bytes_mapped store_bytes_mapped copied_mapped [OF assms(1)])
qed

section \<open>Congruent alignment\<close>

text \<open>The bytes moved by a conditional access of width k.\<close>

definition part :: "nat \<Rightarrow> nat \<Rightarrow> nat" where
  "part k off = (if odd (off div k) then k else 0)"

lemma part_le: "part k off \<le> k"
  by (simp add: part_def)

lemma part_sum: "off < 8 \<Longrightarrow> part 1 off + part 2 off + part 4 off = off"
proof -
  assume "off < 8"
  then have "off = 0 \<or> off = 1 \<or> off = 2 \<or> off = 3 \<or> off = 4 \<or> off = 5 \<or> off = 6 \<or> off = 7"
    by linarith
  then show ?thesis by (auto simp: part_def)
qed

lemma copy_part_step:
  assumes "copied m0 m dest src len n" "separated dest src len"
    "mapped m0 (src + n) k" "mapped m0 (dest + n) k"
  shows "\<exists>m'. copy_part k off (m, dest + n, src + n) =
      Some (m', dest + (n + part k off), src + (n + part k off)) \<and>
    copied m0 m' dest src len (n + part k off)"
  using copied_step [OF assms] assms(1) by (auto simp: copy_part_def part_def add.assoc)

lemma copy64_loop_copied:
  assumes "copied m0 m dest src len n" "separated dest src len"
    "mapped m0 (src + n) (8 * k)" "mapped m0 (dest + n) (8 * k)" "src_end = src + n + 8 * k"
  shows "\<exists>m'. copy64_loop src_end m (dest + n) (src + n) = Some m' \<and>
    copied m0 m' dest src len (n + 8 * k)"
  using assms
proof (induction k arbitrary: n m)
  case 0
  then show ?case by (simp add: copy64_loop.simps)
next
  case (Suc k)
  have "mapped m0 (src + n) 8" "mapped m0 (dest + n) 8"
    by (rule mapped_sub [OF Suc.prems(3)]; simp) (rule mapped_sub [OF Suc.prems(4)]; simp)
  with copied_step [OF Suc.prems(1,2)]
  obtain x m' where s: "load_bytes m (src + n) 8 = Some x" "store_bytes m (dest + n) x = Some m'"
    and c: "copied m0 m' dest src len (n + 8)"
    by blast
  have "mapped m0 (src + (n + 8)) (8 * k)" "mapped m0 (dest + (n + 8)) (8 * k)"
    by (rule mapped_sub [OF Suc.prems(3)]; simp) (rule mapped_sub [OF Suc.prems(4)]; simp)
  from Suc.IH [OF c Suc.prems(2) this] Suc.prems(5) s show ?case
    by (subst copy64_loop.simps) (simp add: ac_simps)
qed

lemma align_off_less: "align_off a < 8"
  by (simp add: align_off_def)

lemma align_off_ex:
  obtains q where "a + align_off a = 8 * q"
proof -
  define q r where "q = a div 8" and "r = a mod 8"
  then have a: "a = 8 * q + r" "r < 8" by simp_all
  have "align_off a = (if r = 0 then 0 else 8 - r)"
    by (simp add: align_off_def r_def)
  with a have "a + align_off a = 8 * (if r = 0 then q else q + 1)"
    by simp
  then show ?thesis by (rule that)
qed

lemma round_up8_ex:
  obtains q where "round_up8 a = 8 * q" "a \<le> 8 * q" "8 * q < a + 8"
proof -
  have "a + 7 = 8 * ((a + 7) div 8) + (a + 7) mod 8" "(a + 7) mod 8 < 8" by simp_all
  then have "round_up8 a = 8 * ((a + 7) div 8)" "a \<le> 8 * ((a + 7) div 8)" "8 * ((a + 7) div 8) < a + 8"
    unfolding round_up8_def by linarith+
  then show ?thesis using that by blast
qed

text \<open>
  The result shared by both branches: at least len bytes are copied and nothing at or
  beyond the next 8-byte boundary after the destination is touched.
\<close>

definition copy_done :: "mem \<Rightarrow> mem \<Rightarrow> nat \<Rightarrow> nat \<Rightarrow> nat \<Rightarrow> bool" where
  "copy_done m0 m dest src len \<longleftrightarrow>
     (\<exists>n. copied m0 m dest src len n \<and> len \<le> n \<and> dest + n \<le> round_up8 (dest + len))"

lemma copy_aligned_correct:
  assumes sep: "separated dest src len" and "8 \<le> len" and al: "align_off src = align_off dest"
    and ms: "mapped m src (round_up8 (src + len) - src)"
    and md: "mapped m dest (round_up8 (dest + len) - dest)"
  shows "\<exists>m'. copy dest src len m = Some m' \<and> copy_done m m' dest src len"
proof -
  define off where "off = align_off src"
  have off: "off < 8" "part 1 off + part 2 off + part 4 off = off"
    using align_off_less part_sum by (auto simp: off_def)
  obtain P where P: "src + off = 8 * P" using align_off_ex [of src] off_def by metis
  obtain D where D: "dest + off = 8 * D" using align_off_ex [of dest] off_def al by metis
  obtain Q where Q: "round_up8 (src + len) = 8 * Q" "src + len \<le> 8 * Q" "8 * Q < src + len + 8"
    by (rule round_up8_ex)
  obtain R where R: "round_up8 (dest + len) = 8 * R" "dest + len \<le> 8 * R" "8 * R < dest + len + 8"
    by (rule round_up8_ex)
  have k: "8 * Q = src + off + 8 * (Q - P)"
    using P Q(2) off(1) \<open>8 \<le> len\<close> by linarith
  have "R + P = D + Q"
    using P D Q(2,3) R(2,3) by linarith
  then have kd: "8 * R = dest + off + 8 * (Q - P)"
    using D k P by linarith
  have sub: "mapped m (src + i) j" "mapped m (dest + i) j" if "i + j \<le> off + 8 * (Q - P)" for i j
    by (rule mapped_sub [OF ms], simp, use that Q(1) k in linarith,
        rule mapped_sub [OF md], simp, use that R(1) kd in linarith)
  have "8 \<le> off + 8 * (Q - P)"
    using Q(2) \<open>8 \<le> len\<close> k by linarith
  then have small: "mapped m (src + i) j" "mapped m (dest + i) j" if "i + j \<le> 8" for i j
    using that sub by simp_all
  have pl: "part 1 off \<le> 1" "part 2 off \<le> 2" by (rule part_le)+
  have "0 + 1 \<le> (8 :: nat)" by simp
  from copy_part_step [OF copied_init sep small [OF this], of off]
  obtain m1 where 1: "copy_part 1 off (m, dest, src) = Some (m1, dest + part 1 off, src + part 1 off)"
    "copied m m1 dest src len (part 1 off)"
    by auto
  have "part 1 off + 2 \<le> 8" using pl by linarith
  from copy_part_step [OF 1(2) sep small [OF this], of off]
  obtain m2 where 2: "copy_part 2 off (m1, dest + part 1 off, src + part 1 off) =
      Some (m2, dest + (part 1 off + part 2 off), src + (part 1 off + part 2 off))"
    "copied m m2 dest src len (part 1 off + part 2 off)"
    by blast
  have "part 1 off + part 2 off + 4 \<le> 8" using pl by linarith
  from copy_part_step [OF 2(2) sep small [OF this], of off]
  obtain m3 where 3: "copy_part 4 off (m2, dest + (part 1 off + part 2 off), src + (part 1 off + part 2 off)) =
      Some (m3, dest + off, src + off)" "copied m m3 dest src len off"
    unfolding off(2) by blast
  have "off + 8 * (Q - P) \<le> off + 8 * (Q - P)" by simp
  from copy64_loop_copied [OF 3(2) sep sub [OF this] k]
  obtain m4 where 4: "copy64_loop (8 * Q) m3 (dest + off) (src + off) = Some m4"
    "copied m m4 dest src len (off + 8 * (Q - P))"
    by blast
  have "copy dest src len m = Some m4"
    using 1(1) 2(1) 3(1) 4(1) al Q(1) by (simp add: copy_def off_def [symmetric] Let_def)
  moreover have "len \<le> off + 8 * (Q - P)" "dest + (off + 8 * (Q - P)) \<le> round_up8 (dest + len)"
    using R kd by linarith+
  ultimately show ?thesis
    using 4(2) unfolding copy_done_def by blast
qed

section \<open>Different alignment\<close>

lemma load_le_mapped [mem_simps]: "mapped m a n \<Longrightarrow> load_le n m a = Some (le_word (bytes_at m a n))"
  by (simp add: load_le_def load_bytes_mapped)

text \<open>The shift register of the code, for a number of bytes.\<close>

definition shift_of :: "nat \<Rightarrow> u8" where
  "shift_of r = of_nat (8 * r)"

lemma shift_of_simps [simp]: "shift_of 0 = 0" "shift_of r + of_nat (8 * k) = shift_of (r + k)"
  by (simp_all add: shift_of_def distrib_left)

lemma unat_shift_of: "r < 32 \<Longrightarrow> unat (shift_of r) = 8 * r"
  unfolding shift_of_def by (subst unat_of_nat) simp

lemma gather_step:
  assumes "mapped m (src + r) k" "r < 32"
  shows "gather k off m (le_word (bytes_at m src r), shift_of r, src + r) =
    Some (le_word (bytes_at m src (r + part k off)), shift_of (r + part k off), src + (r + part k off))"
  using assms
  by (simp add: gather_def part_def load_le_mapped bytes_at_append le_word_append add.assoc unat_shift_of
      del: of_nat_mult)

lemma gather_all:
  assumes "mapped m src 8" "off < 8"
  shows "\<exists>g1 g2. gather 1 off m (0, 0, src) = Some g1 \<and> gather 2 off m g1 = Some g2 \<and>
    gather 4 off m g2 = Some (le_word (bytes_at m src off), shift_of off, src + off)"
proof -
  have pl: "part 1 off \<le> 1" "part 2 off \<le> 2" by (rule part_le)+
  have sub: "mapped m (src + r) k" if "r + k \<le> 8" for r k
    by (rule mapped_sub [OF assms(1)]) (use that in simp_all)
  have "gather 1 off m (0, 0, src) =
      Some (le_word (bytes_at m src (part 1 off)), shift_of (part 1 off), src + part 1 off)"
    using gather_step [of m src 0 1 off] sub [of 0 1] by simp
  moreover have "gather 2 off m (le_word (bytes_at m src (part 1 off)), shift_of (part 1 off), src + part 1 off) =
      Some (le_word (bytes_at m src (part 1 off + part 2 off)), shift_of (part 1 off + part 2 off),
        src + (part 1 off + part 2 off))"
    by (rule gather_step) (use pl sub in simp_all)
  moreover have "gather 4 off m (le_word (bytes_at m src (part 1 off + part 2 off)),
        shift_of (part 1 off + part 2 off), src + (part 1 off + part 2 off)) =
      Some (le_word (bytes_at m src off), shift_of off, src + off)"
    using gather_step [of m src "part 1 off + part 2 off" 4 off] pl sub part_sum [OF assms(2)] by simp
  ultimately show ?thesis by simp
qed

lemma store_le_word:
  assumes "mapped m a k" "k \<le> length bs" "k \<le> 8"
  shows "store_le k m a (le_word bs :: u64) = Some (mem_write m a (take k bs))"
  using assms le_bytes_le_word [of k bs, where 'a = 64]
  by (simp add: store_le_def store_bytes_mapped)

lemma scatter_step:
  assumes "copied m0 m dest src len n" "pending m0 src len n bs" "mapped m0 (dest + n) (part k off)"
    "part k off \<le> length bs" "length bs \<le> 8"
  shows "\<exists>m'. scatter k off (m, le_word bs, shift, dest + n) =
      Some (m', le_word (drop (part k off) bs), shift - shift_of (part k off), dest + (n + part k off)) \<and>
    copied m0 m' dest src len (n + part k off) \<and>
    pending m0 src len (n + part k off) (drop (part k off) bs)"
proof (cases "odd (off div k)")
  case True
  then have p: "part k off = k" by (simp add: part_def)
  have "copied m0 (mem_write m (dest + n) (take k bs)) dest src len (n + length (take k bs))"
    by (rule copied_write [OF assms(1)]) (use assms p pending_take in simp_all)
  moreover have "mapped m (dest + n) k"
    using assms(1,3) p copied_mapped by simp
  ultimately show ?thesis
    using True p assms store_le_word [of m "dest + n" k bs] drop_bit_le_word [of bs k, where 'a = 64]
      pending_drop [OF assms(2), of k]
    by (simp add: scatter_def add.assoc min_absorb2 shift_of_def)
next
  case False
  then show ?thesis
    using assms(1,2) by (simp add: scatter_def part_def)
qed

lemma shift_of_add: "shift_of (a + b) = shift_of a + shift_of b"
  by (simp add: shift_of_def distrib_left)

lemma scatter_all:
  assumes c: "copied m0 m dest src len 0" and b: "pending m0 src len 0 bs" and md: "mapped m0 dest 8"
    and "off \<le> length bs" "length bs \<le> 8" "off < 8"
  shows "\<exists>s1 s2 m'. scatter 1 off (m, le_word bs, shift, dest) = Some s1 \<and> scatter 2 off s1 = Some s2 \<and>
    scatter 4 off s2 = Some (m', le_word (drop off bs), shift - shift_of off, dest + off) \<and>
    copied m0 m' dest src len off \<and> pending m0 src len off (drop off bs)"
proof -
  define p1 p2 p4 where "p1 = part 1 off" and "p2 = part 2 off" and "p4 = part 4 off"
  have ps: "p1 + p2 + p4 = off"
    using part_sum [OF assms(6)] by (simp add: p1_def p2_def p4_def)
  have sub: "mapped m0 (dest + n) k" if "n + k \<le> 8" for n k
    by (rule mapped_sub [OF md]) (use that in simp_all)
  have l: "p1 \<le> length bs" "p2 \<le> length (drop p1 bs)" "p4 \<le> length (drop p2 (drop p1 bs))"
    "length (drop p1 bs) \<le> 8" "length (drop p2 (drop p1 bs)) \<le> 8"
    "0 + p1 \<le> 8" "p1 + p2 \<le> 8" "p1 + p2 + p4 \<le> 8"
    using ps assms(4-6) unfolding length_drop by linarith+
  obtain m1 where 1: "scatter 1 off (m, le_word bs, shift, dest) =
      Some (m1, le_word (drop p1 bs), shift - shift_of p1, dest + p1)"
    "copied m0 m1 dest src len p1" "pending m0 src len p1 (drop p1 bs)"
    using scatter_step [OF c b, of 1 off shift, folded p1_def, OF sub [OF l(6)] l(1) assms(5)]
    by auto
  obtain m2 where 2: "scatter 2 off (m1, le_word (drop p1 bs), shift - shift_of p1, dest + p1) =
      Some (m2, le_word (drop p2 (drop p1 bs)), shift - shift_of p1 - shift_of p2, dest + (p1 + p2))"
    "copied m0 m2 dest src len (p1 + p2)" "pending m0 src len (p1 + p2) (drop p2 (drop p1 bs))"
    using scatter_step [OF 1(2,3), of 2 off "shift - shift_of p1", folded p2_def, OF sub [OF l(7)] l(2,4)]
    by blast
  obtain m3 where 3: "scatter 4 off (m2, le_word (drop p2 (drop p1 bs)), shift - shift_of p1 - shift_of p2,
        dest + (p1 + p2)) =
      Some (m3, le_word (drop p4 (drop p2 (drop p1 bs))), shift - shift_of p1 - shift_of p2 - shift_of p4,
        dest + (p1 + p2 + p4))"
    "copied m0 m3 dest src len (p1 + p2 + p4)"
    "pending m0 src len (p1 + p2 + p4) (drop p4 (drop p2 (drop p1 bs)))"
    using scatter_step [OF 2(2,3), of 4 off "shift - shift_of p1 - shift_of p2", folded p4_def,
        OF sub [OF l(8)] l(3,5)]
    by blast
  have "drop p4 (drop p2 (drop p1 bs)) = drop off bs"
    "shift - shift_of p1 - shift_of p2 - shift_of p4 = shift - shift_of off"
    by (simp_all add: ps [symmetric] shift_of_add ac_simps)
  with 1(1) 2(1) 3 ps show ?thesis by simp
qed

lemma shift_loop_copied:
  assumes "copied m0 m dest src len n" "pending m0 src len n bs" "length bs = r" "r < 8"
    "separated dest src len" "mapped m0 (src + (n + r)) (8 * k)" "mapped m0 (dest + n) (8 * k)"
  shows "\<exists>m' bs'. shift_loop (src + (n + r) + 8 * k) (8 * r) m (le_word bs) (dest + n) (src + (n + r)) =
      Some (m', le_word bs', dest + (n + 8 * k), src + (n + r) + 8 * k) \<and> length bs' = r \<and>
    copied m0 m' dest src len (n + 8 * k) \<and> pending m0 src len (n + 8 * k) bs'"
  using assms
proof (induction k arbitrary: n m bs)
  case 0
  then show ?case by (subst shift_loop.simps) auto
next
  case (Suc k)
  let ?xs = "bytes_at m (src + (n + r)) 8"
  have ms: "mapped m0 (src + (n + r)) 8" "mapped m0 (dest + n) 8"
    "mapped m0 (src + (n + 8 + r)) (8 * k)" "mapped m0 (dest + (n + 8)) (8 * k)"
    using mapped_sub [OF Suc.prems(6), of "src + (n + r)" 8]
      mapped_sub [OF Suc.prems(6), of "src + (n + 8 + r)" "8 * k"]
      mapped_sub [OF Suc.prems(7), of "dest + n" 8]
      mapped_sub [OF Suc.prems(7), of "dest + (n + 8)" "8 * k"] by simp_all
  have "pending m0 src len (n + r) ?xs"
    by (rule copied_pending [OF Suc.prems(1,5) ms(1)]) simp
  then have p: "pending m0 src len n (bs @ ?xs)"
    using pending_append [OF Suc.prems(2)] Suc.prems(3) by simp
  define ws where "ws = take 8 (bs @ ?xs)"
  have ws: "length ws = 8" "pending m0 src len n ws"
    using pending_take [OF p] by (simp_all add: ws_def)
  let ?m = "mem_write m (dest + n) ws"
  have c: "copied m0 ?m dest src len (n + 8)"
    using copied_write [OF Suc.prems(1), of ws] ms(2) ws by simp
  have p8: "pending m0 src len (n + 8) (drop (8 - r) ?xs)"
    using pending_drop [OF p, of 8] Suc.prems(3,4) by simp
  have "le_word (bs @ ?xs) = push_bit (8 * r) (le_word ?xs) OR (le_word bs :: u64)"
    using Suc.prems(3) by (simp add: le_word_append ac_simps)
  then have st: "store_le 8 m (dest + n) (push_bit (8 * r) (le_word ?xs) OR (le_word bs :: u64)) = Some ?m"
    using store_le_word [of m "dest + n" 8 "bs @ ?xs"] ms(2) copied_mapped [OF Suc.prems(1)]
    by (simp add: ws_def)
  have db: "drop_bit (64 - 8 * r) (le_word ?xs :: u64) = le_word (drop (8 - r) ?xs)"
    using drop_bit_le_word [of ?xs "8 - r", where 'a = 64] by (simp add: diff_mult_distrib2)
  have ld: "load_le 8 m (src + (n + r)) = Some (le_word ?xs :: u64)"
    using ms(1) copied_mapped [OF Suc.prems(1)] by (simp add: load_le_mapped)
  have e: "src + (n + r) + 8 * Suc k = src + (n + 8 + r) + 8 * k" "src + (n + r) + 8 = src + (n + 8 + r)"
    by simp_all
  have "shift_loop (src + (n + r) + 8 * Suc k) (8 * r) m (le_word bs) (dest + n) (src + (n + r)) =
      shift_loop (src + (n + 8 + r) + 8 * k) (8 * r) ?m (le_word (drop (8 - r) ?xs)) (dest + (n + 8))
        (src + (n + 8 + r))"
    unfolding e(1) by (subst shift_loop.simps) (simp add: ld st db e(2) add.assoc [of dest])
  then show ?case
    using Suc.IH [OF c p8 _ Suc.prems(4,5) ms(3,4)] Suc.prems(3,4) by (simp add: ac_simps)
qed

text \<open>
  The state in which the shift loop is entered: n destination bytes written, the next r
  source bytes in the bits register, both pointers aligned.
\<close>

definition loop_ready :: "mem \<Rightarrow> nat \<Rightarrow> nat \<Rightarrow> nat \<Rightarrow> mem \<Rightarrow> u64 \<Rightarrow> nat \<Rightarrow> nat \<Rightarrow> bool" where
  "loop_ready m0 dest src len m bits n r \<longleftrightarrow> copied m0 m dest src len n \<and>
     (\<exists>bs. bits = le_word bs \<and> length bs = r \<and> pending m0 src len n bs)"

lemma shift_and_0x38:
  assumes "d < 8"
  shows "0 < d \<Longrightarrow> (0 - shift_of d) AND 0x38 = shift_of (8 - d)" "shift_of d AND 0x38 = shift_of d"
    "shift_of d = 0 \<longleftrightarrow> d = 0"
proof -
  from assms have "d = 0 \<or> d = 1 \<or> d = 2 \<or> d = 3 \<or> d = 4 \<or> d = 5 \<or> d = 6 \<or> d = 7"
    by linarith
  then show "0 < d \<Longrightarrow> (0 - shift_of d) AND 0x38 = shift_of (8 - d)" "shift_of d AND 0x38 = shift_of d"
    "shift_of d = 0 \<longleftrightarrow> d = 0"
    by (auto simp: shift_of_def)
qed

lemma shift_of_diff: "b \<le> a \<Longrightarrow> shift_of a - shift_of b = shift_of (a - b)"
  "a \<le> b \<Longrightarrow> shift_of a - shift_of b = 0 - shift_of (b - a)"
  using shift_of_add [of b "a - b"] shift_of_add [of a "b - a"] by simp_all

lemma shift_loop_finish:
  assumes lr: "loop_ready m0 dest src len m bits n r" and "r < 8" and sep: "separated dest src len"
    and n: "dest + n = 8 * D" and nr: "src + (n + r) = 8 * P" and Pe: "8 * P \<le> round_up8 (src + len)"
    and ms: "mapped m0 src (round_up8 (src + len) - src)"
    and md: "mapped m0 dest (round_up8 (dest + len) - dest)"
  shows "\<exists>m'. (do {
      (m, bits, dest', src') \<leftarrow> shift_loop (round_up8 (src + len)) (8 * r) m bits (dest + n) (src + (n + r));
      if int (round_up8 (src + len)) - int src' < int (round_up8 (dest + len)) - int dest'
      then store_le 8 m dest' bits else Some m
    }) = Some m' \<and> copy_done m0 m' dest src len"
proof -
  obtain Q where Q: "round_up8 (src + len) = 8 * Q" "src + len \<le> 8 * Q" "8 * Q < src + len + 8"
    by (rule round_up8_ex)
  obtain R where R: "round_up8 (dest + len) = 8 * R" "dest + len \<le> 8 * R" "8 * R < dest + len + 8"
    by (rule round_up8_ex)
  define k where "k = Q - P"
  have k: "round_up8 (src + len) = src + (n + r) + 8 * k"
    using Pe Q(1) nr by (simp add: k_def)
  have kn: "8 * Q = src + n + r + 8 * k"
    using k Q(1) by linarith
  have kd: "D + k \<le> R"
    using n kn Q(3) R(2) by linarith
  obtain bs where bs: "bits = le_word bs" "length bs = r" "pending m0 src len n bs"
    and c: "copied m0 m dest src len n"
    using lr by (auto simp: loop_ready_def)
  have "mapped m0 (src + (n + r)) (8 * k)" "mapped m0 (dest + n) (8 * k)"
    using mapped_sub [OF ms, of "src + (n + r)" "8 * k"] mapped_sub [OF md, of "dest + n" "8 * k"] k kd n R(1)
    by simp_all
  from shift_loop_copied [OF c bs(3,2) \<open>r < 8\<close> sep this]
  obtain m1 cs where l: "shift_loop (round_up8 (src + len)) (8 * r) m bits (dest + n) (src + (n + r)) =
      Some (m1, le_word cs, dest + (n + 8 * k), round_up8 (src + len))"
    and c1: "length cs = r" "copied m0 m1 dest src len (n + 8 * k)" "pending m0 src len (n + 8 * k) cs"
    unfolding k bs(1) by blast
  have e: "dest + (n + 8 * k) = 8 * D + 8 * k"
    using n by simp
  show ?thesis
  proof (cases "D + k < R")
    case True
    define ws where "ws = cs @ replicate (8 - r) 0"
    have w: "length ws = 8" "(le_word ws :: u64) = le_word cs"
      using c1(1) \<open>r < 8\<close> by (simp_all add: ws_def le_word_pad)
    have "len \<le> n + 8 * k + length cs" using kn Q(2) c1(1) by linarith
    then have p: "pending m0 src len (n + 8 * k) ws"
      unfolding ws_def by (rule pending_pad [OF c1(3)])
    have mp: "mapped m0 (dest + (n + 8 * k)) 8"
      by (rule mapped_sub [OF md]) (use True e R in linarith)+
    have "store_le 8 m1 (dest + (n + 8 * k)) (le_word cs :: u64) = Some (mem_write m1 (dest + (n + 8 * k)) ws)"
      using store_le_word [of m1 "dest + (n + 8 * k)" 8 ws] mp copied_mapped [OF c1(2)] w by simp
    moreover have "copied m0 (mem_write m1 (dest + (n + 8 * k)) ws) dest src len (n + 8 * k + 8)"
      using copied_write [OF c1(2), of ws] mp p w by simp
    moreover have "len \<le> n + 8 * k + 8" "dest + (n + 8 * k + 8) \<le> round_up8 (dest + len)"
      using kn Q(2) \<open>r < 8\<close> True e R(1) by linarith+
    ultimately show ?thesis
      using l True e R(1) unfolding copy_done_def by auto
  next
    case False
    then have "D + k = R" using kd by simp
    then have "len \<le> n + 8 * k" "dest + (n + 8 * k) \<le> round_up8 (dest + len)"
      using e R(1,2) by linarith+
    then show ?thesis
      using l c1(2) \<open>D + k = R\<close> e R(1) unfolding copy_done_def by auto
  qed
qed

text \<open>The accesses before the shift loop, when the source is aligned first.\<close>

lemma copy_unaligned_less:
  assumes sep: "separated dest src len" and "sa = align_off src" "da = align_off dest" "sa < da"
    and "src + sa = 8 * P" "dest + da = 8 * D" "8 * P < src_end"
    and ms: "mapped m src (8 + sa)" and md: "mapped m dest 8"
  shows "\<exists>m' bits. loop_ready m dest src len m' bits da (8 - (da - sa)) \<and>
    copy_unaligned dest src src_end dest_end m = (do {
      (m, bits, dest', src') \<leftarrow> shift_loop src_end (8 * (8 - (da - sa))) m' bits (dest + da)
        (src + (da + (8 - (da - sa))));
      if int src_end - int src' < int dest_end - int dest' then store_le 8 m dest' bits else Some m
    })"
proof -
  have da: "da < 8" using assms(3) align_off_less by simp
  have m8: "mapped m src 8" "mapped m (src + sa) 8" "mapped m (src + 0) sa"
    using mapped_sub [OF ms, of src 8] mapped_sub [OF ms, of "src + sa" 8] mapped_sub [OF ms, of src sa]
    by simp_all
  define xs where "xs = bytes_at m (src + sa) 8"
  define bs where "bs = take 8 (bytes_at m src sa @ xs)"
  have lx: "length xs = 8" by (simp add: xs_def)
  have "pending m src len 0 (bytes_at m (src + 0) sa)"
    by (rule copied_pending [OF copied_init sep m8(3)]) simp
  moreover have px: "pending m src len sa xs"
    unfolding xs_def by (rule copied_pending [OF copied_init sep m8(2)]) simp
  ultimately have "pending m src len 0 bs"
    unfolding bs_def by (intro pending_take pending_append) simp_all
  moreover have "length bs = 8" "da \<le> length bs"
    using lx da by (simp_all add: bs_def)
  ultimately obtain s1 s2 m1 where sc: "scatter 1 da (m, le_word bs, shift_of sa, dest) = Some s1"
    "scatter 2 da s1 = Some s2"
    "scatter 4 da s2 = Some (m1, le_word (drop da bs), shift_of sa - shift_of da, dest + da)"
    and c: "copied m m1 dest src len da"
    using scatter_all [OF copied_init _ md] da by (metis order_refl)
  have word: "le_word (bytes_at m src sa) OR push_bit (unat (shift_of sa)) (le_word xs) = (le_word bs :: u64)"
    using le_word_append [of "bytes_at m src sa" xs, where 'a = 64] unat_shift_of [of sa] da assms(4)
      le_word_take [of 8 "bytes_at m src sa @ xs", where 'a = 64]
    by (simp add: bs_def)
  have sh: "(shift_of sa - shift_of da) AND 0x38 = shift_of (8 - (da - sa))"
    using shift_of_diff(2) [of sa da] shift_and_0x38(1) [of "da - sa"] assms(4) da by simp
  have shn: "unat (shift_of (8 - (da - sa))) = 8 * (8 - (da - sa))" "shift_of (8 - (da - sa)) \<noteq> 0"
    using unat_shift_of [of "8 - (da - sa)"] shift_and_0x38(3) [of "8 - (da - sa)"] assms(4) da by simp_all
  define ys where "ys = bytes_at m1 (src + sa) 8"
  have m1: "load_le 8 m1 (src + sa) = Some (le_word ys :: u64)"
    using m8(2) copied_mapped [OF c] by (simp add: load_le_mapped ys_def)
  have "pending m src len da (bytes_at m1 (src + da) (8 - (da - sa)))"
    by (rule copied_pending [OF c sep]) (use mapped_sub [OF ms] assms(4) da in auto)
  moreover have "bytes_at m1 (src + da) (8 - (da - sa)) = drop (da - sa) ys"
    using assms(4) by (intro nth_equalityI) (simp_all add: ys_def add.assoc)
  moreover have "drop_bit (64 - 8 * (8 - (da - sa))) (le_word ys :: u64) = le_word (drop (da - sa) ys)"
    using drop_bit_le_word [of ys "da - sa", where 'a = 64] assms(4) da
    by (simp add: ys_def diff_mult_distrib2)
  ultimately have lr: "loop_ready m dest src len m1
      (drop_bit (64 - 8 * (8 - (da - sa))) (le_word ys :: u64)) da (8 - (da - sa))"
    using c by (auto simp: loop_ready_def ys_def)
  obtain g1 g2 where g: "gather 1 sa m (0, 0, src) = Some g1" "gather 2 sa m g1 = Some g2"
    "gather 4 sa m g2 = Some (le_word (bytes_at m src sa), shift_of sa, src + sa)"
    using gather_all [OF m8(1), of sa] assms(4) da by auto
  have "(src + sa) mod 8 = 0" "(dest + da) mod 8 = 0"
    using assms(5,6) by simp_all
  then have "copy_unaligned dest src src_end dest_end m = (do {
      (m, bits, dest', src') \<leftarrow> shift_loop src_end (8 * (8 - (da - sa))) m1
        (drop_bit (64 - 8 * (8 - (da - sa))) (le_word ys)) (dest + da) (src + sa + 8);
      if int src_end - int src' < int dest_end - int dest' then store_le 8 m dest' bits else Some m
    })"
    using g sc word m1 sh shn m8(2) assms(4)
    by (cases g1 rule: prod_cases3; cases g2 rule: prod_cases3;
        cases s1 rule: prod_cases4; cases s2 rule: prod_cases4)
      (simp add: copy_unaligned_def Let_def assms(2,3) [symmetric] load_le_mapped xs_def [symmetric])
  moreover have "src + sa + 8 = src + (da + (8 - (da - sa)))"
    using assms(4) da by simp
  ultimately show ?thesis
    using lr by auto
qed

lemma copy_unaligned_greater:
  assumes sep: "separated dest src len" and "sa = align_off src" "da = align_off dest" "da < sa"
    and "src + sa = 8 * P" "dest + da = 8 * D"
    and ms: "mapped m src 8" and md: "mapped m dest 8"
  shows "\<exists>m' bits. loop_ready m dest src len m' bits da (sa - da) \<and>
    copy_unaligned dest src src_end dest_end m = (do {
      (m, bits, dest', src') \<leftarrow> shift_loop src_end (8 * (sa - da)) m' bits (dest + da) (src + (da + (sa - da)));
      if int src_end - int src' < int dest_end - int dest' then store_le 8 m dest' bits else Some m
    })"
proof -
  have sa: "sa < 8" using assms(2) align_off_less by simp
  define bs where "bs = bytes_at m src sa"
  have "mapped m (src + 0) sa"
    using mapped_sub [OF ms, of src sa] sa by simp
  then have "pending m src len 0 bs"
    using copied_pending [OF copied_init sep, of m 0 sa] by (simp add: bs_def)
  moreover have lb: "length bs = sa" by (simp add: bs_def)
  ultimately obtain s1 s2 m1 where sc: "scatter 1 da (m, le_word bs, shift_of sa, dest) = Some s1"
    "scatter 2 da s1 = Some s2"
    "scatter 4 da s2 = Some (m1, le_word (drop da bs), shift_of sa - shift_of da, dest + da)"
    and c: "copied m m1 dest src len da" and p: "pending m src len da (drop da bs)"
    using scatter_all [OF copied_init _ md, of src len bs da "shift_of sa"] sa assms(4) by auto
  have sh: "(shift_of sa - shift_of da) AND 0x38 = shift_of (sa - da)"
    "unat (shift_of (sa - da)) = 8 * (sa - da)" "shift_of (sa - da) \<noteq> 0"
    using shift_of_diff(1) [of da sa] shift_and_0x38(2,3) [of "sa - da"] unat_shift_of [of "sa - da"]
      assms(4) sa by simp_all
  have lr: "loop_ready m dest src len m1 (le_word (drop da bs)) da (sa - da)"
    using c p lb unfolding loop_ready_def by auto
  obtain g1 g2 where g: "gather 1 sa m (0, 0, src) = Some g1" "gather 2 sa m g1 = Some g2"
    "gather 4 sa m g2 = Some (le_word bs, shift_of sa, src + sa)"
    using gather_all [OF ms sa] by (auto simp: bs_def)
  have "(src + sa) mod 8 = 0" "(dest + da) mod 8 = 0" "src + (da + (sa - da)) = src + sa"
    using assms(4-6) by simp_all
  then have "copy_unaligned dest src src_end dest_end m = (do {
      (m, bits, dest', src') \<leftarrow> shift_loop src_end (8 * (sa - da)) m1 (le_word (drop da bs)) (dest + da)
        (src + (da + (sa - da)));
      if int src_end - int src' < int dest_end - int dest' then store_le 8 m dest' bits else Some m
    })"
    using g sc sh assms(4)
    by (cases g1 rule: prod_cases3; cases g2 rule: prod_cases3;
        cases s1 rule: prod_cases4; cases s2 rule: prod_cases4)
      (simp add: copy_unaligned_def Let_def assms(2,3) [symmetric])
  with lr show ?thesis by blast
qed

lemma copy_unaligned_correct:
  assumes sep: "separated dest src len" and "8 \<le> len" and al: "align_off src \<noteq> align_off dest"
    and ms: "mapped m src (round_up8 (src + len) - src)"
    and md: "mapped m dest (round_up8 (dest + len) - dest)"
  shows "\<exists>m'. copy dest src len m = Some m' \<and> copy_done m m' dest src len"
proof -
  define sa da where "sa = align_off src" and "da = align_off dest"
  have ob: "sa < 8" "da < 8" "sa \<noteq> da"
    using align_off_less al by (auto simp: sa_def da_def)
  obtain P where P: "src + sa = 8 * P" using align_off_ex [of src] sa_def by metis
  obtain D where D: "dest + da = 8 * D" using align_off_ex [of dest] da_def by metis
  obtain Q where Q: "round_up8 (src + len) = 8 * Q" "src + len \<le> 8 * Q"
    by (rule round_up8_ex)
  obtain R where R: "round_up8 (dest + len) = 8 * R" "dest + len \<le> 8 * R"
    by (rule round_up8_ex)
  have PQ: "P + 1 \<le> Q" using P Q(2) ob(1) \<open>8 \<le> len\<close> by linarith
  have m8: "mapped m src 8" "mapped m dest 8" "mapped m src (8 + sa)"
    by (rule mapped_sub [OF ms], simp, use Q \<open>8 \<le> len\<close> in linarith,
        rule mapped_sub [OF md], simp, use R \<open>8 \<le> len\<close> in linarith,
        rule mapped_sub [OF ms], simp, use Q(1) P PQ in linarith)
  have cu: "copy dest src len m = copy_unaligned dest src (round_up8 (src + len)) (round_up8 (dest + len)) m"
    using al by (simp add: copy_def Let_def)
  show ?thesis
  proof (cases "sa < da")
    case True
    have "src + (da + (8 - (da - sa))) = 8 * P + 8"
      using True P ob by linarith
    then have lt: "src + (da + (8 - (da - sa))) = 8 * (P + 1)" "8 - (da - sa) < 8"
        "8 * (P + 1) \<le> round_up8 (src + len)" "8 * P < round_up8 (src + len)"
      using True PQ Q(1) by simp_all
    obtain m1 bits where 1: "loop_ready m dest src len m1 bits da (8 - (da - sa))"
      and 2: "copy dest src len m = (do {
        (m, bits, dest', src') \<leftarrow> shift_loop (round_up8 (src + len)) (8 * (8 - (da - sa))) m1 bits (dest + da)
          (src + (da + (8 - (da - sa))));
        if int (round_up8 (src + len)) - int src' < int (round_up8 (dest + len)) - int dest'
        then store_le 8 m dest' bits else Some m })"
      using copy_unaligned_less [OF sep sa_def da_def True P D lt(4) m8(3,2)] unfolding cu by blast
    show ?thesis
      unfolding 2 by (rule shift_loop_finish [OF 1 lt(2) sep D lt(1,3) ms md])
  next
    case False
    then have lt: "da < sa" "sa - da < 8" "src + (da + (sa - da)) = 8 * P" "8 * P \<le> round_up8 (src + len)"
      using ob P PQ Q(1) by simp_all
    obtain m1 bits where 1: "loop_ready m dest src len m1 bits da (sa - da)"
      and 2: "copy dest src len m = (do {
        (m, bits, dest', src') \<leftarrow> shift_loop (round_up8 (src + len)) (8 * (sa - da)) m1 bits (dest + da)
          (src + (da + (sa - da)));
        if int (round_up8 (src + len)) - int src' < int (round_up8 (dest + len)) - int dest'
        then store_le 8 m dest' bits else Some m })"
      using copy_unaligned_greater [OF sep sa_def da_def lt(1) P D m8(1,2)] unfolding cu by blast
    show ?thesis
      unfolding 2 by (rule shift_loop_finish [OF 1 lt(2) sep D lt(3,4) ms md])
  qed
qed

section \<open>Literal and match copies\<close>

text \<open>The bytes a copy of len bytes may touch at an address.\<close>

definition copy_extent :: "nat \<Rightarrow> nat \<Rightarrow> nat" where
  "copy_extent a len = (if len < LZCOMMON_BLOCK then LZCOMMON_BLOCK else round_up8 (a + len) - a)"

lemma copy_extent_bounds: "len \<le> copy_extent a len" "copy_extent a len \<le> len + 8"
proof -
  obtain q where "round_up8 (a + len) = 8 * q" "a + len \<le> 8 * q" "8 * q < a + len + 8"
    by (rule round_up8_ex)
  then show "len \<le> copy_extent a len" "copy_extent a len \<le> len + 8"
    by (auto simp: copy_extent_def LZCOMMON_BLOCK_def)
qed

lemma copy_extent_mono: "a \<le> b \<Longrightarrow> a + copy_extent a len \<le> b + copy_extent b len"
proof -
  assume "a \<le> b"
  then have "(a + len + 7) div 8 \<le> (b + len + 7) div 8"
    by (simp add: div_le_mono)
  moreover have "a + len \<le> round_up8 (a + len)" "b + len \<le> round_up8 (b + len)"
    using round_up8_ex by metis+
  ultimately show ?thesis
    using \<open>a \<le> b\<close> by (simp add: copy_extent_def LZCOMMON_BLOCK_def round_up8_def)
qed

text \<open>
  The result of a copy: the destination holds the bytes f 0, f 1, ... of the original
  memory, and only the extent of the destination has changed.
\<close>

definition wrote :: "mem \<Rightarrow> mem \<Rightarrow> nat \<Rightarrow> nat \<Rightarrow> (nat \<Rightarrow> u8 option) \<Rightarrow> bool" where
  "wrote m m' dest len f \<longleftrightarrow> dom m' = dom m \<and> (\<forall>i < len. m' (dest + i) = f i) \<and>
     (\<forall>x. x < dest \<or> dest + copy_extent dest len \<le> x \<longrightarrow> m' x = m x)"

lemma wrote_mem_write:
  assumes "mapped m dest (length bs)" "len \<le> length bs" "length bs \<le> copy_extent dest len"
    "\<And>i. i < len \<Longrightarrow> f i = Some (bs ! i)"
  shows "wrote m (mem_write m dest bs) dest len f"
  using assms dom_mem_write [OF assms(1)] unfolding wrote_def by (auto simp: mem_write_def)

lemma literal_copy_wrote:
  assumes sep: "separated dest src len"
    and ms: "mapped m src (copy_extent src len)" and md: "mapped m dest (copy_extent dest len)"
  shows "\<exists>m'. lzcommon_literal_copy dest src len m = Some m' \<and> wrote m m' dest len (\<lambda>i. m (src + i))"
proof (cases "len < LZCOMMON_BLOCK")
  case True
  then have e: "copy_extent src len = 8" "copy_extent dest len = 8"
    by (simp_all add: copy_extent_def LZCOMMON_BLOCK_def)
  have "m (src + i) = Some (the (m (src + i)))" if "i < 8" for i
    using mappedD [of m src 8 "src + i"] ms e that by auto
  then have "wrote m (mem_write m dest (bytes_at m src 8)) dest len (\<lambda>i. m (src + i))"
    using True md e by (intro wrote_mem_write) (simp_all add: LZCOMMON_BLOCK_def)
  then show ?thesis
    using True ms md e
    by (simp add: lzcommon_literal_copy_def LZCOMMON_BLOCK_def load_bytes_mapped store_bytes_mapped)
next
  case False
  then have e: "copy_extent src len = round_up8 (src + len) - src"
    "copy_extent dest len = round_up8 (dest + len) - dest" "8 \<le> len"
    by (simp_all add: copy_extent_def LZCOMMON_BLOCK_def)
  obtain m' where m': "copy dest src len m = Some m'" "copy_done m m' dest src len"
    using copy_aligned_correct [OF sep e(3)] copy_unaligned_correct [OF sep e(3)] ms md e by metis
  then obtain n where "copied m m' dest src len n" "len \<le> n" "dest + n \<le> round_up8 (dest + len)"
    by (auto simp: copy_done_def)
  then have "wrote m m' dest len (\<lambda>i. m (src + i))"
    using e(2) by (auto simp: wrote_def copied_def)
  with m'(1) False show ?thesis
    by (simp add: lzcommon_literal_copy_def)
qed

lemma byte_loop_copied:
  assumes "copied m0 m dest src len n" "separated dest src len"
    "mapped m0 (src + n) k" "mapped m0 (dest + n) k"
  shows "\<exists>m'. byte_loop (dest + n) (src + n) k m = Some m' \<and> copied m0 m' dest src len (n + k)"
  using assms
proof (induction k arbitrary: n m)
  case 0
  then show ?case by simp
next
  case (Suc k)
  have "mapped m0 (src + n) 1" "mapped m0 (dest + n) 1"
    by (rule mapped_sub [OF Suc.prems(3)]; simp) (rule mapped_sub [OF Suc.prems(4)]; simp)
  with copied_step [OF Suc.prems(1,2)]
  obtain x m' where s: "load_bytes m (src + n) 1 = Some x" "store_bytes m (dest + n) x = Some m'"
    and c: "copied m0 m' dest src len (n + 1)"
    by blast
  have "mapped m0 (src + (n + 1)) k" "mapped m0 (dest + (n + 1)) k"
    by (rule mapped_sub [OF Suc.prems(3)]; simp) (rule mapped_sub [OF Suc.prems(4)]; simp)
  from Suc.IH [OF c Suc.prems(2) this] s show ?case
    by (simp del: One_nat_def add: add.assoc [symmetric]) (simp add: add.commute add.left_commute)
qed

lemma byte_loop_wrote:
  assumes "0 < dist" "\<And>i. i < n \<Longrightarrow> m (src + dist + i) = m0 (src + i mod dist)"
    "\<And>x. x < src + dist \<or> src + dist + n \<le> x \<Longrightarrow> m x = m0 x" "dom m = dom m0"
    "mapped m0 src (dist + n + k)"
  shows "\<exists>m'. byte_loop (src + dist + n) (src + n) k m = Some m' \<and> dom m' = dom m0 \<and>
    (\<forall>i < n + k. m' (src + dist + i) = m0 (src + i mod dist)) \<and>
    (\<forall>x. x < src + dist \<or> src + dist + (n + k) \<le> x \<longrightarrow> m' x = m0 x)"
  using assms
proof (induction k arbitrary: n m)
  case 0
  then show ?case by auto
next
  case (Suc k)
  have eq: "m (src + n) = m0 (src + n mod dist)"
  proof (cases "n < dist")
    case True
    then show ?thesis using Suc.prems(3) by simp
  next
    case False
    then obtain j where "n = dist + j" using le_Suc_ex [of dist n] by auto
    then show ?thesis using Suc.prems(1) Suc.prems(2) [of j] by (simp add: add.assoc)
  qed
  have mp: "mapped m (src + n) 1" "mapped m (src + dist + n) 1"
    using Suc.prems(1,4,5) by (auto simp: mapped_dom subset_iff)
  then have l: "load_bytes m (src + n) 1 = Some [the (m (src + n))]"
    by (simp add: load_bytes_def bytes_at_def)
  let ?m = "mem_write m (src + dist + n) [the (m (src + n))]"
  have st: "store_bytes m (src + dist + n) [the (m (src + n))] = Some ?m"
    using mp by (simp add: store_bytes_mapped)
  have mv: "?m x = (if x = src + dist + n then m (src + n) else m x)" for x
    using mappedD [OF mp(1), of "src + n"] by (auto simp: mem_write_def)
  have "dom ?m = dom m0"
    using Suc.prems(4) mp by (simp add: dom_mem_write)
  moreover have "?m (src + dist + i) = m0 (src + i mod dist)" if "i < Suc n" for i
    using that mv eq Suc.prems(2) by (cases "i = n") auto
  moreover have "?m x = m0 x" if "x < src + dist \<or> src + dist + Suc n \<le> x" for x
    using that mv Suc.prems(3) by auto
  ultimately show ?case
    using Suc.IH [of "Suc n" ?m] Suc.prems(1,5) l st by (simp del: One_nat_def) auto
qed

lemma match_copy_wrote:
  assumes "0 < dist" "dist \<le> dest" "mapped m (dest - dist) (dist + copy_extent dest len)"
  shows "\<exists>m'. lzcommon_match_copy dest dist len m = Some m' \<and>
    wrote m m' dest len (\<lambda>i. m (dest - dist + i mod dist))"
proof -
  define src where "src = dest - dist"
  have d: "dest = src + dist" using assms(2) by (simp add: src_def)
  have b: "len \<le> copy_extent dest len" by (rule copy_extent_bounds)
  have md: "mapped m dest (copy_extent dest len)"
    by (rule mapped_sub [OF assms(3)]) (use d in simp_all)
  consider "len \<le> dist" | "dist < len" "dist = 1" | "dist < len" "dist \<noteq> 1" by linarith
  then show ?thesis
  proof cases
    case 1
    have "mapped m src (copy_extent src len)"
      by (rule mapped_sub [OF assms(3)]) (use copy_extent_mono [of src dest len] d in simp_all)
    moreover have "separated dest src len"
      using 1 d by (simp add: separated_def)
    ultimately obtain m' where m': "lzcommon_literal_copy dest src len m = Some m'"
      "wrote m m' dest len (\<lambda>i. m (src + i))"
      using literal_copy_wrote md by blast
    then have "wrote m m' dest len (\<lambda>i. m (src + i mod dist))"
      using 1 by (simp add: wrote_def)
    with m'(1) 1 show ?thesis
      by (simp add: lzcommon_match_copy_def src_def)
  next
    case 2
    have "mapped m src 1"
      by (rule mapped_sub [OF assms(3)]) (use d 2 in simp_all)
    moreover have "mapped m dest len"
      by (rule mapped_sub [OF md]) (use b in simp_all)
    moreover have "m src = Some (the (m src))"
      using mappedD [OF \<open>mapped m src 1\<close>, of src] by auto
    moreover from calculation have "wrote m (mem_write m dest (replicate len (the (m src)))) dest len
        (\<lambda>i. m (src + i mod dist))"
      using 2 b by (intro wrote_mem_write) simp_all
    moreover have "dest - Suc 0 = src"
      by (simp add: src_def 2(2))
    ultimately show ?thesis
      using 2 by (simp add: lzcommon_match_copy_def load_bytes_mapped store_bytes_mapped bytes_at_def)
  next
    case 3
    have "mapped m src (dist + 0 + len)"
      by (rule mapped_sub [OF assms(3)]) (use d b in simp_all)
    then obtain m' where "byte_loop dest src len m = Some m'" "dom m' = dom m"
      "\<forall>i < len. m' (dest + i) = m (src + i mod dist)" "\<forall>x. x < dest \<or> dest + len \<le> x \<longrightarrow> m' x = m x"
      using byte_loop_wrote [OF assms(1), of 0 m src m len] d by auto
    moreover from this b have "wrote m m' dest len (\<lambda>i. m (src + i mod dist))"
      by (simp add: wrote_def)
    ultimately show ?thesis
      using 3 by (simp add: lzcommon_match_copy_def src_def)
  qed
qed

section \<open>Properties\<close>

text \<open>C23: lzcommon_literal_copy copies len bytes correctly whenever the destination does
  not start inside the source, for every alignment of the two pointers, although it works
  with aligned 8-byte accesses: the accesses stay inside the two extents (so nothing faults
  when these are mapped), the destination holds the original source bytes, and no byte
  outside the extent of the destination changes.\<close>

theorem lzcommon_literal_copy_correct:
  assumes "separated dest src len"
    and "mapped m src (copy_extent src len)" "mapped m dest (copy_extent dest len)"
  shows "\<exists>m'. lzcommon_literal_copy dest src len m = Some m' \<and> dom m' = dom m \<and>
    bytes_at m' dest len = bytes_at m src len \<and>
    (\<forall>x. x < dest \<or> dest + copy_extent dest len \<le> x \<longrightarrow> m' x = m x)"
proof -
  obtain m' where "lzcommon_literal_copy dest src len m = Some m'" "wrote m m' dest len (\<lambda>i. m (src + i))"
    using literal_copy_wrote [OF assms] by blast
  then show ?thesis
    using bytes_at_cong [of len m' dest m src] by (auto simp: wrote_def)
qed

text \<open>A memory with the 24 bytes 0, 1, ..., 23 at addresses 100 to 123.\<close>

definition ramp_mem :: mem where
  "ramp_mem = (\<lambda>x. if 100 \<le> x \<and> x < 124 then Some (of_nat (x - 100)) else None)"

theorem lzcommon_literal_copy_correct_witness:
  "separated 101 108 9 \<and> (\<exists>m'. lzcommon_literal_copy 101 108 9 ramp_mem = Some m' \<and>
    bytes_at m' 101 9 = [8, 9, 10, 11, 12, 13, 14, 15, 16])"
proof -
  have e: "copy_extent 108 9 = 12" "copy_extent 101 9 = 11"
    by (simp_all add: copy_extent_def LZCOMMON_BLOCK_def round_up8_def)
  have "separated 101 108 9" "mapped ramp_mem 108 (copy_extent 108 9)" "mapped ramp_mem 101 (copy_extent 101 9)"
    unfolding e by (simp_all add: separated_def mapped_def ramp_mem_def)
  then show ?thesis
    using lzcommon_literal_copy_correct [of 101 108 9 ramp_mem]
    by (auto simp: bytes_at_def ramp_mem_def upt_rec numeral_eq_Suc) 
qed

text \<open>C22: lzcommon_match_copy extends the output periodically: byte i of the copy is byte
  i mod dist of the dist bytes before the destination, for every distance and length, also
  when source and destination overlap.\<close>

theorem lzcommon_match_copy_correct:
  assumes "0 < dist" "dist \<le> dest" "mapped m (dest - dist) (dist + copy_extent dest len)"
  shows "\<exists>m'. lzcommon_match_copy dest dist len m = Some m' \<and> dom m' = dom m \<and>
    (\<forall>i. i < len \<longrightarrow> m' (dest + i) = m (dest - dist + i mod dist)) \<and>
    (\<forall>x. x < dest \<or> dest + copy_extent dest len \<le> x \<longrightarrow> m' x = m x)"
  using match_copy_wrote [OF assms] by (auto simp: wrote_def)

theorem lzcommon_match_copy_correct_witness:
  "\<exists>m'. lzcommon_match_copy 103 3 7 ramp_mem = Some m' \<and> m' 109 = Some 0 \<and> m' 104 = Some 1"
proof -
  have e: "copy_extent 103 7 = 8"
    by (simp add: copy_extent_def LZCOMMON_BLOCK_def)
  have "mapped ramp_mem (103 - 3) (3 + copy_extent 103 7)"
    unfolding e by (simp add: mapped_def ramp_mem_def)
  then obtain m' where m': "lzcommon_match_copy 103 3 7 ramp_mem = Some m'"
    "\<forall>i. i < 7 \<longrightarrow> m' (103 + i) = ramp_mem (103 - 3 + i mod 3)"
    using lzcommon_match_copy_correct [of 3 103 ramp_mem 7] by auto
  from m'(2) [rule_format, of 6] m'(2) [rule_format, of 1] m'(1) show ?thesis
    by (simp add: ramp_mem_def)
qed

end
