(* ===== verification/Decompressor.thy ===== *)
theory Decompressor
  imports Lzcommon
begin

text \<open>
  The interface between the decompressors and the code that drives them,
  compression/compression.h: probe and decode status codes and the part of the decoder
  state that is shared between client and decompressor.
\<close>

section \<open>Definitions\<close>

datatype compr_probe_status =
    COMPR_PROBE_SIZE_UNKNOWN
  | COMPR_PROBE_SIZE_KNOWN
  | COMPR_PROBE_NOT_ENOUGH_DATA
  | COMPR_PROBE_WRONG_MAGIC
  | COMPR_PROBE_UNIMPLEMENTED_FEATURE
  | COMPR_PROBE_RESERVED_FEATURE

fun probe_success :: "compr_probe_status \<Rightarrow> bool" where
  "probe_success COMPR_PROBE_SIZE_UNKNOWN = True"
| "probe_success COMPR_PROBE_SIZE_KNOWN = True"
| "probe_success _ = False"

text \<open>Results of a decode function: a status below NUM_DECODE_STATUS, or
  NUM_DECODE_STATUS plus the number of consumed input bytes.\<close>

definition DECODE_ERR :: nat where "DECODE_ERR = 0"
definition DECODE_NEED_MORE_SPACE :: nat where "DECODE_NEED_MORE_SPACE = 1"
definition DECODE_NEED_MORE_DATA :: nat where "DECODE_NEED_MORE_DATA = 2"
definition NUM_DECODE_STATUS :: nat where "NUM_DECODE_STATUS = 3"

lemmas decode_status_defs = DECODE_ERR_def DECODE_NEED_MORE_SPACE_def DECODE_NEED_MORE_DATA_def
  NUM_DECODE_STATUS_def

text \<open>struct decompressor_state without the decode pointer, which every decompressor adds
  as a datatype of its decoding stages.\<close>

record decompressor_state =
  d_window_start :: nat
  d_out :: nat
  d_out_end :: nat

text \<open>Reading one byte, and arithmetic on u32 values kept as natural numbers.\<close>

definition load8 :: "mem \<Rightarrow> nat \<Rightarrow> u8 option" where
  "load8 m a = m a"

definition wrap32 :: "nat \<Rightarrow> nat" where
  "wrap32 n = n mod 4294967296"

lemma wrap32_small [simp]: "n < 4294967296 \<Longrightarrow> wrap32 n = n"
  by (simp add: wrap32_def)

lemma wrap32_less: "wrap32 n < 4294967296"
  by (simp add: wrap32_def)

text \<open>
  The layout a decode function is called in: the input from i to e and the output from the
  window to the output limit are mapped, each with LZCOMMON_BLOCK bytes of slack, and they
  do not overlap.
\<close>

definition dec_geom :: "mem \<Rightarrow> nat \<Rightarrow> nat \<Rightarrow> nat \<Rightarrow> nat \<Rightarrow> nat \<Rightarrow> bool" where
  "dec_geom m e i oe ws out \<longleftrightarrow>
     mapped m i (e + LZCOMMON_BLOCK - i) \<and> mapped m ws (oe + LZCOMMON_BLOCK - ws) \<and>
     ws \<le> out \<and> out \<le> oe \<and> i \<le> e \<and> (e \<le> ws \<or> oe + LZCOMMON_BLOCK \<le> i)"

lemma dec_geom_step:
  assumes "dec_geom m e i oe ws out" "only_within m m' a b" "i \<le> i'" "i' \<le> e"
    "ws \<le> ws'" "ws' \<le> out'" "out' \<le> oe"
  shows "dec_geom m' e i' oe ws' out'"
proof -
  have "mapped m i (e + 8 - i)" "mapped m ws (oe + 8 - ws)"
    using assms(1) by (simp_all add: dec_geom_def LZCOMMON_BLOCK_def)
  then have "mapped m i' (e + 8 - i')" "mapped m ws' (oe + 8 - ws')"
    using assms by (auto intro: mapped_sub)
  then show ?thesis
    using assms only_within_mapped [OF assms(2)] by (auto simp: dec_geom_def LZCOMMON_BLOCK_def)
qed

end
