(* ===== verification/Lz4.thy ===== *)
theory Lz4
  imports Decompressor
begin

text \<open>
  The LZ4 decompressor, compression/lz4.c, on the byte memory of the prelude.  Pointers
  are addresses; the u32 counters of the block decoder wrap at 2^32.  A result None means
  that an assert failed or an access left the mapped memory.
\<close>

section \<open>Block decoder\<close>

text \<open>
  decompress_block returns a pointer: here None for the null pointer returned by a failed
  check and Some for the new output pointer.  A sequence either fails, ends the block, or
  continues with new input and output positions.
\<close>

datatype lz4_step =
    Lz4_Fail mem
  | Lz4_Final mem nat
  | Lz4_More mem nat nat

text \<open>The loops that extend a literal or match length; None inside is a failed check.\<close>

function lit_len :: "mem \<Rightarrow> nat \<Rightarrow> nat \<Rightarrow> nat \<Rightarrow> (nat \<times> nat) option option" where
  "lit_len m end_ptr inp cpy = do {
     add \<leftarrow> load8 m inp;
     let cpy = wrap32 (cpy + unat add);
     let inp = inp + 1;
     if \<not> inp + cpy \<le> end_ptr then Some None
     else if add = 255 then lit_len m end_ptr inp cpy
     else Some (Some (inp, cpy))
   }"
  by pat_completeness auto
termination
  by (relation "measure (\<lambda>(m, e, i, c). Suc e - i)") auto

function match_len :: "mem \<Rightarrow> nat \<Rightarrow> nat \<Rightarrow> nat \<Rightarrow> nat \<Rightarrow> (nat \<times> nat) option option" where
  "match_len m end_ptr restsize inp len = do {
     add \<leftarrow> load8 m inp;
     let len = wrap32 (len + unat add);
     let inp = inp + 1;
     if \<not> restsize \<ge> len then Some None
     else if \<not> inp + 6 \<le> end_ptr then Some None
     else if add = 255 then match_len m end_ptr restsize inp len
     else Some (Some (inp, len))
   }"
  by pat_completeness auto
termination
  by (relation "measure (\<lambda>(m, e, r, i, l). Suc e - i)") auto

declare lit_len.simps [simp del] match_len.simps [simp del]

definition lz4_match_length :: "mem \<Rightarrow> nat \<Rightarrow> nat \<Rightarrow> nat \<Rightarrow> nat \<Rightarrow> nat \<Rightarrow> (nat \<times> nat) option option" where
  "lz4_match_length m end_ptr out_end out inp len =
    (if len = 19 then match_len m end_ptr (wrap32 (out_end - out - 5)) inp len
     else if \<not> inp + 6 \<le> end_ptr then Some None
     else Some (Some (inp, len)))"

definition lz4_dist :: "u8 \<Rightarrow> u8 \<Rightarrow> nat" where
  "lz4_dist d0 d1 = unat (ucast d0 OR push_bit 8 (ucast d1) :: u16)"

text \<open>The part of an iteration after the literals: distance, match length, match copy.\<close>

definition lz4_match :: "nat \<Rightarrow> nat \<Rightarrow> nat \<Rightarrow> nat \<Rightarrow> mem \<Rightarrow> nat \<Rightarrow> nat \<Rightarrow> lz4_step option" where
  "lz4_match end_ptr out_end window_start len m inp out = do {
     d0 \<leftarrow> load8 m inp;
     d1 \<leftarrow> load8 m (inp + 1);
     let dist = lz4_dist d0 d1;
     let inp = inp + 2;
     if dist = 0 then Some (Lz4_Fail m)
     else if \<not> window_start + dist \<le> out then Some (Lz4_Fail m)
     else do {
     let len = len + 4;
     if \<not> out + (len + 5) \<le> out_end then Some (Lz4_Fail m)
     else do {
     r \<leftarrow> lz4_match_length m end_ptr out_end out inp len;
     case r of
       None \<Rightarrow> Some (Lz4_Fail m)
     | Some (inp, len) \<Rightarrow> do {
         m \<leftarrow> lzcommon_match_copy out dist len m;
         Some (Lz4_More m inp (out + len))
       }
     }}
   }"

definition lz4_literal_length :: "mem \<Rightarrow> nat \<Rightarrow> nat \<Rightarrow> nat \<Rightarrow> (nat \<times> nat) option option" where
  "lz4_literal_length m end_ptr inp cpy =
    (if cpy = 15 then lit_len m end_ptr inp cpy else Some (Some (inp, cpy)))"

definition lz4_sequence :: "nat \<Rightarrow> nat \<Rightarrow> nat \<Rightarrow> mem \<Rightarrow> nat \<Rightarrow> nat \<Rightarrow> lz4_step option" where
  "lz4_sequence end_ptr out_end window_start m inp out = do {
     if \<not> inp + 6 \<le> end_ptr then None
     else if \<not> out + 5 \<le> out_end then None
     else do {
     token \<leftarrow> load8 m inp;
     let inp = inp + 1;
     let cpy = unat (drop_bit 4 token);
     let len = unat (token AND 15);
     r \<leftarrow> lz4_literal_length m end_ptr inp cpy;
     case r of
       None \<Rightarrow> Some (Lz4_Fail m)
     | Some (inp, cpy) \<Rightarrow>
         if \<not> out + cpy \<le> out_end then Some (Lz4_Fail m)
         else if end_ptr < inp + wrap32 (cpy + 8) then
           (if inp + cpy \<noteq> end_ptr then Some (Lz4_Fail m)
            else if len \<noteq> 0 then Some (Lz4_Fail m)
            else do {
              m \<leftarrow> lzcommon_literal_copy out inp cpy m;
              Some (Lz4_Final m (out + cpy))
            })
         else do {
           m \<leftarrow> lzcommon_literal_copy out inp cpy m;
           lz4_match end_ptr out_end window_start len m (inp + cpy) (out + cpy)
         }
     }
   }"

lemma lit_len_mono: "lit_len m e i c = Some (Some (i', c')) \<Longrightarrow> i < i' \<and> i' + c' \<le> e"
proof (induction m e i c rule: lit_len.induct)
  case (1 m e i c)
  then show ?case
    by (subst (asm) (2) lit_len.simps)
      (fastforce simp: Let_def split: bind_splits if_splits dest: Suc_lessD)
qed

lemma match_len_mono: "match_len m e r i l = Some (Some (i', l')) \<Longrightarrow> i < i' \<and> i' + 6 \<le> e \<and> l' \<le> r"
proof (induction m e r i l rule: match_len.induct)
  case (1 m e r i l)
  then show ?case
    by (subst (asm) (2) match_len.simps)
      (fastforce simp: Let_def split: bind_splits if_splits dest: Suc_lessD)
qed

lemma lz4_match_length_mono:
  "lz4_match_length m e oe out i l = Some (Some (i', l')) \<Longrightarrow> i \<le> i' \<and> i' + 6 \<le> e"
  by (auto simp: lz4_match_length_def split: if_splits dest: match_len_mono)

lemma lz4_match_More:
  "lz4_match e oe ws l m i out = Some (Lz4_More m' i' out') \<Longrightarrow> i < i' \<and> i' + 6 \<le> e"
  by (auto simp: lz4_match_def Let_def split: bind_splits if_splits option.splits prod.splits
      dest!: lz4_match_length_mono)

lemma lz4_sequence_More:
  assumes "lz4_sequence e oe ws m i out = Some (Lz4_More m' i' out')"
  shows "i < i' \<and> i' + 6 \<le> e"
  using assms
  by (auto simp: lz4_sequence_def lz4_literal_length_def Let_def split: bind_splits if_splits option.splits prod.splits
      dest!: lit_len_mono lz4_match_More)

function lz4_loop :: "nat \<Rightarrow> nat \<Rightarrow> nat \<Rightarrow> mem \<Rightarrow> nat \<Rightarrow> nat \<Rightarrow> (mem \<times> nat option) option" where
  "lz4_loop end_ptr out_end window_start m inp out =
    (case lz4_sequence end_ptr out_end window_start m inp out of
       None \<Rightarrow> None
     | Some (Lz4_Fail m) \<Rightarrow> Some (m, None)
     | Some (Lz4_Final m out) \<Rightarrow> Some (m, Some out)
     | Some (Lz4_More m inp out) \<Rightarrow> lz4_loop end_ptr out_end window_start m inp out)"
  by pat_completeness auto
termination
  by (relation "measure (\<lambda>(e, oe, ws, m, i, out). e - i)") (auto dest!: lz4_sequence_More)

declare lz4_loop.simps [simp del]

definition decompress_block ::
    "nat \<Rightarrow> nat \<Rightarrow> nat \<Rightarrow> nat \<Rightarrow> nat \<Rightarrow> mem \<Rightarrow> (mem \<times> nat option) option" where
  "decompress_block inp end_ptr out out_end window_start m =
    (if \<not> out_end \<le> out + 2 ^ 31 then None
     else if \<not> inp < end_ptr then Some (m, None)
     else if end_ptr < inp + 6 then do {
       token \<leftarrow> load8 m inp;
       let inp = inp + 1;
       if (end_ptr - inp) * 16 \<noteq> unat token then Some (m, None)
       else do {
         let token = drop_bit 4 token;
         if \<not> out + unat token \<le> out_end then Some (m, None)
         else do {
           m \<leftarrow> byte_loop out inp (unat token) m;
           Some (m, Some (out + unat token))
         }
       }
     } else lz4_loop end_ptr out_end window_start m inp out)"

section \<open>Frame decoder\<close>

definition FBINDEP :: u8 where "FBINDEP = 32"
definition FBCHECKSUM :: u8 where "FBCHECKSUM = 16"
definition FCSIZE :: u8 where "FCSIZE = 8"
definition FCCHECKSUM :: u8 where "FCCHECKSUM = 4"
definition FRESERVED :: u8 where "FRESERVED = 2"
definition FDICTID :: u8 where "FDICTID = 1"

text \<open>The probe also returns the value stored through its size pointer, if any.\<close>

definition lz4_probe :: "mem \<Rightarrow> nat \<Rightarrow> nat \<Rightarrow> (compr_probe_status \<times> u64 option) option" where
  "lz4_probe m inp end_ptr =
    (if end_ptr < inp + 4 then Some (COMPR_PROBE_NOT_ENOUGH_DATA, None)
     else do {
       magic \<leftarrow> load_bytes m inp 4;
       if magic \<noteq> [4, 34, 77, 24] then Some (COMPR_PROBE_WRONG_MAGIC, None)
       else if end_ptr < inp + 7 then Some (COMPR_PROBE_NOT_ENOUGH_DATA, None)
       else do {
         flags \<leftarrow> load8 m (inp + 4);
         bd \<leftarrow> load8 m (inp + 5);
         let inp = inp + 6;
         let version = drop_bit 6 flags;
         if version \<noteq> 1 then Some (COMPR_PROBE_RESERVED_FEATURE, None)
         else if flags AND FRESERVED \<noteq> 0 then Some (COMPR_PROBE_RESERVED_FEATURE, None)
         else if flags AND FDICTID \<noteq> 0 then Some (COMPR_PROBE_UNIMPLEMENTED_FEATURE, None)
         else if bd AND 0x8f \<noteq> 0 then Some (COMPR_PROBE_RESERVED_FEATURE, None)
         else if drop_bit 4 bd AND 7 < 4 then Some (COMPR_PROBE_RESERVED_FEATURE, None)
         else if flags AND FCSIZE \<noteq> 0 then
           (if end_ptr < inp + 9 then Some (COMPR_PROBE_NOT_ENOUGH_DATA, None)
            else do {
              csize \<leftarrow> load_le 8 m inp;
              Some (COMPR_PROBE_SIZE_KNOWN, Some csize)
            })
         else Some (COMPR_PROBE_SIZE_UNKNOWN, None)
       }
     })"

text \<open>The decode pointer of the state: one of the two decode functions, or null.\<close>

datatype lz4_decode_ptr = Decode_Null | Decode_Block | Decode_Trailer

record lz4_dec_state = decompressor_state +
  l_decode :: lz4_decode_ptr
  max_block_size :: nat
  l_flags :: u8

definition lz4_decode_trailer :: "lz4_dec_state \<Rightarrow> nat \<Rightarrow> nat \<Rightarrow> nat \<times> lz4_dec_state" where
  "lz4_decode_trailer st inp end_ptr =
    (let st = st\<lparr>l_decode := Decode_Null\<rparr>
     in if l_flags st AND FCCHECKSUM \<noteq> 0 then
          (if \<not> inp + 4 \<le> end_ptr then (0, st) else (NUM_DECODE_STATUS + 4, st))
        else (NUM_DECODE_STATUS, st))"

definition lz4_decode_block :: "lz4_dec_state \<Rightarrow> nat \<Rightarrow> nat \<Rightarrow> mem \<Rightarrow> (nat \<times> lz4_dec_state \<times> mem) option" where
  "lz4_decode_block st inp end_ptr m =
    (if \<not> inp + 4 \<le> end_ptr then Some (0, st, m)
     else do {
       block_size \<leftarrow> load_le 4 m inp;
       let inp = inp + 4;
       let actual_block_size = unat ((block_size :: u32) AND 0x7fffffff);
       if actual_block_size = 0 then
         Some (NUM_DECODE_STATUS + 4, st\<lparr>l_decode := Decode_Trailer\<rparr>, m)
       else if \<not> actual_block_size \<le> max_block_size st then Some (0, st, m)
       else if end_ptr < inp + actual_block_size then Some (DECODE_NEED_MORE_DATA, st, m)
       else do {
         let total_size = actual_block_size + 4 + (if l_flags st AND FBCHECKSUM \<noteq> 0 then 4 else 0);
         if d_out_end st < d_out st + actual_block_size then Some (DECODE_NEED_MORE_SPACE, st, m)
         else do {
           (r, m) \<leftarrow> (if block_size AND 0x80000000 \<noteq> 0 then do {
               m \<leftarrow> lzcommon_literal_copy (d_out st) inp actual_block_size m;
               Some (Some (d_out st + actual_block_size), m)
             } else do {
               let out_limit = (if d_out_end st < d_out st + max_block_size st then d_out_end st
                                else d_out st + max_block_size st);
               (m, block_end) \<leftarrow> decompress_block inp (inp + unat block_size) (d_out st) out_limit
                 (d_window_start st) m;
               Some (block_end, m)
             });
           case r of
             None \<Rightarrow> Some (DECODE_ERR, st, m)
           | Some block_end \<Rightarrow> do {
               let st = st\<lparr>d_out := block_end\<rparr>;
               let st = (if l_flags st AND FBINDEP \<noteq> 0 then st\<lparr>d_window_start := d_out st\<rparr> else st);
               Some (NUM_DECODE_STATUS + total_size, st, m)
             }
         }
       }
     })"

definition lz4_init :: "lz4_dec_state \<Rightarrow> mem \<Rightarrow> nat \<Rightarrow> nat \<Rightarrow> (nat \<times> lz4_dec_state) option" where
  "lz4_init st m inp end_ptr =
    (if \<not> inp + 7 \<le> end_ptr then None
     else do {
       flags \<leftarrow> load8 m (inp + 4);
       bd \<leftarrow> load8 m (inp + 5);
       let st = st\<lparr>l_flags := flags\<rparr>;
       let block_size_field = unat (drop_bit 4 bd AND 7);
       let st = st\<lparr>max_block_size := 256 * 2 ^ (2 * block_size_field), l_decode := Decode_Block\<rparr>;
       let inp = (if l_flags st AND FCSIZE \<noteq> 0 then inp + 8 else inp);
       Some (inp + 7, st)
     })"

definition lz4_decode :: "lz4_dec_state \<Rightarrow> nat \<Rightarrow> nat \<Rightarrow> mem \<Rightarrow> (nat \<times> lz4_dec_state \<times> mem) option" where
  "lz4_decode st inp end_ptr m =
    (case l_decode st of
       Decode_Block \<Rightarrow> lz4_decode_block st inp end_ptr m
     | Decode_Trailer \<Rightarrow> (let (res, st) = lz4_decode_trailer st inp end_ptr in Some (res, st, m))
     | Decode_Null \<Rightarrow> None)"

section \<open>Memory safety\<close>

text \<open>
  The layout decompress_block works in: the input from i to e and the output from the
  window to oe are mapped, each with LZCOMMON_BLOCK bytes of slack, neither is larger than
  2^31 bytes, and input and output do not overlap.
\<close>

definition lz4_geom :: "mem \<Rightarrow> nat \<Rightarrow> nat \<Rightarrow> nat \<Rightarrow> nat \<Rightarrow> nat \<Rightarrow> bool" where
  "lz4_geom m e i oe ws out \<longleftrightarrow>
     mapped m i (e + LZCOMMON_BLOCK - i) \<and> mapped m ws (oe + LZCOMMON_BLOCK - ws) \<and>
     ws \<le> out \<and> out \<le> oe \<and> i \<le> e \<and> oe \<le> out + 2 ^ 31 \<and> e \<le> i + 2 ^ 31 \<and>
     (e \<le> ws \<or> oe + LZCOMMON_BLOCK \<le> i)"

lemma lz4_geom_mapped:
  assumes "lz4_geom m e i oe ws out"
  shows "i \<le> a \<Longrightarrow> a + n \<le> e + 8 \<Longrightarrow> mapped m a n" "ws \<le> a \<Longrightarrow> a + n \<le> oe + 8 \<Longrightarrow> mapped m a n"
proof -
  have mi: "mapped m i (e + 8 - i)" and mo: "mapped m ws (oe + 8 - ws)"
    using assms by (simp_all add: lz4_geom_def LZCOMMON_BLOCK_def)
  show "i \<le> a \<Longrightarrow> a + n \<le> e + 8 \<Longrightarrow> mapped m a n"
    by (rule mapped_sub [OF mi]) linarith+
  show "ws \<le> a \<Longrightarrow> a + n \<le> oe + 8 \<Longrightarrow> mapped m a n"
    by (rule mapped_sub [OF mo]) linarith+
qed

lemma lz4_geom_step:
  assumes "lz4_geom m e i oe ws out" "only_within m m' a b" "i \<le> i'" "i' \<le> e" "out \<le> out'" "out' \<le> oe"
  shows "lz4_geom m' e i' oe ws out'"
proof -
  have "mapped m' i' (e + LZCOMMON_BLOCK - i')"
    using only_within_mapped [OF assms(2)] lz4_geom_mapped(1) [OF assms(1,3)] assms(4)
    by (simp add: LZCOMMON_BLOCK_def)
  then show ?thesis
    using assms only_within_mapped [OF assms(2)] by (auto simp: lz4_geom_def)
qed

lemma lz4_load8:
  assumes "lz4_geom m e i oe ws out" "i \<le> a" "a < e + 8"
  shows "\<exists>b. load8 m a = Some b"
  using lz4_geom_mapped(1) [OF assms(1,2), of 1] assms(3) mappedD [of m a 1 a] by (auto simp: load8_def)

lemma wrote_only_within:
  "wrote m m' dest len f \<Longrightarrow> dest + copy_extent dest len \<le> b \<Longrightarrow> only_within m m' dest b"
  by (auto simp: wrote_def only_within_def)

lemma lz4_literals:
  assumes g: "lz4_geom m e i oe ws out" and "i \<le> p" "p + c \<le> e" "out + c \<le> oe"
  shows "\<exists>m'. lzcommon_literal_copy out p c m = Some m' \<and> wrote m m' out c (\<lambda>k. m (p + k)) \<and>
    only_within m m' out (oe + 8)"
proof -
  have b: "copy_extent p c \<le> c + 8" "copy_extent out c \<le> c + 8"
    by (rule copy_extent_bounds)+
  have "ws \<le> out" "e \<le> ws \<or> oe + 8 \<le> i"
    using g by (simp_all add: lz4_geom_def LZCOMMON_BLOCK_def)
  then have "mapped m p (copy_extent p c)" "mapped m out (copy_extent out c)" "separated out p c"
    using lz4_geom_mapped [OF g] b assms by (auto simp: separated_def)
  then obtain m' where "lzcommon_literal_copy out p c m = Some m'" "wrote m m' out c (\<lambda>k. m (p + k))"
    using literal_copy_wrote by blast
  moreover from this have "only_within m m' out (oe + 8)"
    using b assms(4) by (intro wrote_only_within) auto
  ultimately show ?thesis by blast
qed

lemma lz4_match_copy:
  assumes g: "lz4_geom m e i oe ws out" and "0 < d" "ws + d \<le> out" "out + l \<le> oe"
  shows "\<exists>m'. lzcommon_match_copy out d l m = Some m' \<and>
    wrote m m' out l (\<lambda>k. m (out - d + k mod d)) \<and> only_within m m' out (oe + 8)"
proof -
  have b: "copy_extent out l \<le> l + 8"
    by (rule copy_extent_bounds)
  have "mapped m (out - d) (d + copy_extent out l)"
    by (rule lz4_geom_mapped(2) [OF g]) (use assms b in simp_all)
  then obtain m' where "lzcommon_match_copy out d l m = Some m'" "wrote m m' out l (\<lambda>k. m (out - d + k mod d))"
    using match_copy_wrote [of d out m l] assms by auto
  moreover from this have "only_within m m' out (oe + 8)"
    using b assms(4) by (intro wrote_only_within) auto
  ultimately show ?thesis by blast
qed

lemma lit_len_safe:
  assumes "lz4_geom m e i0 oe ws out" "i0 \<le> i" "i \<le> e"
  shows "\<exists>r. lit_len m e i c = Some r"
  using assms
proof (induction m e i c rule: lit_len.induct)
  case (1 m e i c)
  then obtain b where "load8 m i = Some b"
    using lz4_load8 [of m e i0 oe ws out i] by auto
  with 1 show ?case
    by (subst lit_len.simps) (auto simp: Let_def)
qed

lemma match_len_safe:
  assumes "lz4_geom m e i0 oe ws out" "i0 \<le> i" "i \<le> e"
  shows "\<exists>r. match_len m e rs i l = Some r"
  using assms
proof (induction m e rs i l rule: match_len.induct)
  case (1 m e rs i l)
  then obtain b where "load8 m i = Some b"
    using lz4_load8 [of m e i0 oe ws out i] by auto
  with 1 show ?case
    by (subst match_len.simps) (auto simp: Let_def)
qed

text \<open>What a step of the block decoder guarantees to the next one.\<close>

fun lz4_step_ok :: "nat \<Rightarrow> nat \<Rightarrow> mem \<Rightarrow> nat \<Rightarrow> lz4_step \<Rightarrow> bool" where
  "lz4_step_ok e oe m out (Lz4_Fail m') \<longleftrightarrow> only_within m m' out (oe + 8)"
| "lz4_step_ok e oe m out (Lz4_Final m' out') \<longleftrightarrow>
     only_within m m' out (oe + 8) \<and> out \<le> out' \<and> out' \<le> oe"
| "lz4_step_ok e oe m out (Lz4_More m' i' out') \<longleftrightarrow>
     only_within m m' out (oe + 8) \<and> i' + 6 \<le> e \<and> out \<le> out' \<and> out' + 5 \<le> oe"

lemma lz4_match_length_safe:
  assumes g: "lz4_geom m e i0 oe ws out" and "i0 \<le> i" "i \<le> e" "out + (l + 5) \<le> oe"
  shows "\<exists>q. lz4_match_length m e oe out i l = Some q \<and>
    (\<forall>j k. q = Some (j, k) \<longrightarrow> j + 6 \<le> e \<and> out + (k + 5) \<le> oe)"
proof -
  have rs: "wrap32 (oe - out - 5) = oe - out - 5"
    using g by (intro wrap32_small) (auto simp: lz4_geom_def)
  obtain r where r: "match_len m e (oe - out - 5) i l = Some r"
    using match_len_safe [OF g assms(2,3)] by blast
  moreover have "j + 6 \<le> e \<and> out + (k + 5) \<le> oe" if "r = Some (j, k)" for j k
    using match_len_mono [of m e "oe - out - 5" i l j k] r that assms(4) by auto
  ultimately show ?thesis
    unfolding lz4_match_length_def rs using assms(4) by auto
qed

lemma lz4_match_safe:
  assumes g: "lz4_geom m e i oe ws out" and "i + 8 \<le> e"
  shows "\<exists>r. lz4_match e oe ws l m i out = Some r \<and> lz4_step_ok e oe m out r"
proof -
  obtain d0 d1 where d: "load8 m i = Some d0" "load8 m (i + 1) = Some d1"
    using lz4_load8 [OF g, of i] lz4_load8 [OF g, of "i + 1"] assms(2) by auto
  define dist where "dist = lz4_dist d0 d1"
  show ?thesis
  proof (cases "dist \<noteq> 0 \<and> ws + dist \<le> out \<and> out + (l + 4 + 5) \<le> oe")
    case True
    then obtain q where q: "lz4_match_length m e oe out (i + 2) (l + 4) = Some q"
      "\<And>j k. q = Some (j, k) \<Longrightarrow> j + 6 \<le> e \<and> out + (k + 5) \<le> oe"
      using lz4_match_length_safe [OF g, of "i + 2" "l + 4"] assms(2) by auto
    have eq: "lz4_match e oe ws l m i out = (case q of None \<Rightarrow> Some (Lz4_Fail m)
        | Some (j, k) \<Rightarrow> do { m \<leftarrow> lzcommon_match_copy out dist k m; Some (Lz4_More m j (out + k)) })"
      using d True q(1) unfolding lz4_match_def Let_def dist_def by simp
    show ?thesis
    proof (cases q)
      case None
      then show ?thesis using eq by simp
    next
      case (Some jk)
      then obtain j k where jk: "q = Some (j, k)" by (cases jk) auto
      then show ?thesis
        using eq q(2) [OF jk] lz4_match_copy [OF g, of dist k] True by auto
    qed
  next
    case False
    then show ?thesis
      using d unfolding lz4_match_def by (auto simp: Let_def dist_def)
  qed
qed

lemma lz4_literal_length_safe:
  assumes g: "lz4_geom m e i0 oe ws out" and "i0 \<le> i" "i + 5 \<le> e" "c \<le> 15"
  shows "\<exists>q. lz4_literal_length m e i c = Some q \<and>
    (\<forall>j k. q = Some (j, k) \<longrightarrow> i \<le> j \<and> j \<le> e \<and> k < 2 ^ 31 + 16)"
proof -
  obtain r where r: "lit_len m e i c = Some r"
    using lit_len_safe [OF g assms(2)] assms(3) by fastforce
  have "e \<le> i0 + 2 ^ 31"
    using g by (simp add: lz4_geom_def)
  then have "i \<le> j \<and> j \<le> e \<and> k < 2 ^ 31 + 16" if "r = Some (j, k)" for j k
    using lit_len_mono [of m e i c j k] r that assms(2) by auto
  then show ?thesis
    using r assms(3,4) by (auto simp: lz4_literal_length_def)
qed

lemma lz4_step_ok_trans:
  assumes "only_within m m1 out (oe + 8)" "out \<le> out1" "lz4_step_ok e oe m1 out1 r"
  shows "lz4_step_ok e oe m out r"
  using assms by (cases r) (auto intro: only_within_trans)

lemma unat_nibbles: "unat (drop_bit 4 (t :: u8)) \<le> 15" "unat (t AND 15) \<le> 15"
proof -
  have "unat t < 256" using unsigned_less [of t] by simp
  then have "unat t div 16 \<le> 15" by linarith
  then show "unat (drop_bit 4 t) \<le> 15"
    by (simp add: drop_bit_eq_div unat_div)
  have "t AND 15 \<le> 15" by (rule word_and_le1)
  then show "unat (t AND 15) \<le> 15" by (simp add: word_le_nat_alt)
qed

lemma lz4_sequence_safe:
  assumes g: "lz4_geom m e i oe ws out" and "i + 6 \<le> e" "out + 5 \<le> oe"
  shows "\<exists>r. lz4_sequence e oe ws m i out = Some r \<and> lz4_step_ok e oe m out r"
proof -
  obtain t where t: "load8 m i = Some t"
    using lz4_load8 [OF g, of i] assms(2) by auto
  define cpy len where "cpy = unat (drop_bit 4 t)" and "len = unat (t AND 15)"
  obtain q where q: "lz4_literal_length m e (i + 1) cpy = Some q"
    "\<And>j k. q = Some (j, k) \<Longrightarrow> i + 1 \<le> j \<and> j \<le> e \<and> k < 2 ^ 31 + 16"
    using lz4_literal_length_safe [OF g, of "i + 1" cpy] assms(2) unat_nibbles(1) [of t]
    by (auto simp: cpy_def)
  have eq: "lz4_sequence e oe ws m i out = (case q of
       None \<Rightarrow> Some (Lz4_Fail m)
     | Some (j, k) \<Rightarrow>
         if \<not> out + k \<le> oe then Some (Lz4_Fail m)
         else if e < j + wrap32 (k + 8) then
           (if j + k \<noteq> e then Some (Lz4_Fail m)
            else if len \<noteq> 0 then Some (Lz4_Fail m)
            else do { m \<leftarrow> lzcommon_literal_copy out j k m; Some (Lz4_Final m (out + k)) })
         else do {
           m \<leftarrow> lzcommon_literal_copy out j k m;
           lz4_match e oe ws len m (j + k) (out + k)
         })"
    using t q(1) assms(2,3) unfolding lz4_sequence_def Let_def cpy_def len_def by simp
  show ?thesis
  proof (cases q)
    case None
    then show ?thesis using eq by simp
  next
    case (Some jk)
    then obtain j k where jk: "q = Some (j, k)" by (cases jk) auto
    have b: "i + 1 \<le> j" "j \<le> e" "wrap32 (k + 8) = k + 8"
      using q(2) [OF jk] by (auto intro: wrap32_small)
    show ?thesis
    proof (cases "out + k \<le> oe \<and> j + k \<le> e")
      case True
      then obtain m' where m': "lzcommon_literal_copy out j k m = Some m'" "only_within m m' out (oe + 8)"
        using lz4_literals [OF g, of j k] b by auto
      have "\<exists>r. lz4_match e oe ws len m' (j + k) (out + k) = Some r \<and> lz4_step_ok e oe m out r"
        if "j + (k + 8) \<le> e"
      proof -
        have "lz4_geom m' e (j + k) oe ws (out + k)"
          by (rule lz4_geom_step [OF g m'(2)]) (use that True b in simp_all)
        then show ?thesis
          using lz4_match_safe [of m' e "j + k" oe ws "out + k" len] that
            lz4_step_ok_trans [OF m'(2), of "out + k" e] by auto
      qed
      then show ?thesis
        using eq jk b True m' by auto
    next
      case False
      then show ?thesis using eq jk b by auto
    qed
  qed
qed

lemma lz4_loop_safe:
  assumes "lz4_geom m e i oe ws out" "i + 6 \<le> e" "out + 5 \<le> oe"
  shows "\<exists>m' r. lz4_loop e oe ws m i out = Some (m', r) \<and> only_within m m' out (oe + 8) \<and>
    (\<forall>out'. r = Some out' \<longrightarrow> out \<le> out' \<and> out' \<le> oe)"
  using assms
proof (induction e oe ws m i out rule: lz4_loop.induct)
  case (1 e oe ws m i out)
  obtain r where r: "lz4_sequence e oe ws m i out = Some r" "lz4_step_ok e oe m out r"
    using lz4_sequence_safe [OF 1(2-4)] by blast
  show ?case
  proof (cases r)
    case (Lz4_More m1 i1 out1)
    have g: "lz4_geom m1 e i1 oe ws out1"
      by (rule lz4_geom_step [OF 1(2)]) (use r Lz4_More lz4_sequence_More [of e oe ws m i out] in auto)
    have "lz4_loop e oe ws m i out = lz4_loop e oe ws m1 i1 out1"
      using r Lz4_More by (subst lz4_loop.simps) simp
    then show ?thesis
      using 1(1) [OF r(1) Lz4_More g] r Lz4_More by (auto intro: only_within_trans)
  qed (use r in \<open>subst lz4_loop.simps, simp\<close>)+
qed

lemma decompress_block_safe:
  assumes g: "lz4_geom m e i oe ws out" and "i + 6 \<le> e \<Longrightarrow> out + 5 \<le> oe"
  shows "\<exists>m' r. decompress_block i e out oe ws m = Some (m', r) \<and> only_within m m' out (oe + 8) \<and>
    (\<forall>out'. r = Some out' \<longrightarrow> out \<le> out' \<and> out' \<le> oe)"
proof (cases "i < e \<and> e < i + 6")
  case True
  obtain t where t: "load8 m i = Some t"
    using lz4_load8 [OF g, of i] True by auto
  let ?c = "unat (drop_bit 4 t)"
  have copy: "\<exists>m'. byte_loop out (i + 1) ?c m = Some m' \<and> only_within m m' out (oe + 8)"
    if c: "(e - (i + 1)) * 16 = unat t" "out + ?c \<le> oe"
  proof -
    have "?c = e - (i + 1)"
      using c(1) [symmetric] by (simp add: drop_bit_eq_div unat_div)
    then have "i + 1 + ?c \<le> e" using True by simp
    then have m: "mapped m (i + 1) ?c" "mapped m out ?c" "separated out (i + 1) ?c"
      using lz4_geom_mapped [OF g] c(2) g by (auto simp: lz4_geom_def separated_def LZCOMMON_BLOCK_def)
    then show ?thesis
      using byte_loop_copied [OF copied_init m(3), of m ?c] c(2)
      by (auto simp: copied_def only_within_def)
  qed
  then show ?thesis
    using t True g unfolding decompress_block_def lz4_geom_def by (auto simp: Let_def)
next
  case False
  then show ?thesis
    using g assms(2) lz4_loop_safe [OF g] unfolding decompress_block_def
    by (auto simp: lz4_geom_def)
qed

section \<open>The LZ4 block format\<close>

text \<open>
  A block as the format defines it, independent of the decoder: sequences of literals
  followed by a match, and final literals; its bytes; and the output it stands for, given
  the history before it.
\<close>

datatype lz4_seq = Lz4_Seq "u8 list" nat nat

fun len_ext :: "nat \<Rightarrow> u8 list" where
  "len_ext n = (if n < 255 then [of_nat n] else 255 # len_ext (n - 255))"

declare len_ext.simps [simp del]

definition enc_literals :: "u8 list \<Rightarrow> u8 list" where
  "enc_literals ls = (if 15 \<le> length ls then len_ext (length ls - 15) else []) @ ls"

fun enc_seq :: "lz4_seq \<Rightarrow> u8 list" where
  "enc_seq (Lz4_Seq ls d l) =
     of_nat (min 15 (length ls) * 16 + min 15 (l - 4)) # enc_literals ls @
     [of_nat (d mod 256), of_nat (d div 256)] @ (if 19 \<le> l then len_ext (l - 19) else [])"

definition enc_last :: "u8 list \<Rightarrow> u8 list" where
  "enc_last ls = of_nat (min 15 (length ls) * 16) # enc_literals ls"

definition enc_block :: "lz4_seq list \<Rightarrow> u8 list \<Rightarrow> u8 list" where
  "enc_block seqs ls = concat (map enc_seq seqs) @ enc_last ls"

definition match_bytes :: "u8 list \<Rightarrow> nat \<Rightarrow> nat \<Rightarrow> u8 list" where
  "match_bytes h d l = map (\<lambda>k. h ! (length h - d + k mod d)) [0..<l]"

fun expand_seq :: "u8 list \<Rightarrow> lz4_seq \<Rightarrow> u8 list" where
  "expand_seq h (Lz4_Seq ls d l) = (h @ ls) @ match_bytes (h @ ls) d l"

fun expand :: "u8 list \<Rightarrow> lz4_seq list \<Rightarrow> u8 list \<Rightarrow> u8 list" where
  "expand h [] ls = h @ ls"
| "expand h (s # ss) ls = expand (expand_seq h s) ss ls"

text \<open>Matches are at least four bytes long and reach back into the history, and a block
  with a match ends in at least five literals.\<close>

fun seqs_ok :: "u8 list \<Rightarrow> lz4_seq list \<Rightarrow> bool" where
  "seqs_ok h [] \<longleftrightarrow> True"
| "seqs_ok h (Lz4_Seq ls d l # ss) \<longleftrightarrow>
     4 \<le> l \<and> 0 < d \<and> d < 65536 \<and> d \<le> length (h @ ls) \<and> seqs_ok (expand_seq h (Lz4_Seq ls d l)) ss"

definition block_ok :: "u8 list \<Rightarrow> lz4_seq list \<Rightarrow> u8 list \<Rightarrow> bool" where
  "block_ok h seqs ls \<longleftrightarrow> seqs_ok h seqs \<and> (seqs \<noteq> [] \<longrightarrow> 5 \<le> length ls)"

lemma lit_len_ext:
  assumes "mem_holds m i (len_ext n)" "i + length (len_ext n) + (c + n) \<le> e" "c + n < 4294967296"
  shows "lit_len m e i c = Some (Some (i + length (len_ext n), c + n))"
  using assms
proof (induction n arbitrary: i c rule: len_ext.induct)
  case (1 n)
  show ?case
  proof (cases "n < 255")
    case True
    then have le: "len_ext n = [of_nat n]" by (simp add: len_ext.simps)
    have u: "unat (of_nat n :: u8) = n" "(of_nat n :: u8) \<noteq> 255"
      using True by (simp_all add: unat_of_nat word_unat_eq_iff)
    show ?thesis
      using 1(2-) le u by (subst lit_len.simps) (simp add: load8_def Let_def)
  next
    case False
    then have le: "len_ext n = 255 # len_ext (n - 255)" by (subst len_ext.simps) simp
    have "lit_len m e (i + 1) (c + 255) = Some (Some (i + 1 + length (len_ext (n - 255)), c + 255 + (n - 255)))"
      by (rule 1(1)) (use False 1(2-) le in auto)
    moreover have "lit_len m e i c = lit_len m e (i + 1) (c + 255)"
      using 1(2-) le False by (subst lit_len.simps) (simp add: load8_def Let_def)
    ultimately show ?thesis
      using le False by simp
  qed
qed

lemma match_len_ext:
  assumes "mem_holds m i (len_ext n)" "i + length (len_ext n) + 6 \<le> e" "l + n \<le> rs" "rs < 4294967296"
  shows "match_len m e rs i l = Some (Some (i + length (len_ext n), l + n))"
  using assms
proof (induction n arbitrary: i l rule: len_ext.induct)
  case (1 n)
  show ?case
  proof (cases "n < 255")
    case True
    then have le: "len_ext n = [of_nat n]" by (simp add: len_ext.simps)
    have u: "unat (of_nat n :: u8) = n" "(of_nat n :: u8) \<noteq> 255"
      using True by (simp_all add: unat_of_nat word_unat_eq_iff)
    show ?thesis
      using 1(2-) le u by (subst match_len.simps) (simp add: load8_def Let_def)
  next
    case False
    then have le: "len_ext n = 255 # len_ext (n - 255)" by (subst len_ext.simps) simp
    have "match_len m e rs (i + 1) (l + 255) = Some (Some (i + 1 + length (len_ext (n - 255)), l + 255 + (n - 255)))"
      by (rule 1(1)) (use False 1(2-) le in auto)
    moreover have "match_len m e rs i l = match_len m e rs (i + 1) (l + 255)"
      using 1(2-) le False by (subst match_len.simps) (simp add: load8_def Let_def)
    ultimately show ?thesis
      using le False by simp
  qed
qed

lemma nibbles_of_nat:
  assumes "a \<le> 15" "b \<le> 15"
  shows "unat (drop_bit 4 (of_nat (a * 16 + b) :: u8)) = a" "unat (of_nat (a * 16 + b) AND 15 :: u8) = b"
proof -
  have "unat (of_nat (a * 16 + b) :: u8) = a * 16 + b"
    by (subst unat_of_nat) (use assms in simp)
  then show "unat (drop_bit 4 (of_nat (a * 16 + b) :: u8)) = a" "unat (of_nat (a * 16 + b) AND 15 :: u8) = b"
    using assms by (simp_all add: unat_drop_bit_4 unat_and_15 del: of_nat_add of_nat_mult)
qed

lemma lz4_dist_of_nat:
  assumes "d < 65536"
  shows "lz4_dist (of_nat (d mod 256)) (of_nat (d div 256)) = d"
proof -
  let ?b = "[of_nat (d mod 256), of_nat (d div 256)] :: u8 list"
  have "lz4_dist (of_nat (d mod 256)) (of_nat (d div 256)) = unat (le_word ?b :: u16)"
    by (simp add: lz4_dist_def byte_simps)
  also have "\<dots> = le_val ?b"
    by (rule unat_le_word) simp
  also have "\<dots> = d"
    using assms by (simp add: unat_of_nat)
  finally show ?thesis .
qed

lemma geom_holds:
  assumes "lz4_geom m e i oe ws out" "only_within m m' out' (oe + 8)" "out \<le> out'"
    "i \<le> a" "a + length bs \<le> e"
  shows "mem_holds m' a bs \<longleftrightarrow> mem_holds m a bs"
  by (rule mem_holds_only_within [OF assms(2)])
    (use assms in \<open>auto simp: lz4_geom_def LZCOMMON_BLOCK_def\<close>)

lemma wrote_bytes_at:
  assumes "wrote m m' dest len f" "\<And>k. k < len \<Longrightarrow> f k = Some (bs ! k)" "length bs = len"
  shows "bytes_at m' dest len = bs"
  by (rule nth_equalityI) (use assms in \<open>simp_all add: wrote_def\<close>)

lemma lz4_literal_length_enc:
  assumes "mem_holds m i (enc_literals ls)" "i + length (enc_literals ls) \<le> e" "length ls < 4294967296"
  shows "lz4_literal_length m e i (min 15 (length ls)) =
    Some (Some (i + (length (enc_literals ls) - length ls), length ls))"
proof (cases "15 \<le> length ls")
  case True
  then have "lit_len m e i 15 = Some (Some (i + length (len_ext (length ls - 15)), 15 + (length ls - 15)))"
    by (intro lit_len_ext) (use assms in \<open>auto simp: enc_literals_def\<close>)
  then show ?thesis
    using True by (simp add: lz4_literal_length_def enc_literals_def)
qed (simp add: lz4_literal_length_def enc_literals_def)

text \<open>The literal part of a sequence, common to inner and final sequences.\<close>

lemma lz4_sequence_literals:
  assumes g: "lz4_geom m e i oe ws out"
    and h: "m i = Some (of_nat (min 15 (length ls) * 16 + b))" "mem_holds m (i + 1) (enc_literals ls)"
    and "b \<le> 15" and e: "i + 1 + length (enc_literals ls) \<le> e" "i + 6 \<le> e"
    and oe: "out + 5 \<le> oe" "out + length ls \<le> oe"
  shows "\<exists>m'. wrote m m' out (length ls) (\<lambda>k. Some (ls ! k)) \<and> only_within m m' out (oe + 8) \<and>
    lz4_sequence e oe ws m i out =
      (let p = i + 1 + length (enc_literals ls) in
       if e < p + 8 then
         (if p \<noteq> e then Some (Lz4_Fail m)
          else if b \<noteq> 0 then Some (Lz4_Fail m)
          else Some (Lz4_Final m' (out + length ls)))
       else lz4_match e oe ws b m' p (out + length ls))"
proof -
  define x where "x = length (enc_literals ls) - length ls"
  have l: "length (enc_literals ls) = x + length ls" and ls: "mem_holds m (i + 1 + x) ls"
    using h(2) by (auto simp: x_def enc_literals_def)
  have small: "length ls < 4294967296" "wrap32 (length ls + 8) = length ls + 8"
    using g e l by (auto simp: lz4_geom_def intro!: wrap32_small)
  obtain m' where m': "lzcommon_literal_copy out (i + 1 + x) (length ls) m = Some m'"
    "wrote m m' out (length ls) (\<lambda>k. m (i + 1 + x + k))" "only_within m m' out (oe + 8)"
    using lz4_literals [OF g, of "i + 1 + x" "length ls"] e l oe by auto
  have w: "wrote m m' out (length ls) (\<lambda>k. Some (ls ! k))"
    using m'(2) ls by (simp add: wrote_def mem_holds_nth)
  define t :: u8 where "t = of_nat (min 15 (length ls) * 16 + b)"
  have tok: "unat (drop_bit 4 t) = min 15 (length ls)" "unat (t AND 15) = b" "m i = Some t"
    unfolding t_def by (rule nibbles_of_nat h(1); use \<open>b \<le> 15\<close> in simp)+
  have ll: "lz4_literal_length m e (i + 1) (min 15 (length ls)) = Some (Some (i + 1 + x, length ls))"
    using lz4_literal_length_enc [OF h(2) e(1) small(1)] by (simp add: x_def)
  have "lz4_sequence e oe ws m i out =
      (if e < i + 1 + x + (length ls + 8) then
         (if i + 1 + x + length ls \<noteq> e then Some (Lz4_Fail m)
          else if b \<noteq> 0 then Some (Lz4_Fail m)
          else Some (Lz4_Final m' (out + length ls)))
       else lz4_match e oe ws b m' (i + 1 + x + length ls) (out + length ls))"
    using e(2) oe m'(1) ll small(2) unfolding lz4_sequence_def load8_def Let_def by (simp add: tok)
  then show ?thesis
    using w m'(3) by (auto simp: Let_def l add.assoc)
qed

lemma lz4_match_length_enc:
  assumes "mem_holds m i (if 19 \<le> l then len_ext (l - 19) else [])"
    and "i + length (if 19 \<le> l then len_ext (l - 19) else []) + 6 \<le> e"
    and "4 \<le> l" "out + l + 5 \<le> oe" "oe \<le> out + 2 ^ 31"
  shows "lz4_match_length m e oe out i (min 15 (l - 4) + 4) =
    Some (Some (i + length (if 19 \<le> l then len_ext (l - 19) else []), l))"
proof (cases "19 \<le> l")
  case True
  have rs: "wrap32 (oe - out - 5) = oe - out - 5"
    using assms(5) by (intro wrap32_small) simp
  have "match_len m e (oe - out - 5) i 19 = Some (Some (i + length (len_ext (l - 19)), 19 + (l - 19)))"
    by (rule match_len_ext) (use assms True in auto)
  then show ?thesis
    using True rs by (simp add: lz4_match_length_def)
qed (use assms in \<open>simp add: lz4_match_length_def\<close>)

lemma lz4_match_enc:
  assumes g: "lz4_geom m e i oe ws out"
    and h: "mem_holds m i ([of_nat (d mod 256), of_nat (d div 256)] @ (if 19 \<le> l then len_ext (l - 19) else []))"
    and e: "i + 2 + length (if 19 \<le> l then len_ext (l - 19) else []) + 6 \<le> e"
    and d: "4 \<le> l" "0 < d" "d < 65536" "ws + d \<le> out" "out + l + 5 \<le> oe"
  shows "\<exists>m'. lz4_match e oe ws (min 15 (l - 4)) m i out =
      Some (Lz4_More m' (i + 2 + length (if 19 \<le> l then len_ext (l - 19) else [])) (out + l)) \<and>
    wrote m m' out l (\<lambda>k. m (out - d + k mod d)) \<and> only_within m m' out (oe + 8)"
proof -
  let ?x = "if 19 \<le> l then len_ext (l - 19) else []"
  have ml: "lz4_match_length m e oe out (i + 2) (min 15 (l - 4) + 4) = Some (Some (i + 2 + length ?x, l))"
    by (rule lz4_match_length_enc) (use h e d g in \<open>auto simp: lz4_geom_def\<close>)
  obtain m' where m': "lzcommon_match_copy out d l m = Some m'"
    "wrote m m' out l (\<lambda>k. m (out - d + k mod d))" "only_within m m' out (oe + 8)"
    using lz4_match_copy [OF g d(2,4), of l] d(5) by auto
  have ld: "load8 m i = Some (of_nat (d mod 256))" "load8 m (i + 1) = Some (of_nat (d div 256))"
    using h by (simp_all add: load8_def)
  have "lz4_match e oe ws (min 15 (l - 4)) m i out = Some (Lz4_More m' (i + 2 + length ?x) (out + l))"
    using ml m'(1) d(1,2,4,5) unfolding lz4_match_def ld Let_def
    by (simp add: lz4_dist_of_nat [OF d(3)] del: add_2_eq_Suc')
  then show ?thesis
    using m'(2,3) by blast
qed

lemma bytes_at_split: "a \<le> b \<Longrightarrow> b \<le> c \<Longrightarrow> bytes_at m a (c - a) = bytes_at m a (b - a) @ bytes_at m b (c - b)"
  using bytes_at_append [of m a "b - a" "c - b"] by simp

lemma lz4_sequence_enc:
  assumes g: "lz4_geom m e i oe ws out" and h: "mem_holds m i (enc_seq (Lz4_Seq ls d l))"
    and e: "i + length (enc_seq (Lz4_Seq ls d l)) + 6 \<le> e"
    and d: "4 \<le> l" "0 < d" "d < 65536" "ws + d \<le> out + length ls" "out + length ls + l + 5 \<le> oe"
  shows "\<exists>m'. lz4_sequence e oe ws m i out =
      Some (Lz4_More m' (i + length (enc_seq (Lz4_Seq ls d l))) (out + length ls + l)) \<and>
    only_within m m' out (oe + 8) \<and>
    bytes_at m' ws (out + length ls + l - ws) = expand_seq (bytes_at m ws (out - ws)) (Lz4_Seq ls d l)"
proof -
  let ?x = "if 19 \<le> l then len_ext (l - 19) else []"
  let ?p = "i + 1 + length (enc_literals ls)" and ?o = "out + length ls"
  have l: "length (enc_seq (Lz4_Seq ls d l)) = 3 + length (enc_literals ls) + length ?x"
    by simp
  have ws: "ws \<le> out" using g by (simp add: lz4_geom_def)
  obtain m1 where m1: "wrote m m1 out (length ls) (\<lambda>k. Some (ls ! k))" "only_within m m1 out (oe + 8)"
    and seq: "lz4_sequence e oe ws m i out = lz4_match e oe ws (min 15 (l - 4)) m1 ?p ?o"
    using lz4_sequence_literals [OF g, of ls "min 15 (l - 4)"] h e d l
    by (auto simp: Let_def simp del: enc_seq.simps) auto
  have g1: "lz4_geom m1 e ?p oe ws ?o"
    by (rule lz4_geom_step [OF g m1(2)]) (use e l d in auto)
  have "mem_holds m ?p ([of_nat (d mod 256), of_nat (d div 256)] @ ?x)"
    using h by simp
  then have h1: "mem_holds m1 ?p ([of_nat (d mod 256), of_nat (d div 256)] @ ?x)"
    using geom_holds [OF g m1(2), of ?p "[of_nat (d mod 256), of_nat (d div 256)] @ ?x"] e l by simp
  obtain m2 where m2: "lz4_match e oe ws (min 15 (l - 4)) m1 ?p ?o = Some (Lz4_More m2 (?p + 2 + length ?x) (?o + l))"
    "wrote m1 m2 ?o l (\<lambda>k. m1 (?o - d + k mod d))" "only_within m1 m2 ?o (oe + 8)"
    using lz4_match_enc [OF g1 h1] e l d by auto
  let ?h = "bytes_at m ws (out - ws) @ ls"
  have hist: "bytes_at m1 ws (?o - ws) = ?h"
    using bytes_at_split [of ws out ?o m1] only_within_bytes [OF m1(2), of ws "out - ws"] ws
      wrote_bytes_at [OF m1(1), of ls] by simp
  have "m1 (?o - d + k mod d) = Some (match_bytes ?h d l ! k)" if "k < l" for k
  proof -
    define j where "j = length ?h - d + k mod d"
    have "k mod d < d" using d(2) by simp
    then have j: "?o - d + k mod d = ws + j" "j < ?o - ws"
      using ws d(4) by (auto simp: j_def)
    have "mapped m1 ws (?o - ws)"
      by (rule lz4_geom_mapped(2) [OF g1]) (use d ws in auto)
    then have "m1 (ws + j) = Some (bytes_at m1 ws (?o - ws) ! j)"
      using mappedD [of m1 ws "?o - ws" "ws + j"] j(2) by auto
    then show ?thesis
      using that unfolding hist j(1) by (simp add: match_bytes_def j_def)
  qed
  then have "bytes_at m2 ?o l = match_bytes ?h d l"
    by (intro wrote_bytes_at [OF m2(2)]) (simp_all add: match_bytes_def)
  then have "bytes_at m2 ws (?o + l - ws) = ?h @ match_bytes ?h d l"
    using bytes_at_split [of ws ?o "?o + l" m2] only_within_bytes [OF m2(3), of ws "?o - ws"] hist ws by simp
  moreover have "only_within m m2 out (oe + 8)"
    using only_within_trans [OF m1(2) m2(3)] by simp
  ultimately show ?thesis
    using seq m2(1) l by (simp add: add.assoc)
qed

lemma lz4_sequence_last:
  assumes g: "lz4_geom m e i oe ws out" and h: "mem_holds m i (enc_last ls)"
    and e: "e = i + length (enc_last ls)" "i + 6 \<le> e" and oe: "out + 5 \<le> oe" "out + length ls \<le> oe"
  shows "\<exists>m'. lz4_sequence e oe ws m i out = Some (Lz4_Final m' (out + length ls)) \<and>
    only_within m m' out (oe + 8) \<and>
    bytes_at m' ws (out + length ls - ws) = bytes_at m ws (out - ws) @ ls"
proof -
  have ws: "ws \<le> out" using g by (simp add: lz4_geom_def)
  obtain m1 where m1: "wrote m m1 out (length ls) (\<lambda>k. Some (ls ! k))" "only_within m m1 out (oe + 8)"
    and seq: "lz4_sequence e oe ws m i out = Some (Lz4_Final m1 (out + length ls))"
    using lz4_sequence_literals [OF g, of ls 0] h e oe by (auto simp: enc_last_def Let_def)
  moreover have "bytes_at m1 ws (out + length ls - ws) = bytes_at m ws (out - ws) @ ls"
    using bytes_at_split [of ws out "out + length ls" m1] only_within_bytes [OF m1(2), of ws "out - ws"] ws
      wrote_bytes_at [OF m1(1), of ls] by simp
  ultimately show ?thesis by blast
qed

lemma expand_length: "length h \<le> length (expand h ss ls)" "length h + length ls \<le> length (expand h ss ls)"
proof (induction ss arbitrary: h)
  case (Cons s ss)
  obtain xs d l where "s = Lz4_Seq xs d l" by (cases s)
  { case 1
    then show ?case using Cons(1) [of "expand_seq h s"] \<open>s = _\<close> by (simp add: match_bytes_def)
  next
    case 2
    then show ?case using Cons(2) [of "expand_seq h s"] \<open>s = _\<close> by (simp add: match_bytes_def) }
qed simp_all

lemma lz4_loop_enc:
  assumes "lz4_geom m e i oe ws out" "mem_holds m i (enc_block ss ls)" "e = i + length (enc_block ss ls)"
    "seqs_ok (bytes_at m ws (out - ws)) ss" "5 \<le> length ls"
    "ws + length (expand (bytes_at m ws (out - ws)) ss ls) \<le> oe"
  shows "\<exists>m'. lz4_loop e oe ws m i out =
      Some (m', Some (ws + length (expand (bytes_at m ws (out - ws)) ss ls))) \<and>
    only_within m m' out (oe + 8) \<and>
    bytes_at m' ws (length (expand (bytes_at m ws (out - ws)) ss ls)) = expand (bytes_at m ws (out - ws)) ss ls"
  using assms
proof (induction ss arbitrary: m i out)
  case Nil
  have ws: "ws \<le> out" using Nil(1) by (simp add: lz4_geom_def)
  have last: "enc_block [] ls = enc_last ls" "6 \<le> length (enc_last ls)"
    using Nil(5) by (simp_all add: enc_block_def enc_last_def enc_literals_def)
  obtain m' where m': "lz4_sequence e oe ws m i out = Some (Lz4_Final m' (out + length ls))"
    "only_within m m' out (oe + 8)"
    "bytes_at m' ws (out + length ls - ws) = bytes_at m ws (out - ws) @ ls"
    using lz4_sequence_last [OF Nil(1), of ls] Nil(2-) last ws by auto
  then have "lz4_loop e oe ws m i out = Some (m', Some (out + length ls))"
    by (subst lz4_loop.simps) simp
  then show ?case
    using m' ws by auto
next
  case (Cons s ss)
  obtain xs d l where s: "s = Lz4_Seq xs d l" by (cases s)
  let ?h = "bytes_at m ws (out - ws)"
  have ws: "ws \<le> out" using Cons(2) by (simp add: lz4_geom_def)
  have h: "mem_holds m i (enc_seq s)" "mem_holds m (i + length (enc_seq s)) (enc_block ss ls)"
    "length (enc_block (s # ss) ls) = length (enc_seq s) + length (enc_block ss ls)"
    "6 \<le> length (enc_block ss ls)"
    using Cons(3,6) by (simp_all add: enc_block_def enc_last_def enc_literals_def)
  have lh: "length (expand_seq ?h s) = out - ws + length xs + l"
    by (simp add: s match_bytes_def)
  have "length (expand_seq ?h s) + 5 \<le> length (expand ?h (s # ss) ls)"
    using expand_length(2) [of "expand_seq ?h s" ls ss] Cons(6) by simp
  then have oe: "out + length xs + l + 5 \<le> oe"
    using Cons(7) lh ws by linarith
  have e: "e = i + length (enc_seq s) + length (enc_block ss ls)"
    using Cons(4) h(3) by simp
  have ok: "4 \<le> l" "0 < d" "d < 65536" "ws + d \<le> out + length xs" "seqs_ok (expand_seq ?h s) ss"
    using Cons(5) ws by (auto simp: s)
  obtain m1 where m1: "lz4_sequence e oe ws m i out = Some (Lz4_More m1 (i + length (enc_seq s)) (out + length xs + l))"
    "only_within m m1 out (oe + 8)" "bytes_at m1 ws (out + length xs + l - ws) = expand_seq ?h s"
    using lz4_sequence_enc [OF Cons(2), of xs d l] h(1,4) e ok oe unfolding s by fastforce
  have g1: "lz4_geom m1 e (i + length (enc_seq s)) oe ws (out + length xs + l)"
    by (rule lz4_geom_step [OF Cons(2) m1(2)]) (use e oe in auto)
  have h1: "mem_holds m1 (i + length (enc_seq s)) (enc_block ss ls)"
    using geom_holds [OF Cons(2) m1(2), of "i + length (enc_seq s)" "enc_block ss ls"] h(2) e by simp
  have "lz4_loop e oe ws m i out = lz4_loop e oe ws m1 (i + length (enc_seq s)) (out + length xs + l)"
    using m1(1) by (subst lz4_loop.simps) simp
  then show ?case
    using Cons.IH [OF g1 h1 e] ok(5) Cons(6,7) m1(2,3) only_within_trans [OF m1(2)]
    by fastforce
qed

lemma enc_block_short:
  assumes "length (enc_block ss ls) < 6" "block_ok h ss ls"
  shows "ss = [] \<and> length ls < 5 \<and> enc_block ss ls = of_nat (length ls * 16) # ls"
proof (cases ss)
  case Nil
  then show ?thesis
    using assms(1) by (auto simp: enc_block_def enc_last_def enc_literals_def split: if_splits)
next
  case (Cons s ss')
  then have "5 \<le> length ls" using assms(2) by (simp add: block_ok_def)
  then have "6 \<le> length (enc_block ss ls)"
    by (simp add: enc_block_def enc_last_def enc_literals_def)
  then show ?thesis using assms(1) by simp
qed

lemma decompress_block_short:
  assumes g: "lz4_geom m e i oe ws out" and h: "mem_holds m i (of_nat (length ls * 16) # ls)"
    and e: "e = i + 1 + length ls" "length ls < 5" "out + length ls \<le> oe"
  shows "\<exists>m'. decompress_block i e out oe ws m = Some (m', Some (out + length ls)) \<and>
    only_within m m' out (oe + 8) \<and> bytes_at m' ws (out + length ls - ws) = bytes_at m ws (out - ws) @ ls"
proof -
  let ?t = "of_nat (length ls * 16) :: u8"
  have t: "unat ?t = length ls * 16"
    by (subst unat_of_nat) (use e(2) in simp)
  have ws: "ws \<le> out" "out \<le> oe" "oe \<le> out + 2 ^ 31"
    using g by (simp_all add: lz4_geom_def)
  have mp: "mapped m (i + 1) (length ls)" "mapped m out (length ls)" "separated out (i + 1) (length ls)"
    using lz4_geom_mapped [OF g] e ws g by (auto simp: lz4_geom_def separated_def LZCOMMON_BLOCK_def)
  obtain m' where m': "byte_loop out (i + 1) (length ls) m = Some m'"
    "copied m m' out (i + 1) (length ls) (length ls)"
    using byte_loop_copied [OF copied_init mp(3), of m "length ls"] mp by auto
  have "bytes_at m' out (length ls) = bytes_at m (i + 1) (length ls)"
    by (rule bytes_at_cong) (use m'(2) in \<open>simp add: copied_def\<close>)
  also have "\<dots> = ls"
    using h mem_holds_bytes_at [of m "i + 1" ls] by simp
  finally have b: "bytes_at m' out (length ls) = ls" .
  have ow: "only_within m m' out (oe + 8)"
    using m'(2) e(3) by (auto simp: copied_def only_within_def)
  have "bytes_at m' ws (out + length ls - ws) = bytes_at m ws (out - ws) @ ls"
    using bytes_at_split [of ws out "out + length ls" m'] only_within_bytes [OF ow, of ws "out - ws"] ws b by simp
  moreover have "unat (drop_bit 4 ?t) = length ls"
    using t by (simp add: unat_drop_bit_4 del: of_nat_mult)
  then have "decompress_block i e out oe ws m = Some (m', Some (out + length ls))"
    using h e t ws m'(1) by (simp add: decompress_block_def load8_def Let_def del: of_nat_mult)
  ultimately show ?thesis using ow by blast
qed

lemma decompress_block_enc:
  assumes "lz4_geom m (i + length (enc_block ss ls)) i oe ws out"
    and "mem_holds m i (enc_block ss ls)"
    and "block_ok (bytes_at m ws (out - ws)) ss ls"
    and "ws + length (expand (bytes_at m ws (out - ws)) ss ls) \<le> oe"
  shows "\<exists>m'. decompress_block i (i + length (enc_block ss ls)) out oe ws m =
      Some (m', Some (ws + length (expand (bytes_at m ws (out - ws)) ss ls))) \<and>
    bytes_at m' ws (length (expand (bytes_at m ws (out - ws)) ss ls)) =
      expand (bytes_at m ws (out - ws)) ss ls \<and>
    only_within m m' out (oe + LZCOMMON_BLOCK)"
proof (cases "length (enc_block ss ls) < 6")
  case True
  have ws: "ws \<le> out" using assms(1) by (simp add: lz4_geom_def)
  from True enc_block_short [OF True assms(3)]
  show ?thesis
    using decompress_block_short [OF assms(1), of ls] assms(2,4) ws by (auto simp: LZCOMMON_BLOCK_def)
next
  case False
  have "5 \<le> length ls"
    using assms(3) False
    by (cases "ss = []") (auto simp: block_ok_def enc_block_def enc_last_def enc_literals_def split: if_splits)
  moreover have "decompress_block i (i + length (enc_block ss ls)) out oe ws m =
      lz4_loop (i + length (enc_block ss ls)) oe ws m i out"
    using False assms(1) by (auto simp: decompress_block_def lz4_geom_def)
  ultimately show ?thesis
    using lz4_loop_enc [OF assms(1,2) refl] assms(3,4) by (auto simp: block_ok_def LZCOMMON_BLOCK_def)
qed

section \<open>Properties\<close>

text \<open>C1: for every block of the LZ4 format whose output fits, decompress_block returns the
  end of the output, the window followed by the output holds exactly the bytes the format
  defines, and memory outside the output area (with its LZCOMMON_BLOCK bytes of slack) is
  unchanged.\<close>

theorem lz4_block_roundtrip:
  assumes "lz4_geom m (i + length (enc_block ss ls)) i oe ws out"
    and "mem_holds m i (enc_block ss ls)"
    and "block_ok (bytes_at m ws (out - ws)) ss ls"
    and "ws + length (expand (bytes_at m ws (out - ws)) ss ls) \<le> oe"
  shows "\<exists>m'. decompress_block i (i + length (enc_block ss ls)) out oe ws m =
      Some (m', Some (ws + length (expand (bytes_at m ws (out - ws)) ss ls))) \<and>
    bytes_at m' ws (length (expand (bytes_at m ws (out - ws)) ss ls)) =
      expand (bytes_at m ws (out - ws)) ss ls \<and>
    only_within m m' out (oe + LZCOMMON_BLOCK)"
  using assms by (rule decompress_block_enc)

text \<open>A memory image: a run of bytes at an address, zeros elsewhere below a limit.\<close>

definition mem_image :: "nat \<Rightarrow> u8 list \<Rightarrow> nat \<Rightarrow> mem" where
  "mem_image a bs limit = (\<lambda>x. if a \<le> x \<and> x < a + length bs then Some (bs ! (x - a))
     else if x < limit then Some 0 else None)"

lemma mem_image_mapped: "b + n \<le> limit \<Longrightarrow> mapped (mem_image a bs limit) b n"
  by (simp add: mem_image_def mapped_def)

lemma mem_image_holds: "mem_holds (mem_image a bs limit) a bs"
  by (simp add: mem_image_def mem_holds_nth)

theorem lz4_block_roundtrip_witness:
  "enc_block [Lz4_Seq [97, 98, 99] 3 7] [1, 2, 3, 4, 5] = [0x33, 97, 98, 99, 3, 0, 0x50, 1, 2, 3, 4, 5] \<and>
   (\<exists>m'. decompress_block 16 28 64 96 64 (mem_image 16 (enc_block [Lz4_Seq [97, 98, 99] 3 7] [1, 2, 3, 4, 5]) 128) =
      Some (m', Some 79) \<and>
    bytes_at m' 64 15 = [97, 98, 99, 97, 98, 99, 97, 98, 99, 97, 1, 2, 3, 4, 5])"
proof -
  let ?ss = "[Lz4_Seq [97, 98, 99] 3 7]" and ?ls = "[1, 2, 3, 4, 5] :: u8 list"
  let ?m = "mem_image 16 (enc_block ?ss ?ls) 128"
  have enc: "enc_block ?ss ?ls = [0x33, 97, 98, 99, 3, 0, 0x50, 1, 2, 3, 4, 5]"
    by (simp add: enc_block_def enc_literals_def enc_last_def)
  have ex: "expand [] ?ss ?ls = [97, 98, 99, 97, 98, 99, 97, 98, 99, 97, 1, 2, 3, 4, 5]"
    by code_simp
  have "lz4_geom ?m (16 + length (enc_block ?ss ?ls)) 16 96 64 64"
    unfolding lz4_geom_def LZCOMMON_BLOCK_def by (auto simp: enc intro!: mem_image_mapped)
  moreover have "mem_holds ?m 16 (enc_block ?ss ?ls)"
    by (rule mem_image_holds)
  moreover have "block_ok (bytes_at ?m 64 (64 - 64)) ?ss ?ls"
    by (simp add: block_ok_def)
  ultimately have "\<exists>m'. decompress_block 16 (16 + length (enc_block ?ss ?ls)) 64 96 64 ?m =
      Some (m', Some (64 + length (expand [] ?ss ?ls))) \<and>
    bytes_at m' 64 (length (expand [] ?ss ?ls)) = expand [] ?ss ?ls"
    using lz4_block_roundtrip [of ?m 16 ?ss ?ls 96 64 64] ex by auto
  then show ?thesis
    unfolding ex using enc by (auto simp: numeral_eq_Suc)
qed

text \<open>C14: decompress_block is memory safe on every input: whatever bytes it is given, no
  assert fails, no access leaves the input (with its slack) and the window and output (with
  theirs), nothing outside the output area changes, and a returned pointer lies between the
  old output position and the output limit.\<close>

theorem lz4_block_safe:
  assumes "lz4_geom m e i oe ws out" and "i + 6 \<le> e \<longrightarrow> out + 5 \<le> oe"
  shows "\<exists>m' r. decompress_block i e out oe ws m = Some (m', r) \<and>
    only_within m m' out (oe + LZCOMMON_BLOCK) \<and>
    (\<forall>out'. r = Some out' \<longrightarrow> out \<le> out' \<and> out' \<le> oe)"
  using decompress_block_safe [OF assms(1)] assms(2) by (auto simp: LZCOMMON_BLOCK_def)

theorem lz4_block_safe_witness:
  "\<exists>m' r. decompress_block 16 26 64 96 64 (mem_image 16 [0xf1, 255, 255, 255, 255, 255, 255, 255, 255, 255] 128) =
     Some (m', r)"
proof -
  let ?m = "mem_image 16 [0xf1, 255, 255, 255, 255, 255, 255, 255, 255, 255] 128"
  have "lz4_geom ?m 26 16 96 64 64"
    unfolding lz4_geom_def LZCOMMON_BLOCK_def by (auto intro!: mem_image_mapped)
  then show ?thesis
    using lz4_block_safe [of ?m 26 16 96 64 64] by auto
qed

end
