(* ===== verification/Lz4_Frame.thy ===== *)
theory Lz4_Frame
  imports Lz4
begin

text \<open>
  Frames of the LZ4 decompressor: the frame format as a specification, what one call of the
  decode function does on each part of a frame, and the safety of the decode functions on
  arbitrary input.
\<close>

section \<open>The frame format\<close>

datatype lz4_blk = Raw "u8 list" | Comp "lz4_seq list" "u8 list"

fun blk_data :: "lz4_blk \<Rightarrow> u8 list" where
  "blk_data (Raw bs) = bs"
| "blk_data (Comp ss ls) = enc_block ss ls"

fun blk_flag :: "lz4_blk \<Rightarrow> nat" where
  "blk_flag (Raw bs) = 2 ^ 31"
| "blk_flag (Comp ss ls) = 0"

definition enc_le32 :: "nat \<Rightarrow> u8 list" where
  "enc_le32 n = le_bytes 4 (of_nat n :: u32)"

definition enc_blk :: "lz4_blk \<Rightarrow> u8 list" where
  "enc_blk b = enc_le32 (blk_flag b + length (blk_data b)) @ blk_data b"

text \<open>The output of a block after the history h, appended to h.\<close>

fun blk_expand :: "u8 list \<Rightarrow> lz4_blk \<Rightarrow> u8 list" where
  "blk_expand h (Raw bs) = h @ bs"
| "blk_expand h (Comp ss ls) = expand h ss ls"

text \<open>
  A block fits its frame: it is not empty, neither its data nor its output exceed the
  maximum block size, and its data is not longer than its output.
\<close>

definition blk_ok :: "nat \<Rightarrow> u8 list \<Rightarrow> lz4_blk \<Rightarrow> bool" where
  "blk_ok maxb h b \<longleftrightarrow> blk_data b \<noteq> [] \<and> length (blk_data b) \<le> maxb \<and>
     length (blk_data b) + length h \<le> length (blk_expand h b) \<and>
     length (blk_expand h b) \<le> length h + maxb \<and>
     (case b of Raw bs \<Rightarrow> True | Comp ss ls \<Rightarrow> block_ok h ss ls)"

section \<open>Decoding a block\<close>

lemma dec_geom_lz4:
  assumes "dec_geom m e i oe ws out" "i \<le> i'" "i' \<le> e'" "e' \<le> e" "out \<le> oe'" "oe' \<le> oe"
    "e' \<le> i' + 2 ^ 31" "oe' \<le> out + 2 ^ 31"
  shows "lz4_geom m e' i' oe' ws out"
proof -
  have g: "mapped m i (e + 8 - i)" "mapped m ws (oe + 8 - ws)"
    using assms(1) by (simp_all add: dec_geom_def LZCOMMON_BLOCK_def)
  have "mapped m i' (e' + 8 - i')" "mapped m ws (oe' + 8 - ws)"
    using assms by (auto intro: mapped_sub [OF g(1)] mapped_sub [OF g(2)] simp: dec_geom_def)
  then show ?thesis
    using assms by (auto simp: dec_geom_def lz4_geom_def LZCOMMON_BLOCK_def)
qed

lemma dec_geom_lz4_same:
  "dec_geom m e i oe ws out \<Longrightarrow> e \<le> i + 2 ^ 31 \<Longrightarrow> oe \<le> out + 2 ^ 31 \<Longrightarrow> lz4_geom m e i oe ws out"
  by (simp add: dec_geom_def lz4_geom_def)

lemma enc_le32_le_word:
  assumes "n < 2 ^ 32"
  shows "(le_word (enc_le32 n) :: u32) = of_nat n" "unat (le_word (enc_le32 n) :: u32) = n"
  using assms by (simp_all add: enc_le32_def le_word_le_bytes unat_of_nat)

lemma length_enc_le32 [simp]: "length (enc_le32 n) = 4"
  by (simp add: enc_le32_def)

text \<open>The size field of a block: its length and its flag for uncompressed data.\<close>

lemma blk_size_field:
  assumes "length (blk_data b) < 2 ^ 31"
  defines "w \<equiv> (le_word (enc_le32 (blk_flag b + length (blk_data b))) :: u32)"
  shows "unat (w AND 0x7fffffff) = length (blk_data b)"
    "w AND 0x80000000 \<noteq> 0 \<longleftrightarrow> (\<exists>bs. b = Raw bs)"
    "b = Comp ss ls \<Longrightarrow> unat w = length (blk_data b)"
proof -
  have "blk_flag b + length (blk_data b) < 2 ^ 32"
    using assms(1) by (cases b) simp_all
  then have w: "unat w = blk_flag b + length (blk_data b)"
    unfolding w_def by (rule enc_le32_le_word)
  have m: "0x7fffffff = (mask 31 :: u32)" "0x80000000 = (2 ^ 31 :: u32)"
    by (simp_all add: mask_eq_exp_minus_1)
  show "unat (w AND 0x7fffffff) = length (blk_data b)"
    using assms(1) w unfolding m by (cases b) (simp_all add: unat_and_mask)
  show "w AND 0x80000000 \<noteq> 0 \<longleftrightarrow> (\<exists>bs. b = Raw bs)"
  proof (cases b)
    case (Raw bs)
    then have "unat w div 2 ^ 31 = 1"
      using assms(1) w by (intro div_nat_eqI) simp_all
    then show ?thesis
      using Raw unfolding m by (subst and_exp_iff_odd) simp_all
  next
    case (Comp ss ls)
    then show ?thesis
      using assms(1) w unfolding m by (subst and_exp_iff_odd) simp_all
  qed
  show "b = Comp ss ls \<Longrightarrow> unat w = length (blk_data b)"
    using w by simp
qed

text \<open>The state after a block.\<close>

definition after_blk :: "lz4_dec_state \<Rightarrow> nat \<Rightarrow> lz4_dec_state" where
  "after_blk st out' = st\<lparr>d_out := out',
     d_window_start := (if l_flags st AND FBINDEP \<noteq> 0 then out' else d_window_start st)\<rparr>"

lemma blk_copy:
  assumes g: "dec_geom m e i (d_out_end st) (d_window_start st) (d_out st)"
    and h: "mem_holds m i (blk_data b)" "i + length (blk_data b) \<le> e"
    and hist: "hist = bytes_at m (d_window_start st) (d_out st - d_window_start st)"
    and ok: "blk_ok maxb hist b" "maxb < 2 ^ 31"
    and fits: "d_window_start st + length (blk_expand hist b) \<le> d_out_end st"
  defines "limit \<equiv> (if d_out_end st < d_out st + maxb then d_out_end st else d_out st + maxb)"
  shows "\<exists>m'. bytes_at m' (d_window_start st) (length (blk_expand hist b)) = blk_expand hist b \<and>
    only_within m m' (d_out st) (d_out_end st + 8) \<and>
    (case b of
       Raw bs \<Rightarrow> lzcommon_literal_copy (d_out st) i (length bs) m = Some m'
     | Comp ss ls \<Rightarrow> decompress_block i (i + length (blk_data b)) (d_out st) limit (d_window_start st) m =
         Some (m', Some (d_window_start st + length (blk_expand hist b))))"
proof (cases b)
  case (Raw bs)
  let ?ws = "d_window_start st" and ?out = "d_out st" and ?oe = "d_out_end st"
  have ws: "?ws \<le> ?out" using g by (simp add: dec_geom_def)
  have l: "length hist = ?out - ?ws" using hist by simp
  have "lz4_geom m (i + length bs) i (?out + length bs) ?ws ?out"
    by (rule dec_geom_lz4 [OF g]) (use ok Raw h fits l ws in \<open>auto simp: blk_ok_def\<close>)
  from lz4_literals [OF this, of i "length bs"]
  obtain m' where m': "lzcommon_literal_copy ?out i (length bs) m = Some m'"
    "wrote m m' ?out (length bs) (\<lambda>k. m (i + k))" "only_within m m' ?out (?out + length bs + 8)"
    by auto
  have b: "bytes_at m' ?out (length bs) = bs"
    by (rule wrote_bytes_at [OF m'(2)]) (use h Raw in \<open>simp_all add: mem_holds_nth\<close>)
  have ow: "only_within m m' ?out (?oe + 8)"
    using m'(3) fits l ws Raw by (auto simp: only_within_def)
  have "bytes_at m' ?ws (?out + length bs - ?ws) = hist @ bs"
    using bytes_at_split [of ?ws ?out "?out + length bs" m'] only_within_bytes [OF ow, of ?ws "?out - ?ws"]
      ws b hist by simp
  then show ?thesis
    using m'(1) ow Raw l ws by auto
next
  case (Comp ss ls)
  let ?ws = "d_window_start st" and ?out = "d_out st"
  have ws: "?ws \<le> ?out" "?out \<le> d_out_end st" using g by (simp_all add: dec_geom_def)
  have l: "length hist = ?out - ?ws" using hist by simp
  have lim: "?ws + length (blk_expand hist b) \<le> limit" "limit \<le> d_out_end st" "limit \<le> ?out + maxb" "?out \<le> limit"
    using fits ok(1) l ws by (auto simp: limit_def blk_ok_def)
  have "lz4_geom m (i + length (enc_block ss ls)) i limit ?ws ?out"
    by (rule dec_geom_lz4 [OF g]) (use lim ok h Comp in \<open>auto simp: blk_ok_def\<close>)
  then obtain m' where "decompress_block i (i + length (enc_block ss ls)) ?out limit ?ws m =
      Some (m', Some (?ws + length (expand hist ss ls)))"
    "bytes_at m' ?ws (length (expand hist ss ls)) = expand hist ss ls"
    "only_within m m' ?out (limit + 8)"
    using decompress_block_enc [of m i ss ls limit ?ws ?out] h ok(1) hist Comp lim
    by (auto simp: blk_ok_def LZCOMMON_BLOCK_def)
  moreover from this(3) have "only_within m m' ?out (d_out_end st + 8)"
    using lim by (auto simp: only_within_def)
  ultimately show ?thesis
    using Comp by auto
qed


lemma lz4_decode_block_enc:
  assumes g: "dec_geom m e i (d_out_end st) (d_window_start st) (d_out st)"
    and h: "mem_holds m i (enc_blk b)" "i + length (enc_blk b) \<le> e"
    and hist: "hist = bytes_at m (d_window_start st) (d_out st - d_window_start st)"
    and ok: "blk_ok (max_block_size st) hist b" "max_block_size st < 2 ^ 31"
    and fits: "d_window_start st + length (blk_expand hist b) \<le> d_out_end st"
    and fl: "l_flags st AND FBCHECKSUM = 0"
  shows "\<exists>m'. lz4_decode_block st i e m = Some (NUM_DECODE_STATUS + length (enc_blk b),
      after_blk st (d_window_start st + length (blk_expand hist b)), m') \<and>
    bytes_at m' (d_window_start st) (length (blk_expand hist b)) = blk_expand hist b \<and>
    only_within m m' (d_out st) (d_out_end st + 8)"
proof -
  let ?n = "length (blk_data b)"
  let ?w = "le_word (enc_le32 (blk_flag b + ?n)) :: u32"
  have n: "?n \<le> max_block_size st" "0 < ?n" "?n < 2 ^ 31" "i + 4 + ?n \<le> e"
    using ok h by (auto simp: blk_ok_def enc_blk_def)
  note f = blk_size_field [OF n(3)]
  have ws: "d_window_start st \<le> d_out st" using g by (simp add: dec_geom_def)
  have sp: "d_out st + ?n \<le> d_out_end st"
    using ok(1) fits hist ws by (auto simp: blk_ok_def)
  have ld: "load_le 4 m i = Some ?w"
    by (rule load_le_holds) (use h in \<open>simp_all add: enc_blk_def\<close>)
  have g4: "dec_geom m e (i + 4) (d_out_end st) (d_window_start st) (d_out st)"
    by (rule dec_geom_step [OF g only_within_refl]) (use n g in \<open>auto simp: dec_geom_def\<close>)
  have h4: "mem_holds m (i + 4) (blk_data b)"
    using h(1) by (simp add: enc_blk_def)
  obtain m' where m': "bytes_at m' (d_window_start st) (length (blk_expand hist b)) = blk_expand hist b"
    "only_within m m' (d_out st) (d_out_end st + 8)" and c: "(case b of
       Raw bs \<Rightarrow> lzcommon_literal_copy (d_out st) (i + 4) (length bs) m = Some m'
     | Comp ss ls \<Rightarrow> decompress_block (i + 4) (i + 4 + ?n) (d_out st)
         (if d_out_end st < d_out st + max_block_size st then d_out_end st
          else d_out st + max_block_size st) (d_window_start st) m =
         Some (m', Some (d_window_start st + length (blk_expand hist b))))"
    using blk_copy [OF g4 h4 n(4) hist ok fits] by blast
  have "lz4_decode_block st i e m = Some (NUM_DECODE_STATUS + (?n + 4),
      after_blk st (d_window_start st + length (blk_expand hist b)), m')"
  proof (cases b)
    case (Raw bs)
    then have "d_out st + ?n = d_window_start st + length (blk_expand hist b)"
      using hist ws by simp
    then show ?thesis
      using Raw c ld n sp f fl unfolding lz4_decode_block_def after_blk_def
      by (simp add: Let_def)
  next
    case (Comp ss ls)
    then show ?thesis
      using c ld n sp f(1,2) f(3) [OF Comp] fl unfolding lz4_decode_block_def after_blk_def
      by (simp add: Let_def)
  qed
  then show ?thesis
    using m' by (auto simp: enc_blk_def)
qed

lemma lz4_decode_block_end:
  assumes "mem_holds m i [0, 0, 0, 0]" "i + 4 \<le> e"
  shows "lz4_decode_block st i e m = Some (NUM_DECODE_STATUS + 4, st\<lparr>l_decode := Decode_Trailer\<rparr>, m)"
proof -
  have "load_le 4 m i = Some (0 :: u32)"
    using load_le_holds [OF assms(1), of 4, where 'a = 32] by (simp add: byte_simps)
  then show ?thesis
    using assms(2) by (simp add: lz4_decode_block_def)
qed

section \<open>Whole frames\<close>

text \<open>The output of the blocks of a frame after the history h; independent blocks start
  with an empty history.\<close>

fun frame_out :: "bool \<Rightarrow> u8 list \<Rightarrow> lz4_blk list \<Rightarrow> u8 list" where
  "frame_out indep h [] = []"
| "frame_out indep h (b # bs) =
     drop (length h) (blk_expand h b) @ frame_out indep (if indep then [] else blk_expand h b) bs"

fun frame_ok :: "nat \<Rightarrow> bool \<Rightarrow> u8 list \<Rightarrow> lz4_blk list \<Rightarrow> bool" where
  "frame_ok maxb indep h [] \<longleftrightarrow> True"
| "frame_ok maxb indep h (b # bs) \<longleftrightarrow>
     blk_ok maxb h b \<and> frame_ok maxb indep (if indep then [] else blk_expand h b) bs"

definition enc_body :: "lz4_blk list \<Rightarrow> u8 list \<Rightarrow> u8 list" where
  "enc_body bs tail = concat (map enc_blk bs) @ [0, 0, 0, 0] @ tail"

definition enc_frame :: "u8 \<Rightarrow> u8 \<Rightarrow> u64 \<Rightarrow> u8 \<Rightarrow> lz4_blk list \<Rightarrow> u8 list \<Rightarrow> u8 list" where
  "enc_frame flags bd csize hc bs tail =
     [4, 34, 77, 24, flags, bd] @ (if flags AND FCSIZE \<noteq> 0 then le_bytes 8 csize else []) @ [hc] @
     enc_body bs tail"

lemma blk_expand_length: "length h \<le> length (blk_expand h b)"
  by (cases b) (simp_all add: expand_length)

text \<open>
  A decode loop without input management, as in sramstage/embedded\_dramstage.c: the
  result must be a consumed size, and decoding ends when the decode pointer is null.
\<close>

partial_function (option) decode_all :: "lz4_dec_state \<Rightarrow> nat \<Rightarrow> nat \<Rightarrow> mem \<Rightarrow> (lz4_dec_state \<times> mem) option" where
  [code]: "decode_all st p e m =
    (if l_decode st = Decode_Null then Some (st, m)
     else do {
       (res, st, m) \<leftarrow> lz4_decode st p e m;
       if \<not> res \<ge> NUM_DECODE_STATUS then None
       else decode_all st (p + (res - NUM_DECODE_STATUS)) e m
     })"

lemma decode_all_body:
  assumes "dec_geom m e i (d_out_end st) (d_window_start st) (d_out st)" "l_decode st = Decode_Block"
    "mem_holds m i (enc_body bs tail)" "e = i + length (enc_body bs tail)"
    "l_flags st AND FBCHECKSUM = 0" "length tail = (if l_flags st AND FCCHECKSUM \<noteq> 0 then 4 else 0)"
    "hist = bytes_at m (d_window_start st) (d_out st - d_window_start st)"
    "frame_ok (max_block_size st) (l_flags st AND FBINDEP \<noteq> 0) hist bs" "max_block_size st < 2 ^ 31"
    "d_out st + length (frame_out (l_flags st AND FBINDEP \<noteq> 0) hist bs) \<le> d_out_end st"
  shows "\<exists>st' m'. decode_all st i e m = Some (st', m') \<and>
    d_out st' = d_out st + length (frame_out (l_flags st AND FBINDEP \<noteq> 0) hist bs) \<and>
    bytes_at m' (d_out st) (length (frame_out (l_flags st AND FBINDEP \<noteq> 0) hist bs)) =
      frame_out (l_flags st AND FBINDEP \<noteq> 0) hist bs \<and>
    only_within m m' (d_out st) (d_out_end st + 8)"
  using assms
proof (induction bs arbitrary: m i st hist)
  case Nil
  let ?st = "st\<lparr>l_decode := Decode_Trailer\<rparr>"
  have "lz4_decode st i e m = Some (NUM_DECODE_STATUS + 4, ?st, m)"
    using lz4_decode_block_end [of m i e st] Nil by (simp add: lz4_decode_def enc_body_def)
  moreover have "\<exists>n. lz4_decode ?st (i + 4) e m = Some (NUM_DECODE_STATUS + n, ?st\<lparr>l_decode := Decode_Null\<rparr>, m)"
    using Nil by (auto simp: lz4_decode_def lz4_decode_trailer_def enc_body_def Let_def)
  ultimately have "decode_all st i e m = Some (?st\<lparr>l_decode := Decode_Null\<rparr>, m)"
    using Nil(2) by (auto simp: decode_all.simps [of st] decode_all.simps [of ?st]
        decode_all.simps [of "st\<lparr>l_decode := Decode_Null\<rparr>"])
  then show ?case by simp
next
  case (Cons b bs)
  let ?indep = "l_flags st AND FBINDEP \<noteq> 0" and ?ws = "d_window_start st"
  let ?ex = "blk_expand hist b"
  let ?hist' = "if ?indep then [] else ?ex"
  define out' where "out' = ?ws + length ?ex"
  define new where "new = drop (length hist) ?ex"
  define rest where "rest = frame_out ?indep ?hist' bs"
  have out: "frame_out ?indep hist (b # bs) = new @ rest"
    by (simp add: new_def rest_def)
  have ws: "?ws \<le> d_out st" and lh: "length hist = d_out st - ?ws"
    using Cons(2,8) by (simp_all add: dec_geom_def)
  have ex: "length hist \<le> length ?ex" by (rule blk_expand_length)
  have o': "out' = d_out st + length new" "out' \<le> d_out_end st"
    using ex lh ws Cons(11) by (auto simp: out'_def new_def out)
  have h: "mem_holds m i (enc_blk b)" "mem_holds m (i + length (enc_blk b)) (enc_body bs tail)"
    "e = i + length (enc_blk b) + length (enc_body bs tail)"
    using Cons(4,5) by (simp_all add: enc_body_def add.assoc)
  obtain m1 where m1: "lz4_decode_block st i e m =
      Some (NUM_DECODE_STATUS + length (enc_blk b), after_blk st out', m1)"
    "bytes_at m1 ?ws (length ?ex) = ?ex" "only_within m m1 (d_out st) (d_out_end st + 8)"
    using lz4_decode_block_enc [OF Cons(2) h(1) _ Cons(8) _ Cons(10) _ Cons(6)] Cons(9) h(3) o'(2)
    by (auto simp: out'_def)
  let ?st = "after_blk st out'"
  have g1: "dec_geom m1 e (i + length (enc_blk b)) (d_out_end ?st) (d_window_start ?st) (d_out ?st)"
    unfolding after_blk_def
    by simp (rule conjI; rule impI; rule dec_geom_step [OF Cons(2) m1(3)];
      use h(3) o' ws in \<open>simp add: out'_def\<close>)
  have "mem_holds m1 (i + length (enc_blk b)) (enc_body bs tail)"
    using h(2,3) Cons(2) mem_holds_only_within [OF m1(3), of "i + length (enc_blk b)" "enc_body bs tail"]
    by (auto simp: dec_geom_def LZCOMMON_BLOCK_def)
  moreover have "?hist' = bytes_at m1 (d_window_start ?st) (d_out ?st - d_window_start ?st)"
    using m1(2) by (simp add: after_blk_def out'_def)
  ultimately obtain st' m' where IH: "decode_all ?st (i + length (enc_blk b)) e m1 = Some (st', m')"
    "d_out st' = out' + length rest" "bytes_at m' out' (length rest) = rest"
    "only_within m1 m' out' (d_out_end st + 8)"
    using Cons.IH [OF g1, of ?hist'] Cons(3,6,7,9,10,11) h(3) o' out
    by (auto simp: after_blk_def rest_def)
  have "decode_all st i e m = decode_all ?st (i + length (enc_blk b)) e m1"
    using m1(1) Cons(3) by (subst decode_all.simps) (simp add: lz4_decode_def)
  moreover have "bytes_at m' (d_out st) (length new) = new"
  proof -
    have "bytes_at m' (d_out st) (length new) = bytes_at m1 (d_out st) (length new)"
      using only_within_bytes [OF IH(4)] o'(1) by simp
    also have "\<dots> = drop (length hist) (bytes_at m1 ?ws (length ?ex))"
      using ws lh by (simp add: drop_bytes_at new_def)
    finally show ?thesis by (simp add: m1(2) new_def)
  qed
  moreover have "only_within m m' (d_out st) (d_out_end st + 8)"
    using only_within_trans [OF m1(3) IH(4)] o'(1) by simp
  ultimately show ?case
    using IH o'(1) unfolding out by (simp add: bytes_at_append)
qed

text \<open>A frame header the decompressor accepts, without block checksums.\<close>

definition header_ok :: "u8 \<Rightarrow> u8 \<Rightarrow> bool" where
  "header_ok flags bd \<longleftrightarrow> drop_bit 6 flags = 1 \<and> flags AND FRESERVED = 0 \<and> flags AND FDICTID = 0 \<and>
     flags AND FBCHECKSUM = 0 \<and> bd AND 0x8f = 0 \<and> \<not> drop_bit 4 bd AND 7 < 4"

definition header_max_block :: "u8 \<Rightarrow> nat" where
  "header_max_block bd = 256 * 2 ^ (2 * unat (drop_bit 4 bd AND 7))"

definition header_len :: "u8 \<Rightarrow> nat" where
  "header_len flags = (if flags AND FCSIZE \<noteq> 0 then 15 else 7)"

lemma header_max_block_less: "header_max_block bd < 2 ^ 31"
proof -
  have "unat (drop_bit 4 bd AND 7) \<le> 7"
    using word_and_le1 [of "drop_bit 4 bd" 7] by (simp add: word_le_nat_alt)
  then have "(2 :: nat) ^ (2 * unat (drop_bit 4 bd AND 7)) \<le> 2 ^ 14"
    by (intro power_increasing) simp_all
  then show ?thesis
    by (simp add: header_max_block_def)
qed

lemma enc_frame_holds:
  assumes "mem_holds m i (enc_frame flags bd csize hc bs tail)"
  shows "mem_holds m i [4, 34, 77, 24]" "m (i + 4) = Some flags" "m (i + 5) = Some bd"
    "flags AND FCSIZE \<noteq> 0 \<Longrightarrow> mem_holds m (i + 6) (le_bytes 8 csize)"
    "mem_holds m (i + header_len flags) (enc_body bs tail)"
  using assms by (auto simp: enc_frame_def header_len_def numeral_eq_Suc)

lemma length_enc_frame: "length (enc_frame flags bd csize hc bs tail) = header_len flags + length (enc_body bs tail)"
  by (simp add: enc_frame_def header_len_def)

lemma lz4_probe_frame:
  assumes "mem_holds m i (enc_frame flags bd csize hc bs tail)" "header_ok flags bd" "i + header_len flags \<le> e"
  shows "lz4_probe m i e = Some (if flags AND FCSIZE \<noteq> 0 then (COMPR_PROBE_SIZE_KNOWN, Some csize)
    else (COMPR_PROBE_SIZE_UNKNOWN, None))"
proof -
  note h = enc_frame_holds [OF assms(1)]
  have "load_bytes m i 4 = Some [4, 34, 77, 24]"
    using mem_holds_mapped [OF h(1)] mem_holds_bytes_at [OF h(1)]
    by (simp add: load_bytes_def numeral_eq_Suc)
  moreover have "load_le 8 m (i + 6) = Some csize" if "flags AND FCSIZE \<noteq> 0"
    using load_le_holds [OF h(4) [OF that], of 8, where 'a = 64] by (simp add: le_word_le_bytes)
  moreover have "i + 7 \<le> e" "flags AND FCSIZE \<noteq> 0 \<longrightarrow> i + 15 \<le> e"
    using assms(3) by (auto simp: header_len_def split: if_splits)
  ultimately show ?thesis
    using assms(2) h(2,3) by (auto simp: lz4_probe_def load8_def header_ok_def Let_def)
qed

lemma lz4_init_frame:
  assumes "mem_holds m i (enc_frame flags bd csize hc bs tail)" "i + header_len flags \<le> e"
  shows "lz4_init st m i e = Some (i + header_len flags,
    st\<lparr>l_flags := flags, max_block_size := header_max_block bd, l_decode := Decode_Block\<rparr>)"
proof -
  have "i + 7 \<le> e"
    using assms(2) by (auto simp: header_len_def split: if_splits)
  then show ?thesis
    using enc_frame_holds(2,3) [OF assms(1)]
    by (simp add: lz4_init_def load8_def header_len_def header_max_block_def Let_def)
qed

end
