(* ===== verification/Decompress_Driver.thy ===== *)
theory Decompress_Driver
  imports Lz4_Frame
begin

text \<open>
  Decompression of payloads that arrive asynchronously: struct async\_transfer of
  include/async.h and the function decompress of dramstage/decompression.c, which probes
  the formats, initialises the matching decompressor and feeds it from the transfer.  The
  decompressor and the transfer are function arguments, as the code calls both through
  pointers; what the driver relies on is stated in the locales decompressor and transfer.
  The call to sched\_yield and the messages are not modelled.
\<close>

section \<open>Transfers\<close>

record async_buf =
  buf_start :: nat
  buf_end :: nat

type_synonym 'a pump_fn = "'a \<Rightarrow> mem \<Rightarrow> nat \<Rightarrow> nat \<Rightarrow> (async_buf \<times> 'a \<times> mem) option"

text \<open>A buffer whose end is below its start carries an error code.\<close>

definition buf_error :: "async_buf \<Rightarrow> bool" where
  "buf_error b \<longleftrightarrow> buf_end b < buf_start b"

definition buf_code :: "async_buf \<Rightarrow> nat" where
  "buf_code b = buf_start b - buf_end b"

definition buf_size :: "async_buf \<Rightarrow> nat" where
  "buf_size b = buf_end b - buf_start b"

definition async_pump_dummy :: "async_buf pump_fn" where
  "async_pump_dummy a m consume min_size =
    (let a = a\<lparr>buf_start := buf_start a + consume\<rparr> in Some (a, a, m))"

text \<open>Subtraction of size\_t values.\<close>

definition sub64 :: "nat \<Rightarrow> nat \<Rightarrow> nat" where
  "sub64 a b = (if b \<le> a then a - b else 2 ^ 64 + a - b)"

section \<open>The driver\<close>

type_synonym 'st decode_fn = "'st \<Rightarrow> nat \<Rightarrow> nat \<Rightarrow> mem \<Rightarrow> (nat \<times> 'st \<times> mem) option"

record 'st decomp =
  dc_probe :: "mem \<Rightarrow> nat \<Rightarrow> nat \<Rightarrow> (compr_probe_status \<times> u64 option) option"
  dc_init :: "'st \<Rightarrow> mem \<Rightarrow> nat \<Rightarrow> nat \<Rightarrow> (nat option \<times> 'st) option"
  dc_decode :: "'st decode_fn"
  dc_null :: "'st \<Rightarrow> bool"
  dc_set_out :: "nat \<Rightarrow> nat \<Rightarrow> 'st \<Rightarrow> 'st"
  dc_out :: "'st \<Rightarrow> nat"

text \<open>
  The decode loop.  A status that is neither a request for data nor above
  NUM\_DECODE\_STATUS is used as an index into the table of NUM\_DECODE\_STATUS messages;
  for NUM\_DECODE\_STATUS itself that access is outside the table.
\<close>

definition decode_step :: "'st decode_fn \<Rightarrow> ('st \<Rightarrow> bool) \<Rightarrow> 'a pump_fn \<Rightarrow> 'st \<times> 'a \<times> async_buf \<times> mem \<Rightarrow>
    ('st \<times> 'a \<times> async_buf \<times> mem + nat \<times> 'st \<times> 'a \<times> mem) option" where
  "decode_step decode is_null pump = (\<lambda>(st, a, buf, m).
    if is_null st then Some (Inr (iost_num IOST_OK, st, a, m))
    else if buf_start buf = 0 then Some (Inr (iost_num IOST_INVALID, st, a, m))
    else do {
      (res, st, m) \<leftarrow> decode st (buf_start buf) (buf_end buf) m;
      if res = DECODE_NEED_MORE_DATA then
        do {
          let min_size = buf_size buf + 1;
          (buf, a, m) \<leftarrow> pump a m 0 min_size;
          if buf_error buf then Some (Inr (buf_code buf, st, a, m))
          else if buf_size buf \<ge> min_size then Some (Inl (st, a, buf, m))
          else Some (Inr (iost_num IOST_INVALID, st, a, m))
        }
      else if res > NUM_DECODE_STATUS then
        do {
          let consume = res - NUM_DECODE_STATUS;
          (buf, a, m) \<leftarrow> pump a m consume (sub64 (buf_size buf) consume);
          if buf_error buf then Some (Inr (buf_code buf, st, a, m))
          else Some (Inl (st, a, buf, m))
        }
      else if res < NUM_DECODE_STATUS then Some (Inr (iost_num IOST_INVALID, st, a, m))
      else None
    })"

definition decode_loop :: "'st decode_fn \<Rightarrow> ('st \<Rightarrow> bool) \<Rightarrow> 'a pump_fn \<Rightarrow> 'st \<Rightarrow> 'a \<Rightarrow> async_buf \<Rightarrow> mem \<Rightarrow>
    (nat \<times> 'st \<times> 'a \<times> mem) option" where
  "decode_loop decode is_null pump st a buf m = iterate (decode_step decode is_null pump) (st, a, buf, m)"

text \<open>The probe loop for one format: pump until the probe can decide.\<close>

definition probe_step :: "(mem \<Rightarrow> nat \<Rightarrow> nat \<Rightarrow> (compr_probe_status \<times> u64 option) option) \<Rightarrow> 'a pump_fn \<Rightarrow>
    'a \<times> async_buf \<times> mem \<Rightarrow>
    ('a \<times> async_buf \<times> mem + (nat + compr_probe_status) \<times> 'a \<times> async_buf \<times> mem) option" where
  "probe_step probe pump = (\<lambda>(a, buf, m). do {
     (status, size) \<leftarrow> probe m (buf_start buf) (buf_end buf);
     if status = COMPR_PROBE_NOT_ENOUGH_DATA then
       do {
         (buf, a, m) \<leftarrow> pump a m 0 (buf_size buf + 1);
         if buf_error buf then Some (Inr (Inl (buf_code buf), a, buf, m))
         else Some (Inl (a, buf, m))
       }
     else Some (Inr (Inr status, a, buf, m))
   })"

definition probe_loop :: "(mem \<Rightarrow> nat \<Rightarrow> nat \<Rightarrow> (compr_probe_status \<times> u64 option) option) \<Rightarrow> 'a pump_fn \<Rightarrow>
    'a \<Rightarrow> async_buf \<Rightarrow> mem \<Rightarrow> ((nat + compr_probe_status) \<times> 'a \<times> async_buf \<times> mem) option" where
  "probe_loop probe pump a buf m = iterate (probe_step probe pump) (a, buf, m)"

text \<open>The body of the format loop after a successful probe.\<close>

definition run_format :: "'st decomp \<Rightarrow> 'a pump_fn \<Rightarrow> 'st \<Rightarrow> nat \<Rightarrow> nat \<Rightarrow> 'a \<Rightarrow> async_buf \<Rightarrow> mem \<Rightarrow>
    (nat \<times> nat \<times> 'a \<times> mem) option" where
  "run_format d pump st out out_end a buf m = do {
     (data, st) \<leftarrow> dc_init d st m (buf_start buf) (buf_end buf);
     data \<leftarrow> data;
     (buf, a, m) \<leftarrow> pump a m (data - buf_start buf) 0;
     if buf_error buf then Some (buf_code buf, out_end, a, m)
     else do {
       let st = dc_set_out d out out_end st;
       (code, st, a, m) \<leftarrow> decode_loop (dc_decode d) (dc_null d) pump st a buf m;
       Some (code, if code = iost_num IOST_OK then dc_out d st else out_end, a, m)
     }
   }"

fun try_formats :: "'st decomp list \<Rightarrow> 'a pump_fn \<Rightarrow> 'st \<Rightarrow> nat \<Rightarrow> nat \<Rightarrow> 'a \<Rightarrow> async_buf \<Rightarrow> mem \<Rightarrow>
    (nat \<times> nat \<times> 'a \<times> mem) option" where
  "try_formats [] pump st out out_end a buf m = Some (iost_num IOST_INVALID, out_end, a, m)"
| "try_formats (d # ds) pump st out out_end a buf m = do {
     (r, a, buf, m) \<leftarrow> probe_loop (dc_probe d) pump a buf m;
     case r of
       Inl code \<Rightarrow> Some (code, out_end, a, m)
     | Inr status \<Rightarrow>
         if probe_success status then run_format d pump st out out_end a buf m
         else try_formats ds pump st out out_end a buf m
   }"

definition decompress :: "'st decomp list \<Rightarrow> 'a pump_fn \<Rightarrow> 'st \<Rightarrow> nat \<Rightarrow> nat \<Rightarrow> 'a \<Rightarrow> mem \<Rightarrow>
    (nat \<times> nat \<times> 'a \<times> mem) option" where
  "decompress formats pump st out out_end a m = do {
     (buf, a, m) \<leftarrow> pump a m 0 1;
     if buf_error buf then Some (buf_code buf, out_end, a, m)
     else try_formats formats pump st out out_end a buf m
   }"

text \<open>The LZ4 entry of the format table.\<close>

definition lz4_decompressor :: "lz4_dec_state decomp" where
  "lz4_decompressor = \<lparr>
     dc_probe = lz4_probe,
     dc_init = (\<lambda>st m i e. map_option (\<lambda>(p, st). (Some p, st)) (lz4_init st m i e)),
     dc_decode = lz4_decode,
     dc_null = (\<lambda>st. l_decode st = Decode_Null),
     dc_set_out = (\<lambda>out out_end st. st\<lparr>d_window_start := out, d_out := out, d_out_end := out_end\<rparr>),
     dc_out = d_out\<rparr>"

section \<open>Interfaces\<close>

text \<open>
  What the driver relies on in a decompressor: a decode call in a sound layout returns,
  changes only the output area, keeps the output position inside it, consumes at least one
  byte and no more than it was given, and keeps its state well formed.
\<close>

locale decompressor =
  fixes decode :: "'st decode_fn"
    and is_null :: "'st \<Rightarrow> bool"
    and dstate :: "'st \<Rightarrow> unit decompressor_state_scheme"
    and wf :: "'st \<Rightarrow> bool"
  assumes decode_safe:
    "wf st \<Longrightarrow> \<not> is_null st \<Longrightarrow>
     dec_geom m e i (d_out_end (dstate st)) (d_window_start (dstate st)) (d_out (dstate st)) \<Longrightarrow>
     \<exists>res st' m'. decode st i e m = Some (res, st', m') \<and> wf st' \<and>
       only_within m m' (d_out (dstate st)) (d_out_end (dstate st) + LZCOMMON_BLOCK) \<and>
       d_window_start (dstate st) \<le> d_window_start (dstate st') \<and>
       d_window_start (dstate st') \<le> d_out (dstate st') \<and>
       d_out (dstate st) \<le> d_out (dstate st') \<and> d_out (dstate st') \<le> d_out_end (dstate st) \<and>
       d_out_end (dstate st') = d_out_end (dstate st) \<and>
       (res < NUM_DECODE_STATUS \<or> NUM_DECODE_STATUS < res \<and> i + (res - NUM_DECODE_STATUS) \<le> e)"

text \<open>
  What it relies on in a transfer whose buffer is the memory from lo to hi: a pump call
  either reports an error or drops the consumed bytes from the front and may append bytes
  at the end; it writes only to the part of the buffer not yet handed out.
\<close>

locale transfer =
  fixes pump :: "'a pump_fn"
    and tinv :: "'a \<Rightarrow> async_buf \<Rightarrow> bool"
    and lo hi :: nat
  assumes tinv_bounds: "tinv a b \<Longrightarrow> lo \<le> buf_start b \<and> buf_start b \<le> buf_end b \<and> buf_end b \<le> hi"
    and pump_total: "tinv a b \<Longrightarrow> mapped m lo (hi - lo) \<Longrightarrow> consume \<le> buf_size b \<Longrightarrow>
      \<exists>b' a' m'. pump a m consume n = Some (b', a', m')"
    and pump_writes: "tinv a b \<Longrightarrow> mapped m lo (hi - lo) \<Longrightarrow> consume \<le> buf_size b \<Longrightarrow>
      pump a m consume n = Some (b', a', m') \<Longrightarrow> only_within m m' (buf_end b) hi"
    and pump_buf: "tinv a b \<Longrightarrow> mapped m lo (hi - lo) \<Longrightarrow> consume \<le> buf_size b \<Longrightarrow>
      pump a m consume n = Some (b', a', m') \<Longrightarrow> \<not> buf_error b' \<Longrightarrow>
      tinv a' b' \<and> buf_start b' = buf_start b + consume \<and> buf_end b \<le> buf_end b'"

lemma buf_code_pos:
  "buf_error b \<Longrightarrow> buf_code b \<noteq> iost_num IOST_OK"
  by (simp add: buf_error_def buf_code_def)

text \<open>
  Both together: the decode loop returns on every input.  Its memory effects are confined to
  the output area and the transfer buffer, and it reports success only when the decompressor
  has finished.
\<close>

definition loop_result :: "nat \<Rightarrow> nat \<Rightarrow> nat \<Rightarrow> nat \<Rightarrow> mem \<Rightarrow> mem \<Rightarrow> bool" where
  "loop_result out oe fill hi m m' \<longleftrightarrow> dom m' = dom m \<and>
     (\<forall>x. (x < out \<or> oe + LZCOMMON_BLOCK \<le> x) \<and> (x < fill \<or> hi \<le> x) \<longrightarrow> m' x = m x)"

lemma loop_result_only_within:
  "loop_result out oe hi hi m m' \<longleftrightarrow> only_within m m' out (oe + LZCOMMON_BLOCK)"
  by (auto simp: loop_result_def only_within_def)

locale decode_driver = decompressor decode is_null dstate wf + transfer pump tinv lo hi
  for decode :: "'st decode_fn" and is_null dstate wf and pump :: "'a pump_fn" and tinv lo hi
begin

definition loop_inv :: "nat \<Rightarrow> nat \<Rightarrow> nat \<Rightarrow> nat \<Rightarrow> mem \<Rightarrow> 'st \<times> 'a \<times> async_buf \<times> mem \<Rightarrow> bool" where
  "loop_inv fill ws out oe m0 = (\<lambda>(st, a, buf, m). wf st \<and> tinv a buf \<and> fill \<le> buf_end buf \<and>
     loop_result out oe fill hi m0 m \<and>
     mapped m lo (hi + LZCOMMON_BLOCK - lo) \<and> mapped m ws (oe + LZCOMMON_BLOCK - ws) \<and>
     ws \<le> d_window_start (dstate st) \<and> d_window_start (dstate st) \<le> d_out (dstate st) \<and>
     out \<le> d_out (dstate st) \<and> d_out (dstate st) \<le> oe \<and> d_out_end (dstate st) = oe \<and>
     (hi \<le> ws \<or> oe + LZCOMMON_BLOCK \<le> lo))"

lemma loop_inv_geom:
  assumes "loop_inv fill ws out oe m0 (st, a, buf, m)"
  shows "dec_geom m (buf_end buf) (buf_start buf) (d_out_end (dstate st)) (d_window_start (dstate st))
    (d_out (dstate st))"
proof -
  have b: "lo \<le> buf_start buf" "buf_start buf \<le> buf_end buf" "buf_end buf \<le> hi"
    using assms tinv_bounds by (auto simp: loop_inv_def)
  have m: "mapped m lo (hi + 8 - lo)" "mapped m ws (oe + 8 - ws)"
    using assms by (auto simp: loop_inv_def LZCOMMON_BLOCK_def)
  have "mapped m (buf_start buf) (buf_end buf + 8 - buf_start buf)"
    by (rule mapped_sub [OF m(1)]) (use b in auto)
  moreover have "mapped m (d_window_start (dstate st)) (oe + 8 - d_window_start (dstate st))"
    by (rule mapped_sub [OF m(2)]) (use assms in \<open>auto simp: loop_inv_def\<close>)
  ultimately show ?thesis
    using assms b by (auto simp: loop_inv_def dec_geom_def LZCOMMON_BLOCK_def)
qed

lemma loop_inv_tinv:
  assumes "loop_inv fill ws out oe m0 (st, a, buf, m)"
  shows "tinv a buf" "mapped m lo (hi - lo)"
  using assms by (auto simp: loop_inv_def intro: mapped_sub)

lemma loop_inv_pump:
  assumes "loop_inv fill ws out oe m0 (st, a, buf, m)" "consume \<le> buf_size buf"
    "pump a m consume n = Some (buf', a', m')"
  shows "loop_result out oe fill hi m0 m'"
    "\<not> buf_error buf' \<Longrightarrow> loop_inv fill ws out oe m0 (st, a', buf', m')"
proof -
  have t: "tinv a buf" "mapped m lo (hi - lo)" by (rule loop_inv_tinv [OF assms(1)])+
  have w: "only_within m m' (buf_end buf) hi"
    by (rule pump_writes [OF t assms(2,3)])
  moreover have "fill \<le> buf_end buf"
    using assms(1) by (simp add: loop_inv_def)
  ultimately show r: "loop_result out oe fill hi m0 m'"
    using assms(1) by (auto simp: loop_inv_def loop_result_def only_within_def)
  assume "\<not> buf_error buf'"
  then have "tinv a' buf'" "buf_end buf \<le> buf_end buf'"
    using pump_buf [OF t assms(2,3)] by auto
  then show "loop_inv fill ws out oe m0 (st, a', buf', m')"
    using assms(1) r only_within_mapped [OF w] by (auto simp: loop_inv_def)
qed

lemma loop_inv_decode:
  assumes i: "loop_inv fill ws out oe m0 (st, a, buf, m)" and "\<not> is_null st"
  shows "\<exists>res st' m'. decode st (buf_start buf) (buf_end buf) m = Some (res, st', m') \<and>
    loop_inv fill ws out oe m0 (st', a, buf, m') \<and>
    (res < NUM_DECODE_STATUS \<or> NUM_DECODE_STATUS < res \<and> res - NUM_DECODE_STATUS \<le> buf_size buf)"
proof -
  have "wf st" using i by (simp add: loop_inv_def)
  from decode_safe [OF this assms(2) loop_inv_geom [OF i]]
  obtain res st' m' where d: "decode st (buf_start buf) (buf_end buf) m = Some (res, st', m')" "wf st'"
    "only_within m m' (d_out (dstate st)) (d_out_end (dstate st) + LZCOMMON_BLOCK)"
    "d_window_start (dstate st) \<le> d_window_start (dstate st')"
    "d_window_start (dstate st') \<le> d_out (dstate st')"
    "d_out (dstate st) \<le> d_out (dstate st')" "d_out (dstate st') \<le> d_out_end (dstate st)"
    "d_out_end (dstate st') = d_out_end (dstate st)"
    and r: "res < NUM_DECODE_STATUS \<or>
      NUM_DECODE_STATUS < res \<and> buf_start buf + (res - NUM_DECODE_STATUS) \<le> buf_end buf"
    by blast
  have "loop_result out oe fill hi m0 m'"
    using i d(3) by (auto simp: loop_inv_def loop_result_def only_within_def)
  then have "loop_inv fill ws out oe m0 (st', a, buf, m')"
    using i d only_within_mapped [OF d(3)] by (auto simp: loop_inv_def)
  with d(1) r show ?thesis
    by (auto simp: buf_size_def)
qed

lemma pump_step:
  assumes i: "loop_inv fill ws out oe m0 (st, a, buf, m)" "consume \<le> buf_size buf"
    "pump a m consume n = Some (buf', a', m')"
  shows "if buf_error buf' then loop_result out oe fill hi m0 m'
    else loop_inv fill ws out oe m0 (st, a', buf', m') \<and> loop_result out oe fill hi m0 m' \<and>
      buf_start buf' = buf_start buf + consume \<and> buf_end buf \<le> buf_end buf' \<and>
      buf_start buf' \<le> buf_end buf' \<and> buf_end buf' \<le> hi"
proof -
  have t: "tinv a buf" "mapped m lo (hi - lo)" by (rule loop_inv_tinv [OF i(1)])+
  show ?thesis
    using loop_inv_pump [OF assms] pump_buf [OF t assms(2,3)] tinv_bounds [of a' buf'] by auto
qed

lemma decode_step_cases:
  assumes i: "loop_inv fill ws out oe m0 (st, a, buf, m)"
  shows "(\<exists>st' a' buf' m'. decode_step decode is_null pump (st, a, buf, m) = Some (Inl (st', a', buf', m')) \<and>
      loop_inv fill ws out oe m0 (st', a', buf', m') \<and>
      hi - buf_start buf' + (hi - buf_end buf') < hi - buf_start buf + (hi - buf_end buf)) \<or>
    (\<exists>code st' a' m'. decode_step decode is_null pump (st, a, buf, m) = Some (Inr (code, st', a', m')) \<and>
      loop_result out oe fill hi m0 m' \<and> d_out (dstate st') \<le> oe \<and> out \<le> d_out (dstate st') \<and>
      (code = iost_num IOST_OK \<longrightarrow> is_null st'))"
proof (cases "is_null st \<or> buf_start buf = 0")
  case True
  then show ?thesis
    using i by (auto simp: decode_step_def loop_inv_def)
next
  case False
  then obtain res st1 m1 where d: "decode st (buf_start buf) (buf_end buf) m = Some (res, st1, m1)"
    and i1: "loop_inv fill ws out oe m0 (st1, a, buf, m1)"
    and r: "res < NUM_DECODE_STATUS \<or> NUM_DECODE_STATUS < res \<and> res - NUM_DECODE_STATUS \<le> buf_size buf"
    using loop_inv_decode [OF i] by blast
  have t: "tinv a buf" "mapped m1 lo (hi - lo)" by (rule loop_inv_tinv [OF i1])+
  have fin: "d_out (dstate st1) \<le> oe" "out \<le> d_out (dstate st1)" "loop_result out oe fill hi m0 m1"
    using i1 by (auto simp: loop_inv_def)
  consider (more) "res = DECODE_NEED_MORE_DATA" | (consume) "res > NUM_DECODE_STATUS" "res \<noteq> DECODE_NEED_MORE_DATA"
    | (fail) "res < NUM_DECODE_STATUS" "res \<noteq> DECODE_NEED_MORE_DATA" "\<not> res > NUM_DECODE_STATUS"
    using r by (cases "res = DECODE_NEED_MORE_DATA") auto
  then show ?thesis
  proof cases
    case more
    obtain buf2 a2 m2 where p: "pump a m1 0 (buf_size buf + 1) = Some (buf2, a2, m2)"
      using pump_total [OF t, of 0 "buf_size buf + 1"] by blast
    have "decode_step decode is_null pump (st, a, buf, m) =
        (if buf_error buf2 then Some (Inr (buf_code buf2, st1, a2, m2))
         else if buf_size buf2 \<ge> buf_size buf + 1 then Some (Inl (st1, a2, buf2, m2))
         else Some (Inr (iost_num IOST_INVALID, st1, a2, m2)))"
      using False d more p by (simp add: decode_step_def Let_def)
    then show ?thesis
      using pump_step [OF i1 _ p] fin buf_code_pos [of buf2]
      by (cases "buf_error buf2"; cases "buf_size buf2 \<ge> buf_size buf + 1") (auto simp: buf_size_def)
  next
    case consume
    define c where "c = res - NUM_DECODE_STATUS"
    have c: "c \<le> buf_size buf" "c > 0" using r consume by (auto simp: c_def)
    obtain buf2 a2 m2 where p: "pump a m1 c (sub64 (buf_size buf) c) = Some (buf2, a2, m2)"
      using pump_total [OF t c(1)] by blast
    have "decode_step decode is_null pump (st, a, buf, m) =
        (if buf_error buf2 then Some (Inr (buf_code buf2, st1, a2, m2)) else Some (Inl (st1, a2, buf2, m2)))"
      using False d consume p by (simp add: decode_step_def Let_def c_def)
    then show ?thesis
      using pump_step [OF i1 c(1) p] fin c(2) buf_code_pos [of buf2] by (cases "buf_error buf2") auto
  next
    case fail
    then show ?thesis
      using False d fin by (simp add: decode_step_def)
  qed
qed

lemma decode_loop_returns:
  assumes "loop_inv fill ws out oe m (st, a, buf, m)"
  shows "\<exists>code st' a' m'. decode_loop decode is_null pump st a buf m = Some (code, st', a', m') \<and>
    loop_result out oe fill hi m m' \<and> out \<le> d_out (dstate st') \<and> d_out (dstate st') \<le> oe \<and>
    (code = iost_num IOST_OK \<longrightarrow> is_null st')"
proof -
  let ?Q = "\<lambda>(code, st', a', m'). loop_result out oe fill hi m m' \<and> out \<le> d_out (dstate st') \<and>
    d_out (dstate st') \<le> oe \<and> (code = iost_num IOST_OK \<longrightarrow> is_null st')"
  have "\<exists>x. iterate (decode_step decode is_null pump) (st, a, buf, m) = Some x \<and> ?Q x"
  proof (rule iterate_total [where I = "loop_inv fill ws out oe m"
        and f = "\<lambda>(st, a, buf, m). hi - buf_start buf + (hi - buf_end buf)"])
    show "loop_inv fill ws out oe m (st, a, buf, m)" by (rule assms)
    fix s assume "loop_inv fill ws out oe m s"
    then show "(\<exists>s'. decode_step decode is_null pump s = Some (Inl s') \<and> loop_inv fill ws out oe m s' \<and>
        (case s' of (st, a, buf, m) \<Rightarrow> hi - buf_start buf + (hi - buf_end buf)) <
        (case s of (st, a, buf, m) \<Rightarrow> hi - buf_start buf + (hi - buf_end buf))) \<or>
      (\<exists>x. decode_step decode is_null pump s = Some (Inr x) \<and> ?Q x)"
    proof (cases s rule: prod_cases4)
      case (fields st1 a1 buf1 m1)
      from decode_step_cases [OF \<open>loop_inv fill ws out oe m s\<close> [unfolded fields]]
      show ?thesis
        unfolding fields by (elim disjE exE conjE) simp_all
    qed
  qed
  then show ?thesis
    by (auto simp: decode_loop_def)
qed

end

section \<open>The LZ4 decompressor and a transfer that is already complete\<close>

definition lz4_dstate :: "lz4_dec_state \<Rightarrow> unit decompressor_state_scheme" where
  "lz4_dstate st = \<lparr>d_window_start = d_window_start st, d_out = d_out st, d_out_end = d_out_end st\<rparr>"

text \<open>Frames with a content checksum and without block checksums, of any block size.\<close>

definition lz4_wf :: "lz4_dec_state \<Rightarrow> bool" where
  "lz4_wf st \<longleftrightarrow> l_flags st AND FBCHECKSUM = 0 \<and> l_flags st AND FCCHECKSUM \<noteq> 0 \<and> max_block_size st < 2 ^ 31"

definition lz4_null :: "lz4_dec_state \<Rightarrow> bool" where
  "lz4_null st \<longleftrightarrow> l_decode st = Decode_Null"

lemma lz4_block_payload:
  assumes g: "dec_geom m e i oe ws out" and "i + 4 + n \<le> e" "n \<le> mb" "0 < n" "mb < 2 ^ 31" "out + n \<le> oe"
    and lim: "lim = (if oe < out + mb then oe else out + mb)"
  shows "\<exists>m' r. decompress_block (i + 4) (i + 4 + n) out lim ws m = Some (m', r) \<and>
      only_within m m' out (oe + 8) \<and> (\<forall>out'. r = Some out' \<longrightarrow> out \<le> out' \<and> out' \<le> oe)"
    "\<exists>m'. lzcommon_literal_copy out (i + 4) n m = Some m' \<and> only_within m m' out (oe + 8)"
proof -
  have "out + n \<le> lim" "lim \<le> oe" "lim \<le> out + 2 ^ 31"
    using assms by auto
  then have "lz4_geom m (i + 4 + n) (i + 4) lim ws out"
    by (intro dec_geom_lz4 [OF g]) (use assms in auto)
  from decompress_block_safe [OF this] \<open>out + n \<le> lim\<close>
  obtain m' r where d: "decompress_block (i + 4) (i + 4 + n) out lim ws m = Some (m', r)"
    "only_within m m' out (lim + 8)" "\<forall>out'. r = Some out' \<longrightarrow> out \<le> out' \<and> out' \<le> lim"
    by auto
  have "only_within m m' out (oe + 8)"
    by (rule only_within_mono [OF d(2)]) (use \<open>lim \<le> oe\<close> in auto)
  moreover have "\<forall>out'. r = Some out' \<longrightarrow> out \<le> out' \<and> out' \<le> oe"
    using d(3) \<open>lim \<le> oe\<close> by auto
  ultimately show "\<exists>m' r. decompress_block (i + 4) (i + 4 + n) out lim ws m = Some (m', r) \<and>
      only_within m m' out (oe + 8) \<and> (\<forall>out'. r = Some out' \<longrightarrow> out \<le> out' \<and> out' \<le> oe)"
    using d(1) by blast
  have "lz4_geom m (i + 4 + n) (i + 4) (out + n) ws out"
    by (intro dec_geom_lz4 [OF g]) (use assms in auto)
  from lz4_literals [OF this, of "i + 4" n]
  obtain m' where "lzcommon_literal_copy out (i + 4) n m = Some m'" "only_within m m' out (out + n + 8)"
    by auto
  moreover have "only_within m m' out (oe + 8)"
    by (rule only_within_mono [OF \<open>only_within m m' out (out + n + 8)\<close>]) (use assms(6) in auto)
  ultimately show "\<exists>m'. lzcommon_literal_copy out (i + 4) n m = Some m' \<and> only_within m m' out (oe + 8)"
    by blast
qed

lemma clear_top_bit:
  fixes w :: u32
  assumes "w AND 0x80000000 = 0"
  shows "w AND 0x7fffffff = w"
proof -
  have m: "(0x7fffffff :: u32) = mask 31" "(0x80000000 :: u32) = 2 ^ 31"
    by (simp_all add: mask_eq_exp_minus_1)
  have "\<not> bit w 31"
    using assms and_exp_eq_0_iff_not_bit [of w 31] unfolding m(2) by blast
  show ?thesis
    unfolding m(1) take_bit_eq_mask [symmetric]
  proof (rule bit_word_eqI)
    fix n assume "n < LENGTH(32)"
    then show "bit (take_bit 31 w) n = bit w n"
      using \<open>\<not> bit w 31\<close> by (cases "n = 31") (auto simp: bit_take_bit_iff)
  qed
qed

text \<open>One decode call on arbitrary input.\<close>

lemma lz4_decode_block_safe:
  assumes g: "dec_geom m e i (d_out_end st) (d_window_start st) (d_out st)"
    and "l_flags st AND FBCHECKSUM = 0" "max_block_size st < 2 ^ 31"
  shows "\<exists>res st' m'. lz4_decode_block st i e m = Some (res, st', m') \<and>
    only_within m m' (d_out st) (d_out_end st + 8) \<and> d_window_start st \<le> d_window_start st' \<and>
    d_window_start st' \<le> d_out st' \<and> d_out st \<le> d_out st' \<and> d_out st' \<le> d_out_end st \<and>
    d_out_end st' = d_out_end st \<and> l_flags st' = l_flags st \<and> max_block_size st' = max_block_size st \<and>
    (res < NUM_DECODE_STATUS \<or> NUM_DECODE_STATUS < res \<and> i + (res - NUM_DECODE_STATUS) \<le> e)"
proof (cases "i + 4 \<le> e")
  case False
  then show ?thesis
    using g by (auto simp: lz4_decode_block_def dec_geom_def decode_status_defs)
next
  case True
  have "mapped m i 4"
    using g True by (auto simp: dec_geom_def LZCOMMON_BLOCK_def intro: mapped_sub)
  then obtain w where w: "load_le 4 m i = Some (w :: u32)"
    by (auto simp: load_le_def load_bytes_def)
  let ?n = "unat (w AND 0x7fffffff)"
  let ?lim = "if d_out_end st < d_out st + max_block_size st then d_out_end st else d_out st + max_block_size st"
  consider (short) "?n = 0 \<or> \<not> ?n \<le> max_block_size st \<or> e < i + 4 + ?n \<or> d_out_end st < d_out st + ?n"
    | (data) "0 < ?n" "?n \<le> max_block_size st" "i + 4 + ?n \<le> e" "d_out st + ?n \<le> d_out_end st"
    by linarith
  then show ?thesis
  proof cases
    case short
    then show ?thesis
      using g True w by (auto simp: lz4_decode_block_def dec_geom_def decode_status_defs Let_def)
  next
    case data
    note p = lz4_block_payload [OF g data(3,2,1) assms(3) data(4) refl]
    show ?thesis
    proof (cases "w AND 0x80000000 = 0")
      case True
      then have "unat w = ?n"
        by (simp add: clear_top_bit)
      with p(1) obtain m' r where d: "decompress_block (i + 4) (i + 4 + unat w) (d_out st) ?lim
          (d_window_start st) m = Some (m', r)" "only_within m m' (d_out st) (d_out_end st + 8)"
        "\<forall>out'. r = Some out' \<longrightarrow> d_out st \<le> out' \<and> out' \<le> d_out_end st"
        by auto
      then show ?thesis
        using data w g assms(2) True \<open>i + 4 \<le> e\<close> \<open>unat w = ?n\<close>
        by (cases r) (auto simp: lz4_decode_block_def dec_geom_def decode_status_defs Let_def)
    next
      case False
      then show ?thesis
        using p(2) data w g assms(2) \<open>i + 4 \<le> e\<close>
        by (auto simp: lz4_decode_block_def dec_geom_def decode_status_defs Let_def)
    qed
  qed
qed

interpretation lz4: decompressor lz4_decode lz4_null lz4_dstate lz4_wf
proof
  fix st m e i
  assume a: "lz4_wf st" "\<not> lz4_null st"
    "dec_geom m e i (d_out_end (lz4_dstate st)) (d_window_start (lz4_dstate st)) (d_out (lz4_dstate st))"
  then have g: "dec_geom m e i (d_out_end st) (d_window_start st) (d_out st)"
    by (simp add: lz4_dstate_def)
  show "\<exists>res st' m'. lz4_decode st i e m = Some (res, st', m') \<and> lz4_wf st' \<and>
       only_within m m' (d_out (lz4_dstate st)) (d_out_end (lz4_dstate st) + LZCOMMON_BLOCK) \<and>
       d_window_start (lz4_dstate st) \<le> d_window_start (lz4_dstate st') \<and>
       d_window_start (lz4_dstate st') \<le> d_out (lz4_dstate st') \<and>
       d_out (lz4_dstate st) \<le> d_out (lz4_dstate st') \<and> d_out (lz4_dstate st') \<le> d_out_end (lz4_dstate st) \<and>
       d_out_end (lz4_dstate st') = d_out_end (lz4_dstate st) \<and>
       (res < NUM_DECODE_STATUS \<or> NUM_DECODE_STATUS < res \<and> i + (res - NUM_DECODE_STATUS) \<le> e)"
  proof (cases "l_decode st")
    case Decode_Block
    then show ?thesis
      using lz4_decode_block_safe [OF g] a(1)
      by (fastforce simp: lz4_decode_def lz4_wf_def lz4_dstate_def LZCOMMON_BLOCK_def)
  next
    case Decode_Trailer
    then show ?thesis
      using g a(1) by (auto simp: lz4_decode_def lz4_decode_trailer_def lz4_wf_def lz4_dstate_def
          dec_geom_def decode_status_defs Let_def)
  qed (use a(2) in \<open>simp add: lz4_null_def\<close>)
qed

definition dummy_inv :: "nat \<Rightarrow> nat \<Rightarrow> async_buf \<Rightarrow> async_buf \<Rightarrow> bool" where
  "dummy_inv lo hi a b \<longleftrightarrow> a = b \<and> lo \<le> buf_start b \<and> buf_start b \<le> buf_end b \<and> buf_end b = hi"

interpretation dummy: transfer async_pump_dummy "dummy_inv lo hi" lo hi for lo hi
  by unfold_locales (auto simp: dummy_inv_def async_pump_dummy_def buf_size_def Let_def)

interpretation lz4_dummy: decode_driver lz4_decode lz4_null lz4_dstate lz4_wf
    async_pump_dummy "dummy_inv lo hi" lo hi for lo hi
  by unfold_locales

text \<open>
  With the whole payload in memory the driver's loop does what the plain loop does, for a
  frame with a content checksum.
\<close>

lemma lz4_decode_consumes:
  assumes "lz4_decode st i e m = Some (res, st', m')" "NUM_DECODE_STATUS \<le> res" "lz4_wf st" "i \<le> e"
  shows "NUM_DECODE_STATUS < res" "i + (res - NUM_DECODE_STATUS) \<le> e" "lz4_wf st'"
  using assms by (auto simp: lz4_decode_def lz4_decode_trailer_def lz4_decode_block_def lz4_wf_def Let_def
      decode_status_defs split: lz4_decode_ptr.splits if_splits bind_splits option.splits)

lemma decode_loop_unfold:
  "decode_loop decode is_null pump st a buf m = do {
     r \<leftarrow> decode_step decode is_null pump (st, a, buf, m);
     case r of Inl (st, a, buf, m) \<Rightarrow> decode_loop decode is_null pump st a buf m | Inr x \<Rightarrow> Some x
   }"
  unfolding decode_loop_def
  by (subst iterate.simps) (auto split: sum.splits bind_splits)

lemma decode_loop_dummy:
  assumes "decode_all st p e m = Some (st', m')" "lz4_wf st" "0 < p" "p \<le> e"
  shows "\<exists>a'. decode_loop lz4_decode lz4_null async_pump_dummy st \<lparr>buf_start = p, buf_end = e\<rparr>
    \<lparr>buf_start = p, buf_end = e\<rparr> m = Some (iost_num IOST_OK, st', a', m')"
proof -
  let ?P = "\<lambda>st p e m r. lz4_wf st \<longrightarrow> 0 < p \<longrightarrow> p \<le> e \<longrightarrow>
    (\<exists>a'. decode_loop lz4_decode lz4_null async_pump_dummy st \<lparr>buf_start = p, buf_end = e\<rparr>
    \<lparr>buf_start = p, buf_end = e\<rparr> m = Some (iost_num IOST_OK, fst r, a', snd r))"
  have "?P st p e m (st', m')"
  proof (rule decode_all.raw_induct [where P = ?P, OF _ assms(1)], intro impI)
    fix f st p e m r
    assume IH: "\<And>st p e m r. f st p e m = Some r \<Longrightarrow> ?P st p e m r"
      and body: "(if l_decode st = Decode_Null then Some (st, m)
        else lz4_decode st p e m \<bind> (\<lambda>(res, st, m). if \<not> NUM_DECODE_STATUS \<le> res then None
          else f st (p + (res - NUM_DECODE_STATUS)) e m)) = Some r"
      and st: "lz4_wf st" "0 < p" "p \<le> e"
    show "\<exists>a'. decode_loop lz4_decode lz4_null async_pump_dummy st \<lparr>buf_start = p, buf_end = e\<rparr>
        \<lparr>buf_start = p, buf_end = e\<rparr> m = Some (iost_num IOST_OK, fst r, a', snd r)"
    proof (cases "l_decode st = Decode_Null")
      case True
      then show ?thesis
        using body by (subst decode_loop_unfold) (auto simp: decode_step_def lz4_null_def)
    next
      case False
      then obtain res st1 m1 where d: "lz4_decode st p e m = Some (res, st1, m1)" "NUM_DECODE_STATUS \<le> res"
        "f st1 (p + (res - NUM_DECODE_STATUS)) e m1 = Some r"
        using body by (auto split: bind_splits if_splits)
      note c = lz4_decode_consumes [OF d(1,2) st(1,3)]
      have "decode_step lz4_decode lz4_null async_pump_dummy
          (st, \<lparr>buf_start = p, buf_end = e\<rparr>, \<lparr>buf_start = p, buf_end = e\<rparr>, m) =
          (let b = \<lparr>buf_start = p + (res - NUM_DECODE_STATUS), buf_end = e\<rparr> in Some (Inl (st1, b, b, m1)))"
        using False st(2) d(1) c(1,2)
        by (auto simp: decode_step_def lz4_null_def async_pump_dummy_def buf_error_def Let_def decode_status_defs)
      then show ?thesis
        using IH [OF d(3)] c st(2) by (subst decode_loop_unfold) (simp add: Let_def)
    qed
  qed
  with assms show ?thesis by simp
qed

text \<open>
  Without a content checksum the trailer call returns NUM\_DECODE\_STATUS, which the
  driver's loop takes for a failure and uses as an index of its message table.
\<close>

lemma lz4_decode_unchecked:
  assumes "lz4_decode st i e m = Some (res, st', m')" "NUM_DECODE_STATUS \<le> res" "i \<le> e"
    "l_flags st AND FBCHECKSUM = 0" "l_flags st AND FCCHECKSUM = 0"
  shows "l_flags st' = l_flags st" "res = NUM_DECODE_STATUS \<or>
    NUM_DECODE_STATUS < res \<and> i + (res - NUM_DECODE_STATUS) \<le> e \<and> l_decode st' \<noteq> Decode_Null"
  using assms by (auto simp: lz4_decode_def lz4_decode_trailer_def lz4_decode_block_def Let_def
      decode_status_defs split: lz4_decode_ptr.splits if_splits bind_splits option.splits)

lemma decode_loop_dummy_unchecked:
  assumes "decode_all st p e m = Some r" "l_decode st \<noteq> Decode_Null" "0 < p" "p \<le> e"
    "l_flags st AND FBCHECKSUM = 0" "l_flags st AND FCCHECKSUM = 0"
  shows "decode_loop lz4_decode lz4_null async_pump_dummy st \<lparr>buf_start = p, buf_end = e\<rparr>
    \<lparr>buf_start = p, buf_end = e\<rparr> m = None"
proof -
  let ?P = "\<lambda>st p e m r. l_decode st \<noteq> Decode_Null \<longrightarrow> 0 < p \<longrightarrow> p \<le> e \<longrightarrow>
    l_flags st AND FBCHECKSUM = 0 \<longrightarrow> l_flags st AND FCCHECKSUM = 0 \<longrightarrow>
    decode_loop lz4_decode lz4_null async_pump_dummy st \<lparr>buf_start = p, buf_end = e\<rparr>
    \<lparr>buf_start = p, buf_end = e\<rparr> m = None"
  have "?P st p e m r"
  proof (rule decode_all.raw_induct [where P = ?P, OF _ assms(1)], intro impI)
    fix f st p e m r
    assume IH: "\<And>st p e m r. f st p e m = Some r \<Longrightarrow> ?P st p e m r"
      and body: "(if l_decode st = Decode_Null then Some (st, m)
        else lz4_decode st p e m \<bind> (\<lambda>(res, st, m). if \<not> NUM_DECODE_STATUS \<le> res then None
          else f st (p + (res - NUM_DECODE_STATUS)) e m)) = Some r"
      and st: "l_decode st \<noteq> Decode_Null" "0 < p" "p \<le> e"
        "l_flags st AND FBCHECKSUM = 0" "l_flags st AND FCCHECKSUM = 0"
    obtain res st1 m1 where d: "lz4_decode st p e m = Some (res, st1, m1)" "NUM_DECODE_STATUS \<le> res"
      "f st1 (p + (res - NUM_DECODE_STATUS)) e m1 = Some r"
      using body st(1) by (auto split: bind_splits if_splits)
    note c = lz4_decode_unchecked [OF d(1,2) st(3-5)]
    have "decode_step lz4_decode lz4_null async_pump_dummy
        (st, \<lparr>buf_start = p, buf_end = e\<rparr>, \<lparr>buf_start = p, buf_end = e\<rparr>, m) =
        (if res = NUM_DECODE_STATUS then None
         else let b = \<lparr>buf_start = p + (res - NUM_DECODE_STATUS), buf_end = e\<rparr> in Some (Inl (st1, b, b, m1)))"
      using st d(1) c
      by (auto simp: decode_step_def lz4_null_def async_pump_dummy_def buf_error_def Let_def decode_status_defs)
    then show "decode_loop lz4_decode lz4_null async_pump_dummy st \<lparr>buf_start = p, buf_end = e\<rparr>
        \<lparr>buf_start = p, buf_end = e\<rparr> m = None"
      using IH [OF d(3)] c st by (subst decode_loop_unfold) (auto simp: Let_def)
  qed
  with assms show ?thesis by simp
qed

text \<open>The driver on a payload that begins with an accepted LZ4 header.\<close>

lemma decompress_lz4_header:
  assumes "mem_holds m start (enc_frame flags bd csize hc bs tail)" "header_ok flags bd"
    "e = start + length (enc_frame flags bd csize hc bs tail)"
  defines "p \<equiv> start + header_len flags"
  shows "decompress (lz4_decompressor # ds) async_pump_dummy st out out_end \<lparr>buf_start = start, buf_end = e\<rparr> m =
    do {
      (code, st, a, m) \<leftarrow> decode_loop lz4_decode lz4_null async_pump_dummy
        (st\<lparr>l_flags := flags, max_block_size := header_max_block bd, l_decode := Decode_Block,
          d_window_start := out, d_out := out, d_out_end := out_end\<rparr>)
        \<lparr>buf_start = p, buf_end = e\<rparr> \<lparr>buf_start = p, buf_end = e\<rparr> m;
      Some (code, if code = iost_num IOST_OK then d_out st else out_end, a, m)
    }"
proof -
  have e: "start \<le> e" "p \<le> e" "start + header_len flags \<le> e"
    using assms(3) by (simp_all add: p_def length_enc_frame)
  let ?b = "\<lparr>buf_start = start, buf_end = e\<rparr>"
  obtain status size where pr: "lz4_probe m start e = Some (status, size)" "probe_success status"
    "status \<noteq> COMPR_PROBE_NOT_ENOUGH_DATA"
    using lz4_probe_frame [OF assms(1,2) e(3)] by (auto split: if_splits)
  then have "probe_loop lz4_probe async_pump_dummy ?b ?b m = Some (Inr status, ?b, ?b, m)"
    by (simp add: probe_loop_def iterate.simps probe_step_def)
  then show ?thesis
    using pr e lz4_init_frame [OF assms(1) e(3), of st]
    by (simp add: decompress_def async_pump_dummy_def buf_error_def lz4_decompressor_def run_format_def
        Let_def lz4_null_def [abs_def] p_def cong: if_cong)
qed

text \<open>The plain loop on the body of such a frame.\<close>

lemma decode_all_payload:
  assumes holds: "mem_holds m start (enc_frame flags bd csize hc bs tail)"
    and hdr: "header_ok flags bd" "length tail = (if flags AND FCCHECKSUM \<noteq> 0 then 4 else 0)"
    and blocks: "frame_ok (header_max_block bd) (flags AND FBINDEP \<noteq> 0) [] bs"
    and fits: "out + length (frame_out (flags AND FBINDEP \<noteq> 0) [] bs) \<le> out_end"
    and e: "e = start + length (enc_frame flags bd csize hc bs tail)"
    and mapped: "mapped m start (e + LZCOMMON_BLOCK - start)" "mapped m out (out_end + LZCOMMON_BLOCK - out)"
    and disjoint: "e \<le> out \<or> out_end + LZCOMMON_BLOCK \<le> start"
  shows "\<exists>st' m'. decode_all (st\<lparr>l_flags := flags, max_block_size := header_max_block bd,
      l_decode := Decode_Block, d_window_start := out, d_out := out, d_out_end := out_end\<rparr>)
      (start + header_len flags) e m = Some (st', m') \<and>
    d_out st' = out + length (frame_out (flags AND FBINDEP \<noteq> 0) [] bs) \<and>
    bytes_at m' out (length (frame_out (flags AND FBINDEP \<noteq> 0) [] bs)) = frame_out (flags AND FBINDEP \<noteq> 0) [] bs \<and>
    only_within m m' out (out_end + LZCOMMON_BLOCK)"
proof -
  let ?p = "start + header_len flags"
  let ?st = "st\<lparr>l_flags := flags, max_block_size := header_max_block bd, l_decode := Decode_Block,
    d_window_start := out, d_out := out, d_out_end := out_end\<rparr>"
  have p: "e = ?p + length (enc_body bs tail)" "?p \<le> e"
    using e by (simp_all add: length_enc_frame)
  have "dec_geom m e start out_end out out"
    using mapped disjoint e fits by (auto simp: dec_geom_def)
  then have g: "dec_geom m e ?p out_end out out"
    by (rule dec_geom_step [OF _ only_within_refl]) (use p fits in auto)
  then show ?thesis
    using decode_all_body [of m e ?p ?st bs tail "[]"] p enc_frame_holds(5) [OF holds] hdr blocks fits
      header_max_block_less [of bd] by (simp add: header_ok_def LZCOMMON_BLOCK_def)
qed

text \<open>A frame of one stored block at address 16 in a memory of 1024 bytes.\<close>

definition payload_frame :: "u8 \<Rightarrow> u8 list \<Rightarrow> u8 list" where
  "payload_frame flags tail = enc_frame flags 0x40 0 0 [Raw [1, 2, 3]] tail"

definition payload_mem :: "u8 list \<Rightarrow> mem" where
  "payload_mem bs = (\<lambda>x. if 16 \<le> x \<and> x < 16 + length bs then Some (bs ! (x - 16))
     else if x < 1024 then Some 0 else None)"

definition lz4_state0 :: lz4_dec_state where
  "lz4_state0 = \<lparr>d_window_start = 0, d_out = 0, d_out_end = 0, l_decode = Decode_Null, max_block_size = 0, l_flags = 0\<rparr>"

lemma payload_mem_holds: "mem_holds (payload_mem bs) 16 bs"
  by (simp add: mem_holds_nth payload_mem_def)

lemma payload_mem_mapped: "a + n \<le> 1024 \<Longrightarrow> mapped (payload_mem bs) a n"
  by (auto simp: mapped_def payload_mem_def)

lemma payload_frame_ok:
  "header_ok 0x64 0x40" "0x64 AND FCCHECKSUM \<noteq> 0" "header_ok 0x60 0x40" "0x60 AND FCCHECKSUM = 0"
  "blk_ok (header_max_block 0x40) [] (Raw [1, 2, 3])" "frame_out b [] [Raw [1, 2, 3]] = [1, 2, 3]"
  "length (payload_frame 0x64 [0, 0, 0, 0]) = 22" "length (payload_frame 0x60 []) = 18"
proof -
  show "blk_ok (header_max_block 0x40) [] (Raw [1, 2, 3])"
    by (simp add: header_max_block_def blk_ok_def)
  show "frame_out b [] [Raw [1, 2, 3]] = [1, 2, 3]"
    by simp
  show "length (payload_frame 0x64 [0, 0, 0, 0]) = 22" "length (payload_frame 0x60 []) = 18"
    by (simp_all add: payload_frame_def length_enc_frame header_len_def FCSIZE_def enc_body_def enc_blk_def)
qed (code_simp+)

text \<open>C11: a payload that consists of a supported LZ4 frame with a content checksum is
  unpacked completely by the payload decompressor: it reports success, the destination
  holds the content of the frame, the reported end is the end of that content, and only
  the destination and its slack have changed.\<close>

theorem decompress_lz4_payload:
  assumes holds: "mem_holds m start (enc_frame flags bd csize hc bs tail)"
    and hdr: "header_ok flags bd" "flags AND FCCHECKSUM \<noteq> 0" "length tail = 4"
    and blocks: "frame_ok (header_max_block bd) (flags AND FBINDEP \<noteq> 0) [] bs"
    and fits: "out + length (frame_out (flags AND FBINDEP \<noteq> 0) [] bs) \<le> out_end"
    and e: "e = start + length (enc_frame flags bd csize hc bs tail)" "0 < start"
    and mapped: "mapped m start (e + LZCOMMON_BLOCK - start)" "mapped m out (out_end + LZCOMMON_BLOCK - out)"
    and disjoint: "e \<le> out \<or> out_end + LZCOMMON_BLOCK \<le> start"
  shows "\<exists>a' m'. decompress (lz4_decompressor # ds) async_pump_dummy st out out_end
      \<lparr>buf_start = start, buf_end = e\<rparr> m =
      Some (iost_num IOST_OK, out + length (frame_out (flags AND FBINDEP \<noteq> 0) [] bs), a', m') \<and>
    bytes_at m' out (length (frame_out (flags AND FBINDEP \<noteq> 0) [] bs)) = frame_out (flags AND FBINDEP \<noteq> 0) [] bs \<and>
    only_within m m' out (out_end + LZCOMMON_BLOCK)"
proof -
  let ?p = "start + header_len flags"
  let ?st = "st\<lparr>l_flags := flags, max_block_size := header_max_block bd, l_decode := Decode_Block,
    d_window_start := out, d_out := out, d_out_end := out_end\<rparr>"
  obtain st' m' where d: "decode_all ?st ?p e m = Some (st', m')"
    "d_out st' = out + length (frame_out (flags AND FBINDEP \<noteq> 0) [] bs)"
    "bytes_at m' out (length (frame_out (flags AND FBINDEP \<noteq> 0) [] bs)) = frame_out (flags AND FBINDEP \<noteq> 0) [] bs"
    "only_within m m' out (out_end + LZCOMMON_BLOCK)"
    using decode_all_payload [OF holds hdr(1) _ blocks fits e(1) mapped disjoint, of st] hdr(2,3) by auto
  have "lz4_wf ?st" "0 < ?p" "?p \<le> e"
    using hdr e header_max_block_less [of bd] by (simp_all add: lz4_wf_def header_ok_def length_enc_frame)
  from decode_loop_dummy [OF d(1) this] show ?thesis
    using d decompress_lz4_header [OF holds hdr(1) e(1), of ds st out out_end] by auto
qed

theorem decompress_lz4_payload_witness:
  "\<exists>a' m'. decompress [lz4_decompressor] async_pump_dummy lz4_state0 256 512 \<lparr>buf_start = 16, buf_end = 38\<rparr>
      (payload_mem (payload_frame 0x64 [0, 0, 0, 0])) = Some (iost_num IOST_OK, 259, a', m') \<and>
    bytes_at m' 256 3 = [1, 2, 3]"
proof -
  have "\<exists>a' m'. decompress [lz4_decompressor] async_pump_dummy lz4_state0 256 512 \<lparr>buf_start = 16, buf_end = 38\<rparr>
        (payload_mem (payload_frame 0x64 [0, 0, 0, 0])) =
        Some (iost_num IOST_OK, 256 + length (frame_out (0x64 AND FBINDEP \<noteq> 0) [] [Raw [1, 2, 3]]), a', m') \<and>
      bytes_at m' 256 (length (frame_out (0x64 AND FBINDEP \<noteq> 0) [] [Raw [1, 2, 3]])) =
        frame_out (0x64 AND FBINDEP \<noteq> 0) [] [Raw [1, 2, 3]] \<and>
      only_within (payload_mem (payload_frame 0x64 [0, 0, 0, 0])) m' 256 (512 + LZCOMMON_BLOCK)"
    by (rule decompress_lz4_payload [where csize = 0 and hc = 0 and bd = "0x40" and tail = "[0, 0, 0, 0]" and start = 16])
      (simp_all add: payload_frame_ok payload_frame_def [symmetric] payload_mem_mapped payload_mem_holds LZCOMMON_BLOCK_def)
  then show ?thesis
    by (auto simp: payload_frame_ok eval_nat_numeral)
qed

text \<open>C33: a valid LZ4 frame without a content checksum, which the format allows, never
  makes the payload decompressor report success: after the whole frame has been unpacked
  correctly, the final status is read as an index past the table of messages.\<close>

theorem decompress_lz4_unchecked:
  assumes holds: "mem_holds m start (enc_frame flags bd csize hc bs [])"
    and hdr: "header_ok flags bd" "flags AND FCCHECKSUM = 0"
    and blocks: "frame_ok (header_max_block bd) (flags AND FBINDEP \<noteq> 0) [] bs"
    and fits: "out + length (frame_out (flags AND FBINDEP \<noteq> 0) [] bs) \<le> out_end"
    and e: "e = start + length (enc_frame flags bd csize hc bs [])" "0 < start"
    and mapped: "mapped m start (e + LZCOMMON_BLOCK - start)" "mapped m out (out_end + LZCOMMON_BLOCK - out)"
    and disjoint: "e \<le> out \<or> out_end + LZCOMMON_BLOCK \<le> start"
  shows "decompress (lz4_decompressor # ds) async_pump_dummy st out out_end
      \<lparr>buf_start = start, buf_end = e\<rparr> m = None"
proof -
  let ?p = "start + header_len flags"
  let ?st = "st\<lparr>l_flags := flags, max_block_size := header_max_block bd, l_decode := Decode_Block,
    d_window_start := out, d_out := out, d_out_end := out_end\<rparr>"
  obtain r where d: "decode_all ?st ?p e m = Some r"
    using decode_all_payload [OF holds hdr(1) _ blocks fits e(1) mapped disjoint, of st] hdr(2) by auto
  have "0 < ?p" "?p \<le> e"
    using e by (simp_all add: length_enc_frame)
  then show ?thesis
    using decode_loop_dummy_unchecked [OF d] hdr decompress_lz4_header [OF holds hdr(1) e(1), of ds st out out_end]
    by (simp add: header_ok_def)
qed

theorem decompress_lz4_unchecked_witness:
  "decompress [lz4_decompressor] async_pump_dummy lz4_state0 256 512 \<lparr>buf_start = 16, buf_end = 34\<rparr>
    (payload_mem (payload_frame 0x60 [])) = None"
  by (rule decompress_lz4_unchecked [where csize = 0 and hc = 0 and bd = "0x40" and flags = "0x60" and start = 16
        and bs = "[Raw [1, 2, 3]]"])
    (simp_all add: payload_frame_ok payload_frame_def [symmetric] payload_mem_mapped payload_mem_holds
      LZCOMMON_BLOCK_def)



text \<open>C34: the payload decompressor does not notice the end of its input while probing: when
  a payload is too short to be recognised, the probe loop repeats the same step for ever
  and the decompressor never returns.\<close>

theorem decompress_truncated_stuck:
  assumes "start \<le> e" "e < start + 4"
  shows "probe_step lz4_probe async_pump_dummy (\<lparr>buf_start = start, buf_end = e\<rparr>, \<lparr>buf_start = start, buf_end = e\<rparr>, m) =
      Some (Inl (\<lparr>buf_start = start, buf_end = e\<rparr>, \<lparr>buf_start = start, buf_end = e\<rparr>, m)) \<and>
    decompress (lz4_decompressor # ds) async_pump_dummy st out out_end \<lparr>buf_start = start, buf_end = e\<rparr> m = None"
proof -
  let ?b = "\<lparr>buf_start = start, buf_end = e\<rparr>"
  have step: "probe_step lz4_probe async_pump_dummy (?b, ?b, m) = Some (Inl (?b, ?b, m))"
    using assms by (simp add: probe_step_def lz4_probe_def async_pump_dummy_def buf_error_def Let_def)
  have "False" if "iterate (probe_step lz4_probe async_pump_dummy) (?b, ?b, m) = Some x" for x
    by (rule iterate_partial [where I = "\<lambda>s. s = (?b, ?b, m)" and Q = "\<lambda>_. False", OF that])
      (use step in auto)
  then have "probe_loop lz4_probe async_pump_dummy ?b ?b m = None"
    unfolding probe_loop_def by (meson not_Some_eq)
  then show ?thesis
    using assms(1) step
    by (simp add: decompress_def async_pump_dummy_def buf_error_def lz4_decompressor_def Let_def)
qed

theorem decompress_truncated_stuck_witness:
  "decompress [lz4_decompressor] async_pump_dummy lz4_state0 256 512 \<lparr>buf_start = 16, buf_end = 18\<rparr>
    (payload_mem [4, 34]) = None"
  using decompress_truncated_stuck [of 16 18] by simp

end
