(* ===== verification/Sdhci.thy ===== *)
theory Sdhci
  imports Decompressor
begin

text \<open>
  Reads through the SDHCI controller (eMMC): the transfer object with its ADMA2 descriptor
  table, lib/sdhci.c from sdhci\_reset\_xfer on, and the interrupt handler and command
  submission of lib/sdhci\_common.c.  The controller and the medium are a parameter, the
  record sdhci\_hw; what the driver relies on is stated by sdhci\_hw\_ok.
  Addresses are 32-bit (phys\_addr\_t) and are kept as natural numbers.
\<close>

section \<open>Memory segments\<close>

text \<open>A list of segments that covers the addresses from a to b without gap, in order.\<close>

fun covers :: "(nat \<times> nat) list \<Rightarrow> nat \<Rightarrow> nat \<Rightarrow> bool" where
  "covers [] a b \<longleftrightarrow> a = b"
| "covers ((x, n) # ss) a b \<longleftrightarrow> x = a \<and> covers ss (a + n) b"

lemma covers_append: "covers (ss @ ts) a c \<longleftrightarrow> (\<exists>b. covers ss a b \<and> covers ts b c)"
  by (induction ss arbitrary: a) auto

lemma covers_snoc [simp]: "covers (ss @ [(x, n)]) a c \<longleftrightarrow> covers ss a x \<and> c = x + n"
  by (auto simp: covers_append)

text \<open>The bytes of a medium from a position on.\<close>

definition medium_bytes :: "(nat \<Rightarrow> u8) \<Rightarrow> nat \<Rightarrow> nat \<Rightarrow> u8 list" where
  "medium_bytes disk pos n = map (\<lambda>i. disk (pos + i)) [0..<n]"

lemma length_medium_bytes [simp]: "length (medium_bytes disk pos n) = n"
  by (simp add: medium_bytes_def)

lemma medium_bytes_append: "medium_bytes disk pos n @ medium_bytes disk (pos + n) k = medium_bytes disk pos (n + k)"
  by (rule nth_equalityI) (auto simp: medium_bytes_def nth_append)

section \<open>The transfer object\<close>

definition NUM_IOST :: nat where "NUM_IOST = 5"
definition SDHCI_CREATING :: nat where "SDHCI_CREATING = NUM_IOST"
definition SDHCI_SUBMITTED :: nat where "SDHCI_SUBMITTED = NUM_IOST + 1"

definition SDHCI_DESC_TRAN :: u32 where "SDHCI_DESC_TRAN = 32"
definition SDHCI_DESC_END :: u32 where "SDHCI_DESC_END = 2"
definition SDHCI_DESC_VALID :: u32 where "SDHCI_DESC_VALID = 1"

lemmas sdhci_status_defs = NUM_IOST_def SDHCI_CREATING_def SDHCI_SUBMITTED_def

text \<open>A descriptor is its command word and its address.\<close>

type_synonym adma2_desc = "u32 \<times> u32"

record sdhci_xfer =
  sx_status :: nat
  sx_desc8 :: "adma2_desc list"
  sx_desc_cap :: nat
  sx_desc_size :: nat
  sx_xfer_bytes :: nat

definition sdhci_reset_xfer :: "sdhci_xfer \<Rightarrow> (bool \<times> sdhci_xfer) option" where
  "sdhci_reset_xfer x =
    (if \<not> sx_status x < NUM_IOST then None
     else Some (True, x\<lparr>sx_status := SDHCI_CREATING, sx_desc_size := 0, sx_xfer_bytes := 0\<rparr>))"

text \<open>Storing a descriptor; outside the table the access faults.\<close>

definition set_desc :: "'a list \<Rightarrow> nat \<Rightarrow> 'a \<Rightarrow> 'a list option" where
  "set_desc ds i d = (if i < length ds then Some (ds[i := d]) else None)"

function sdhci_add_loop :: "sdhci_xfer \<Rightarrow> nat \<Rightarrow> nat \<Rightarrow> nat \<Rightarrow> (bool \<times> sdhci_xfer) option" where
  "sdhci_add_loop x buf bend sz =
    (if \<not> buf < bend then Some (True, x\<lparr>sx_desc_size := sz\<rparr>)
     else if sz \<ge> sx_desc_cap x then Some (False, x)
     else do {
       let (seg_size, buf', bytes) =
         (if bend - buf \<ge> 65536 then (0 :: u16, buf + 65536, 65536)
          else (of_nat (bend - buf), bend, bend - buf));
       let cmd = push_bit 16 (ucast seg_size) OR SDHCI_DESC_TRAN;
       let cmd = (if sz \<noteq> 0 then cmd OR SDHCI_DESC_VALID else cmd);
       ds \<leftarrow> set_desc (sx_desc8 x) sz (cmd, of_nat buf);
       sdhci_add_loop (x\<lparr>sx_desc8 := ds, sx_xfer_bytes := sx_xfer_bytes x + bytes\<rparr>) buf' bend (sz + 1)
     })"
  by pat_completeness auto
termination
  by (relation "measure (\<lambda>(x, buf, bend, sz). bend - buf)") (auto split: if_splits)

declare sdhci_add_loop.simps [simp del]

definition sdhci_add_phys_buffer :: "sdhci_xfer \<Rightarrow> nat \<Rightarrow> nat \<Rightarrow> (bool \<times> sdhci_xfer) option" where
  "sdhci_add_phys_buffer x buf bend =
    (if \<not> sx_status x = SDHCI_CREATING then None
     else if \<not> buf \<le> bend then None
     else if buf mod 4 \<noteq> 0 \<or> bend mod 4 \<noteq> 0 then Some (False, x)
     else sdhci_add_loop x buf bend (sx_desc_size x))"

section \<open>The controller\<close>

definition SDHCI_INT_XFER_COMPLETE :: u32 where "SDHCI_INT_XFER_COMPLETE = 2"

text \<open>
  The hardware: the outcome of the n-th wait for the command and data lines to become free,
  and a read, given its argument, its block count and its descriptor table: the interrupt
  status it ends with and the memory after the DMA.
\<close>

record sdhci_hw =
  hw_inhibit :: "nat \<Rightarrow> iost"
  hw_read :: "u32 \<Rightarrow> u32 \<Rightarrow> adma2_desc list \<Rightarrow> mem \<Rightarrow> u32 \<times> mem"

record sdhci_state =
  ss_int_st :: u32
  ss_active :: bool
  ss_block_count :: u16
  ss_arg2 :: u32
  ss_arg :: u32
  ss_waits :: nat
  ss_hw :: sdhci_hw

definition sdhci_submit_cmd :: "sdhci_state \<Rightarrow> u32 \<Rightarrow> iost \<times> sdhci_state" where
  "sdhci_submit_cmd st arg =
    (let res = (if drop_bit 16 (ss_int_st st) \<noteq> 0 then IOST_GLOBAL else hw_inhibit (ss_hw st) (ss_waits st));
         st = st\<lparr>ss_waits := ss_waits st + 1\<rparr>
     in if res \<noteq> IOST_OK then (res, st) else (IOST_OK, st\<lparr>ss_arg := arg\<rparr>))"

definition sdhci_start_xfer :: "sdhci_state \<Rightarrow> sdhci_xfer \<Rightarrow> u32 \<Rightarrow> (iost \<times> sdhci_state \<times> sdhci_xfer) option" where
  "sdhci_start_xfer st x addr =
    (if \<not> sx_status x = SDHCI_CREATING then None
     else if sx_desc_size x = 0 then Some (IOST_INVALID, st, x)
     else if \<not> sx_desc_size x \<le> length (sx_desc8 x) then None
     else do {
       let lst = sx_desc_size x - 1;
       let ds = (sx_desc8 x)[lst := (fst (sx_desc8 x ! lst) OR SDHCI_DESC_END, snd (sx_desc8 x ! lst))];
       let ds = ds[0 := (fst (ds ! 0) OR SDHCI_DESC_VALID, snd (ds ! 0))];
       let x = x\<lparr>sx_desc8 := ds, sx_status := SDHCI_SUBMITTED\<rparr>;
       if \<not> sx_xfer_bytes x mod 512 = 0 then None
       else if ss_active st then Some (IOST_TRANSIENT, st, x)
       else do {
         let st = st\<lparr>ss_active := True, ss_block_count := of_nat (sx_xfer_bytes x div 512),
           ss_arg2 := of_nat (sx_xfer_bytes x div 512)\<rparr>;
         let (res, st) = sdhci_submit_cmd st addr;
         Some (res, st, x)
       }
     })"

text \<open>The interrupt handler, for the interrupt status read from the controller.\<close>

definition sdhci_irq :: "u32 \<Rightarrow> sdhci_state \<Rightarrow> sdhci_xfer \<Rightarrow> sdhci_state \<times> sdhci_xfer" where
  "sdhci_irq int_st st x =
    (let int_st_old = ss_int_st st;
         st = st\<lparr>ss_int_st := int_st_old OR int_st\<rparr>
     in if (int_st AND SDHCI_INT_XFER_COMPLETE \<noteq> 0 \<or> drop_bit 16 int_st \<noteq> 0) \<and> ss_active st then
          (st\<lparr>ss_active := False\<rparr>,
           x\<lparr>sx_status := iost_num (if drop_bit 16 (int_st OR int_st_old) \<noteq> 0 then IOST_GLOBAL else IOST_OK)\<rparr>)
        else (st, x))"

text \<open>
  Waiting for a transfer: if it is still submitted the thread is parked until the interrupt
  handler has changed the status; a controller that does not complete the read leaves it
  waiting for ever.
\<close>

definition sdhci_wait_xfer :: "sdhci_state \<Rightarrow> sdhci_xfer \<Rightarrow> mem \<Rightarrow>
    (nat \<times> sdhci_state \<times> sdhci_xfer \<times> mem) option" where
  "sdhci_wait_xfer st x m =
    (if sx_status x < NUM_IOST then Some (sx_status x, st, x, m)
     else if \<not> sx_status x = SDHCI_SUBMITTED then None
     else do {
       let (int_st, m) = hw_read (ss_hw st) (ss_arg st) (ss_arg2 st) (take (sx_desc_size x) (sx_desc8 x)) m;
       let (st, x) = sdhci_irq int_st st x;
       if sx_status x < NUM_IOST then Some (sx_status x, st, x, m) else None
     })"

section \<open>The descriptor table covers the buffer\<close>

definition adma2_seg :: "adma2_desc \<Rightarrow> nat \<times> nat" where
  "adma2_seg d = (unat (snd d), let n = unat (drop_bit 16 (fst d)) in if n = 0 then 65536 else n)"

text \<open>The parts of a command word: the length above the flags.\<close>

lemma desc_cmd_parts:
  fixes flags :: u32
  assumes "take_bit 16 flags = flags"
  shows "drop_bit 16 (push_bit 16 (ucast (seg :: u16)) OR flags) = (ucast seg :: u32)"
    "take_bit 16 (push_bit 16 (ucast (seg :: u16)) OR flags) = flags"
proof -
  have f: "bit flags n \<Longrightarrow> n < 16" for n
    using assms by (metis bit_take_bit_iff)
  show "drop_bit 16 (push_bit 16 (ucast (seg :: u16)) OR flags) = (ucast seg :: u32)"
    by (rule bit_word_eqI) (use f in \<open>auto simp: bit_simps dest: bit_imp_le_length\<close>)
  show "take_bit 16 (push_bit 16 (ucast (seg :: u16)) OR flags) = flags"
    by (rule bit_word_eqI) (use f in \<open>auto simp: bit_simps\<close>)
qed

lemma unat_ucast_16_32: "unat (ucast (w :: u16) :: u32) = unat w"
  using unsigned_less [of w, where 'a = nat] by (simp add: unsigned_ucast_eq take_bit_nat_eq_self)

lemma seg_len: "0 < d \<Longrightarrow> d < 65536 \<Longrightarrow> (of_nat d :: u16) \<noteq> 0 \<and> unat (of_nat d :: u16) = d"
  by (auto simp: unat_of_nat word_of_nat_eq_0_iff dest: nat_dvd_not_less)

lemma adma2_seg_cmd:
  assumes "buf < 2 ^ 32" "take_bit 16 flags = flags"
  shows "adma2_seg (push_bit 16 (ucast (seg :: u16)) OR flags, of_nat buf) =
    (buf, if seg = 0 then 65536 else unat seg)"
  using assms unfolding adma2_seg_def
  by (simp add: desc_cmd_parts unat_of_nat unat_eq_zero unat_ucast_16_32 del: drop_bit_or)

text \<open>
  The flags of descriptor i of a table under construction: all but the first are marked
  valid, so that the controller cannot run into an unfinished table.
\<close>

definition building_flags :: "nat \<Rightarrow> u32" where
  "building_flags i = (if i = 0 then SDHCI_DESC_TRAN else SDHCI_DESC_TRAN OR SDHCI_DESC_VALID)"

lemma building_flags_low: "take_bit 16 (building_flags i) = building_flags i"
  by (simp add: building_flags_def SDHCI_DESC_TRAN_def SDHCI_DESC_VALID_def)

definition building :: "sdhci_xfer \<Rightarrow> nat \<Rightarrow> nat \<Rightarrow> nat \<Rightarrow> bool" where
  "building x n a b \<longleftrightarrow> sx_desc_cap x \<le> length (sx_desc8 x) \<and> n \<le> sx_desc_cap x \<and>
     covers (map adma2_seg (take n (sx_desc8 x))) a b \<and> a \<le> b \<and> sx_xfer_bytes x = b - a \<and>
     (\<forall>i < n. take_bit 16 (fst (sx_desc8 x ! i)) = building_flags i)"

lemma sdhci_add_loop_covers:
  assumes "building x n a buf" "buf \<le> e" "e < 2 ^ 32" "n + (e - buf + 65535) div 65536 \<le> sx_desc_cap x"
  shows "\<exists>x'. sdhci_add_loop x buf e n = Some (True, x') \<and> building x' (sx_desc_size x') a e \<and>
    sx_status x' = sx_status x \<and> sx_desc_cap x' = sx_desc_cap x \<and> n \<le> sx_desc_size x' \<and>
    (buf < e \<longrightarrow> n < sx_desc_size x')"
  using assms
proof (induction "e - buf" arbitrary: x buf n rule: less_induct)
  case less
  show ?case
  proof (cases "buf < e")
    case False
    then show ?thesis
      using less by (subst sdhci_add_loop.simps) (auto simp: building_def)
  next
    case True
    define seg where "seg = (if e - buf \<ge> 65536 then 0 else of_nat (e - buf) :: u16)"
    define len where "len = (if e - buf \<ge> 65536 then 65536 else e - buf)"
    define cmd where "cmd = push_bit 16 (ucast seg) OR building_flags n"
    define x1 where "x1 = x\<lparr>sx_desc8 := (sx_desc8 x)[n := (cmd, of_nat buf)], sx_xfer_bytes := sx_xfer_bytes x + len\<rparr>"
    have n: "n < sx_desc_cap x" "n < length (sx_desc8 x)"
      using less(2,5) True by (auto simp: building_def)
    have "(if seg = 0 then 65536 else unat seg) = len"
      using True seg_len [of "e - buf"] by (simp add: seg_def len_def del: of_nat_diff)
    then have sg: "adma2_seg (cmd, of_nat buf) = (buf, len)"
      using less(4) True unfolding cmd_def by (subst adma2_seg_cmd) (auto simp: building_flags_low)
    have fl: "take_bit 16 cmd = building_flags n"
      unfolding cmd_def by (rule desc_cmd_parts(2) [OF building_flags_low])
    have "building x1 (n + 1) a (buf + len)"
      using less(2) n sg fl
      by (auto simp: building_def x1_def take_Suc_conv_app_nth nth_list_update less_Suc_eq)
    moreover have "sdhci_add_loop x buf e n = sdhci_add_loop x1 (buf + len) e (n + 1)"
      using True n
      by (subst sdhci_add_loop.simps)
        (auto simp: set_desc_def x1_def cmd_def seg_def len_def building_flags_def Let_def or.assoc)
    moreover have "e - (buf + len) < e - buf" "buf + len \<le> e"
      "n + 1 + (e - (buf + len) + 65535) div 65536 \<le> sx_desc_cap x1"
      using True less(5) by (auto simp: len_def x1_def)
    ultimately show ?thesis
      using less(1) [of "buf + len" x1 "n + 1"] less(4) by (auto simp: x1_def)
  qed
qed

section \<open>A read\<close>

text \<open>
  A complete descriptor table for the memory from a to b: every descriptor is a valid
  transfer, the last one and no other ends the table, and the segments cover the range.
\<close>

definition adma2_table :: "adma2_desc list \<Rightarrow> nat \<Rightarrow> nat \<Rightarrow> bool" where
  "adma2_table ds a b \<longleftrightarrow> ds \<noteq> [] \<and> covers (map adma2_seg ds) a b \<and>
     (\<forall>i < length ds. take_bit 16 (fst (ds ! i)) =
        SDHCI_DESC_TRAN OR SDHCI_DESC_VALID OR (if i = length ds - 1 then SDHCI_DESC_END else 0))"

text \<open>
  What the driver relies on: a read with a complete table for n blocks of 512 bytes ends
  with an interrupt that reports completion or an error, writes only to the memory of the
  table, and without an error that memory holds the blocks from the argument on.
\<close>

definition sdhci_hw_ok :: "(nat \<Rightarrow> u8) \<Rightarrow> sdhci_hw \<Rightarrow> bool" where
  "sdhci_hw_ok disk hw \<longleftrightarrow> (\<forall>arg cnt ds m a b. adma2_table ds a b \<longrightarrow> b - a = 512 * unat cnt \<longrightarrow>
     mapped m a (b - a) \<longrightarrow>
     (let (int_st, m') = hw_read hw arg cnt ds m in
        only_within m m' a b \<and> (int_st AND SDHCI_INT_XFER_COMPLETE \<noteq> 0 \<or> drop_bit 16 int_st \<noteq> 0) \<and>
        (drop_bit 16 int_st = 0 \<longrightarrow> bytes_at m' a (b - a) = medium_bytes disk (512 * unat arg) (b - a))))"

lemma start_table:
  assumes "building x n a b" "n = sx_desc_size x" "0 < n"
  defines "ds1 \<equiv> (sx_desc8 x)[n - 1 := (fst (sx_desc8 x ! (n - 1)) OR SDHCI_DESC_END, snd (sx_desc8 x ! (n - 1)))]"
  shows "adma2_table (take n (ds1[0 := (fst (ds1 ! 0) OR SDHCI_DESC_VALID, snd (ds1 ! 0))])) a b"
proof -
  let ?ds = "sx_desc8 x" and ?ds2 = "ds1[0 := (fst (ds1 ! 0) OR SDHCI_DESC_VALID, snd (ds1 ! 0))]"
  have n: "n \<le> length ?ds" and l: "length ?ds2 = length ?ds"
    using assms(1) by (auto simp: building_def ds1_def)
  have nth: "?ds2 ! i = (fst (?ds ! i) OR (if i = n - 1 then SDHCI_DESC_END else 0) OR
      (if i = 0 then SDHCI_DESC_VALID else 0), snd (?ds ! i))" if "i < n" for i
  proof -
    have "?ds \<noteq> []" using that n by auto
    then show ?thesis
      using that n unfolding ds1_def by (auto simp: nth_list_update or.assoc)
  qed
  have seg: "adma2_seg (?ds2 ! i) = adma2_seg (?ds ! i)" if "i < n" for i
    unfolding nth [OF that] by (simp add: adma2_seg_def SDHCI_DESC_END_def SDHCI_DESC_VALID_def)
  have "map adma2_seg (take n ?ds2) = map adma2_seg (take n ?ds)"
    using n l seg by (auto intro!: nth_equalityI)
  moreover have "take_bit 16 (fst (?ds2 ! i)) =
      SDHCI_DESC_TRAN OR SDHCI_DESC_VALID OR (if i = n - 1 then SDHCI_DESC_END else 0)" if "i < n" for i
  proof -
    have "take_bit 16 (fst (?ds ! i)) = building_flags i"
      using assms(1) that by (simp add: building_def)
    then show ?thesis
      unfolding nth [OF that] by (simp add: building_flags_def SDHCI_DESC_END_def SDHCI_DESC_VALID_def SDHCI_DESC_TRAN_def)
  qed
  ultimately show ?thesis
    using assms(1,3) n l by (auto simp: adma2_table_def building_def)
qed

text \<open>The states between reads and during a read of the blocks from lba on into a to b.\<close>

definition sdhci_idle :: "(nat \<Rightarrow> u8) \<Rightarrow> sdhci_state \<Rightarrow> sdhci_xfer \<Rightarrow> bool" where
  "sdhci_idle disk st x \<longleftrightarrow> sx_status x = iost_num IOST_OK \<and> \<not> ss_active st \<and> sdhci_hw_ok disk (ss_hw st) \<and>
     sx_desc_cap x \<le> length (sx_desc8 x)"

definition sdhci_busy :: "(nat \<Rightarrow> u8) \<Rightarrow> sdhci_state \<Rightarrow> sdhci_xfer \<Rightarrow> nat \<Rightarrow> nat \<Rightarrow> nat \<Rightarrow> bool" where
  "sdhci_busy disk st x lba a b \<longleftrightarrow> sx_status x = SDHCI_SUBMITTED \<and> ss_active st \<and> sdhci_hw_ok disk (ss_hw st) \<and>
     sx_desc_cap x \<le> length (sx_desc8 x) \<and> adma2_table (take (sx_desc_size x) (sx_desc8 x)) a b \<and>
     unat (ss_arg st) = lba \<and> b - a = 512 * unat (ss_arg2 st)"

lemma sdhci_hw_okD:
  assumes "sdhci_hw_ok disk hw" "adma2_table ds a b" "b - a = 512 * unat cnt" "mapped m a (b - a)"
    "hw_read hw arg cnt ds m = (int_st, m')"
  shows "only_within m m' a b" "int_st AND SDHCI_INT_XFER_COMPLETE \<noteq> 0 \<or> drop_bit 16 int_st \<noteq> 0"
    "drop_bit 16 int_st = 0 \<longrightarrow> bytes_at m' a (b - a) = medium_bytes disk (512 * unat arg) (b - a)"
proof -
  have "case hw_read hw arg cnt ds m of (int_st, m') \<Rightarrow>
        only_within m m' a b \<and> (int_st AND SDHCI_INT_XFER_COMPLETE \<noteq> 0 \<or> drop_bit 16 int_st \<noteq> 0) \<and>
        (drop_bit 16 int_st = 0 \<longrightarrow> bytes_at m' a (b - a) = medium_bytes disk (512 * unat arg) (b - a))"
    by (rule assms(1) [unfolded sdhci_hw_ok_def Let_def, rule_format, OF assms(2-4)])
  with assms(5) show "only_within m m' a b" "int_st AND SDHCI_INT_XFER_COMPLETE \<noteq> 0 \<or> drop_bit 16 int_st \<noteq> 0"
    "drop_bit 16 int_st = 0 \<longrightarrow> bytes_at m' a (b - a) = medium_bytes disk (512 * unat arg) (b - a)"
    by simp_all
qed

lemma sdhci_submit_cmd_fields:
  assumes "sdhci_submit_cmd st arg = (r, st')"
  shows "ss_active st' = ss_active st" "ss_hw st' = ss_hw st" "ss_arg2 st' = ss_arg2 st"
    "r = IOST_OK \<Longrightarrow> ss_arg st' = arg"
  using assms by (auto simp: sdhci_submit_cmd_def Let_def split: if_splits)

lemma sdhci_launch:
  assumes "sdhci_idle disk st x" "a < b" "b < 2 ^ 32" "a mod 4 = 0" "(b - a) mod 512 = 0"
    "(b - a + 65535) div 65536 \<le> sx_desc_cap x"
  shows "\<exists>x1 x2 r st' x'. sdhci_reset_xfer x = Some (True, x1) \<and> sdhci_add_phys_buffer x1 a b = Some (True, x2) \<and>
    sdhci_start_xfer st x2 lba = Some (r, st', x') \<and> sx_desc_cap x' = sx_desc_cap x \<and>
    (r = IOST_OK \<longrightarrow> sdhci_busy disk st' x' (unat lba) a b)"
proof -
  let ?x1 = "x\<lparr>sx_status := SDHCI_CREATING, sx_desc_size := 0, sx_xfer_bytes := 0\<rparr>"
  have x1: "sdhci_reset_xfer x = Some (True, ?x1)"
    using assms(1) by (simp add: sdhci_idle_def sdhci_reset_xfer_def NUM_IOST_def)
  have "building ?x1 0 a a"
    using assms(1) by (simp add: building_def sdhci_idle_def)
  from sdhci_add_loop_covers [OF this, of b] assms
  obtain x2 where x2: "sdhci_add_loop ?x1 a b 0 = Some (True, x2)" "building x2 (sx_desc_size x2) a b"
    "sx_status x2 = SDHCI_CREATING" "sx_desc_cap x2 = sx_desc_cap x" "0 < sx_desc_size x2"
    by auto
  obtain k where "b - a = 512 * k"
    using assms(5) by auto
  then have "b = a + 4 * (128 * k)"
    using assms(2) by simp
  then have "b mod 4 = 0"
    using assms(4) by (simp only: mod_mult_self2)
  then have add: "sdhci_add_phys_buffer ?x1 a b = Some (True, x2)"
    using assms(2,4) x2(1) by (simp add: sdhci_add_phys_buffer_def)
  note tb = start_table [OF x2(2) refl x2(5)]
  have bytes: "sx_xfer_bytes x2 = b - a" and len: "sx_desc_size x2 \<le> length (sx_desc8 x2)"
    "sx_desc_cap x2 \<le> length (sx_desc8 x2)"
    using x2(2) by (auto simp: building_def)
  have cnt: "b - a = 512 * unat (of_nat ((b - a) div 512) :: u32)"
    using assms(3,5) by (auto simp: unat_of_nat)
  have na: "\<not> ss_active st" "sdhci_hw_ok disk (ss_hw st)"
    using assms(1) by (simp_all add: sdhci_idle_def)
  obtain r st' where sub: "sdhci_submit_cmd (st\<lparr>ss_active := True, ss_block_count := of_nat ((b - a) div 512),
      ss_arg2 := of_nat ((b - a) div 512)\<rparr>) lba = (r, st')"
    by fastforce
  obtain x' where st: "sdhci_start_xfer st x2 lba = Some (r, st', x')" "sx_desc_cap x' = sx_desc_cap x"
      "r = IOST_OK \<longrightarrow> sdhci_busy disk st' x' (unat lba) a b"
    using tb bytes len x2 na assms(5) cnt sub sdhci_submit_cmd_fields [OF sub]
    by (simp add: sdhci_start_xfer_def sdhci_busy_def Let_def)
  with x1 add show ?thesis by blast
qed

lemma sdhci_wait_idle: "sdhci_idle disk st x \<Longrightarrow> sdhci_wait_xfer st x m = Some (iost_num IOST_OK, st, x, m)"
  by (simp add: sdhci_wait_xfer_def sdhci_idle_def NUM_IOST_def)

lemma sdhci_wait_busy:
  assumes "sdhci_busy disk st x lba a b" "mapped m a (b - a)"
  shows "\<exists>r st' x' m'. sdhci_wait_xfer st x m = Some (iost_num r, st', x', m') \<and> only_within m m' a b \<and>
    sx_desc_cap x' = sx_desc_cap x \<and>
    (r = IOST_OK \<longrightarrow> sdhci_idle disk st' x' \<and> bytes_at m' a (b - a) = medium_bytes disk (512 * lba) (b - a))"
proof -
  obtain int_st m' where rd: "hw_read (ss_hw st) (ss_arg st) (ss_arg2 st) (take (sx_desc_size x) (sx_desc8 x)) m = (int_st, m')"
    by fastforce
  have b: "sx_status x = SDHCI_SUBMITTED" "ss_active st" "sdhci_hw_ok disk (ss_hw st)"
    "sx_desc_cap x \<le> length (sx_desc8 x)" "unat (ss_arg st) = lba"
    using assms(1) by (simp_all add: sdhci_busy_def)
  have hw: "only_within m m' a b" "int_st AND SDHCI_INT_XFER_COMPLETE \<noteq> 0 \<or> drop_bit 16 int_st \<noteq> 0"
    "drop_bit 16 int_st = 0 \<longrightarrow> bytes_at m' a (b - a) = medium_bytes disk (512 * lba) (b - a)"
    using sdhci_hw_okD [OF b(3) _ _ assms(2) rd] assms(1) by (simp_all add: sdhci_busy_def)
  define r where "r = (if drop_bit 16 (int_st OR ss_int_st st) \<noteq> 0 then IOST_GLOBAL else IOST_OK)"
  define st' where "st' = st\<lparr>ss_int_st := ss_int_st st OR int_st, ss_active := False\<rparr>"
  have "sdhci_irq int_st st x = (st', x\<lparr>sx_status := iost_num r\<rparr>)"
    using hw(2) b(2) by (simp add: sdhci_irq_def r_def st'_def Let_def)
  moreover have "iost_num r < NUM_IOST" by (simp add: NUM_IOST_def r_def)
  ultimately have "sdhci_wait_xfer st x m = Some (iost_num r, st', x\<lparr>sx_status := iost_num r\<rparr>, m')"
    using b(1) rd by (simp add: sdhci_wait_xfer_def sdhci_status_defs)
  moreover have "drop_bit 16 int_st = 0 \<and> sdhci_idle disk st' (x\<lparr>sx_status := iost_num r\<rparr>)" if "r = IOST_OK"
    using that b by (auto simp: r_def sdhci_idle_def st'_def or_eq_0_iff split: if_splits)
  moreover have "sx_desc_cap (x\<lparr>sx_status := iost_num r\<rparr>) = sx_desc_cap x" by simp
  ultimately show ?thesis
    using hw by blast
qed

end
