(* ===== verification/Dwmmc.thy ===== *)
theory Dwmmc
  imports Sdhci
begin

text \<open>
  Reads through the DesignWare MSHC controller (SD cards): the transfer object and its IDMAC
  descriptors, lib/dwmmc\_xfer.c, and the interrupt handler and command submission of
  lib/dwmmc\_common.c.  As for SDHCI the controller and the card are a parameter; the reset
  of the DMA engine and the registers without influence on the transfer are left out.
\<close>

section \<open>The transfer object\<close>

definition DWMMC_CREATING :: nat where "DWMMC_CREATING = NUM_IOST"
definition DWMMC_SUBMITTED :: nat where "DWMMC_SUBMITTED = NUM_IOST + 1"

lemmas dwmmc_status_defs = NUM_IOST_def DWMMC_CREATING_def DWMMC_SUBMITTED_def

definition DWMMC_DES_OWN :: u32 where "DWMMC_DES_OWN = 0x80000000"
definition DWMMC_DES_END_OF_RING :: u32 where "DWMMC_DES_END_OF_RING = 32"
definition DWMMC_DES_CHAIN_PTR :: u32 where "DWMMC_DES_CHAIN_PTR = 16"
definition DWMMC_DES_FIRST :: u32 where "DWMMC_DES_FIRST = 8"
definition DWMMC_DES_LAST :: u32 where "DWMMC_DES_LAST = 4"
definition DWMMC_DES_DISABLE_INTERRUPT :: u32 where "DWMMC_DES_DISABLE_INTERRUPT = 2"

lemmas dwmmc_des_defs = DWMMC_DES_OWN_def DWMMC_DES_END_OF_RING_def DWMMC_DES_CHAIN_PTR_def
  DWMMC_DES_FIRST_def DWMMC_DES_LAST_def DWMMC_DES_DISABLE_INTERRUPT_def

record idmac_desc =
  dd_control :: u32
  dd_sizes :: u32
  dd_ptr1 :: u32
  dd_ptr2 :: u32

record dwmmc_xfer =
  dx_status :: nat
  dx_always_use_chaining :: bool
  dx_second_buf :: bool
  dx_block_addr :: u32
  dx_desc_cap :: nat
  dx_desc_size :: nat
  dx_xfer_bytes :: nat
  dx_desc_ptr :: nat
  dx_desc :: "idmac_desc list"

text \<open>
  The loop that claims the transfer object: it goes on as long as the exchange succeeds and
  ends when it fails, the expected value then being the one found.
\<close>

definition claim_step :: "dwmmc_xfer \<times> nat \<Rightarrow> (dwmmc_xfer \<times> nat + bool \<times> dwmmc_xfer) option" where
  "claim_step = (\<lambda>(x, status).
    if status = DWMMC_SUBMITTED then Some (Inr (False, x))
    else if dx_status x = status then Some (Inl (x\<lparr>dx_status := DWMMC_CREATING\<rparr>, status))
    else Some (Inr (True, x)))"

definition dwmmc_start_request :: "dwmmc_xfer \<Rightarrow> u32 \<Rightarrow> (iost \<times> dwmmc_xfer) option" where
  "dwmmc_start_request x block_addr = do {
     (claimed, x) \<leftarrow> iterate claim_step (x, dx_status x);
     if \<not> claimed then Some (IOST_TRANSIENT, x)
     else Some (IOST_OK, x\<lparr>dx_block_addr := block_addr, dx_desc_size := 0, dx_xfer_bytes := 0, dx_second_buf := False\<rparr>)
   }"

text \<open>plat\_virt\_to\_phys\<close>

definition plat_virt_to_phys :: "nat \<Rightarrow> nat" where
  "plat_virt_to_phys p = (if p \<ge> 0xffe00000 then 0xffffffff else p)"

text \<open>One descriptor or half a descriptor for the next at most 4096 bytes.\<close>

definition dwmmc_add_part :: "dwmmc_xfer \<Rightarrow> nat \<Rightarrow> nat \<Rightarrow> dwmmc_xfer option" where
  "dwmmc_add_part x start sz =
    (let desc_idx = dx_desc_size x;
         flags = DWMMC_DES_DISABLE_INTERRUPT OR (if desc_idx \<noteq> 0 then DWMMC_DES_OWN else DWMMC_DES_FIRST)
     in if \<not> desc_idx < length (dx_desc x) then None
        else let desc = dx_desc x ! desc_idx in
          if dx_second_buf x then
            Some (x\<lparr>dx_desc := (dx_desc x)[desc_idx := desc\<lparr>dd_control := flags, dd_ptr2 := of_nat start,
                dd_sizes := dd_sizes desc OR push_bit 13 (of_nat sz)\<rparr>],
              dx_desc_size := desc_idx + 1, dx_second_buf := False\<rparr>)
          else if (dx_desc_ptr x + 16 * (desc_idx + 1)) mod 4096 = 0 \<or> dx_always_use_chaining x then
            Some (x\<lparr>dx_desc := (dx_desc x)[desc_idx := desc\<lparr>dd_ptr1 := of_nat start, dd_sizes := of_nat sz,
                dd_ptr2 := of_nat (plat_virt_to_phys (dx_desc_ptr x + 16 * desc_idx)),
                dd_control := flags OR DWMMC_DES_CHAIN_PTR\<rparr>],
              dx_desc_size := desc_idx + 1, dx_second_buf := False\<rparr>)
          else
            Some (x\<lparr>dx_desc := (dx_desc x)[desc_idx := desc\<lparr>dd_control := flags, dd_sizes := of_nat sz,
                dd_ptr1 := of_nat start\<rparr>],
              dx_second_buf := True\<rparr>))"

function dwmmc_add_loop :: "dwmmc_xfer \<Rightarrow> nat \<Rightarrow> nat \<Rightarrow> (bool \<times> dwmmc_xfer) option" where
  "dwmmc_add_loop x start e =
    (if start \<ge> e then Some (True, x)
     else if dx_desc_size x \<ge> dx_desc_cap x then Some (False, x)
     else do {
       let sz = (if e - start < 4096 then e - start else 4096);
       x \<leftarrow> dwmmc_add_part x start sz;
       dwmmc_add_loop (x\<lparr>dx_xfer_bytes := dx_xfer_bytes x + sz\<rparr>) (start + sz) e
     })"
  by pat_completeness auto
termination
  by (relation "measure (\<lambda>(x, start, e). e - start)") auto

declare dwmmc_add_loop.simps [simp del]

definition dwmmc_add_phys_buffer :: "dwmmc_xfer \<Rightarrow> nat \<Rightarrow> nat \<Rightarrow> (bool \<times> dwmmc_xfer) option" where
  "dwmmc_add_phys_buffer x start e =
    (if \<not> dx_status x = DWMMC_CREATING then None
     else if start mod 4 \<noteq> 0 \<or> e mod 4 \<noteq> 0 then Some (False, x)
     else dwmmc_add_loop x start e)"

section \<open>The controller\<close>

definition DWMMC_INT_DATA_NO_BUSY :: u32 where "DWMMC_INT_DATA_NO_BUSY = 0x10000"
definition DWMMC_INT_DATA_TRANSFER_OVER :: u32 where "DWMMC_INT_DATA_TRANSFER_OVER = 8"
definition DWMMC_INT_CMD_DONE :: u32 where "DWMMC_INT_CMD_DONE = 4"
definition DWMMC_ERROR_INT_MASK :: u32 where "DWMMC_ERROR_INT_MASK = 0xb8c2"
definition DWMMC_STATUS_DATA_SM_BUSY :: u32 where "DWMMC_STATUS_DATA_SM_BUSY = 0x400"
definition DWMMC_STATUS_DATA_BUSY :: u32 where "DWMMC_STATUS_DATA_BUSY = 0x200"
definition DWMMC_IDMAC_INTMASK_ABNORMAL :: u32 where "DWMMC_IDMAC_INTMASK_ABNORMAL = 0x214"
definition DWMMC_IDMAC_FSM_MASK :: u32 where "DWMMC_IDMAC_FSM_MASK = 0x1e000"
definition DWMMC_CMD_SYNC_DATA :: u32 where "DWMMC_CMD_SYNC_DATA = 0x2000"
definition DWMMC_CMD_DATA_EXPECTED :: u32 where "DWMMC_CMD_DATA_EXPECTED = 0x200"

text \<open>CMD18 with response R1, automatic stop and data, and the template START | USE\_HOLD\_REG.\<close>

definition read_cmd :: u32 where
  "read_cmd = 0xa0003352"

text \<open>
  The hardware: whether the n-th command is acknowledged in time, and a read, given the
  argument, the byte count and the descriptors: the values of RINTSTS, IDSTS and STATUS the
  last interrupt handler run sees, and the memory after the DMA.
\<close>

record dwmmc_hw =
  dw_ack :: "nat \<Rightarrow> bool"
  dw_read :: "u32 \<Rightarrow> nat \<Rightarrow> idmac_desc list \<Rightarrow> mem \<Rightarrow> (u32 \<times> u32 \<times> u32) \<times> mem"

record dwmmc_state =
  ds_int_st :: u32
  ds_idmac_st :: u32
  ds_active :: bool
  ds_bytcnt :: nat
  ds_cmdarg :: u32
  ds_cmds :: nat
  ds_hw :: dwmmc_hw

definition dwmmc_wait_cmd :: "dwmmc_state \<Rightarrow> u32 \<Rightarrow> iost \<times> dwmmc_state" where
  "dwmmc_wait_cmd st cmd =
    (let mask = (if cmd AND DWMMC_CMD_SYNC_DATA \<noteq> 0
           then DWMMC_INT_CMD_DONE OR DWMMC_INT_DATA_NO_BUSY OR DWMMC_INT_DATA_TRANSFER_OVER else DWMMC_INT_CMD_DONE);
         int_st = ds_int_st st
     in if int_st AND DWMMC_ERROR_INT_MASK \<noteq> 0 then (IOST_LOCAL, st)
        else if int_st AND mask \<noteq> mask then (IOST_TRANSIENT, st)
        else let cleared = int_st AND NOT (DWMMC_INT_DATA_NO_BUSY OR DWMMC_INT_CMD_DONE);
                 cleared = (if cmd AND DWMMC_CMD_DATA_EXPECTED \<noteq> 0
                   then cleared AND NOT DWMMC_INT_DATA_TRANSFER_OVER else cleared);
                 st = st\<lparr>ds_int_st := cleared, ds_cmds := ds_cmds st + 1\<rparr>
             in if dw_ack (ds_hw st) (ds_cmds st) then (IOST_OK, st) else (IOST_GLOBAL, st))"

definition dwmmc_start_xfer :: "dwmmc_state \<Rightarrow> dwmmc_xfer \<Rightarrow> (iost \<times> dwmmc_state \<times> dwmmc_xfer) option" where
  "dwmmc_start_xfer st x =
    (if dx_xfer_bytes x = 0 \<or> (dx_desc_size x = 0 \<and> \<not> dx_second_buf x) then Some (IOST_INVALID, st, x)
     else do {
       let lst = dx_desc_size x + (if dx_second_buf x then 1 else 0) - 1;
       if \<not> lst < length (dx_desc x) then None
       else do {
         let ds = (dx_desc x)[lst := (dx_desc x ! lst)\<lparr>dd_control :=
           (dd_control (dx_desc x ! lst) AND NOT DWMMC_DES_DISABLE_INTERRUPT) OR DWMMC_DES_LAST OR DWMMC_DES_END_OF_RING\<rparr>];
         let ds = ds[0 := (ds ! 0)\<lparr>dd_control := dd_control (ds ! 0) OR DWMMC_DES_OWN\<rparr>];
         if \<not> dx_status x = DWMMC_CREATING then None
         else if ds_active st then None
         else if \<not> dx_xfer_bytes x mod 512 = 0 then None
         else do {
           let x = x\<lparr>dx_desc := ds, dx_status := DWMMC_SUBMITTED\<rparr>;
           let st = st\<lparr>ds_active := True, ds_bytcnt := dx_xfer_bytes x, ds_cmdarg := dx_block_addr x\<rparr>;
           let (res, st) = dwmmc_wait_cmd st read_cmd;
           Some (res, st, x)
         }
       }
     })"

definition dwmmc_irq :: "u32 \<Rightarrow> u32 \<Rightarrow> u32 \<Rightarrow> dwmmc_state \<Rightarrow> dwmmc_xfer \<Rightarrow> dwmmc_state \<times> dwmmc_xfer" where
  "dwmmc_irq rintsts idmac_st status st x =
    (let rintsts = (if status AND (DWMMC_STATUS_DATA_BUSY OR DWMMC_STATUS_DATA_SM_BUSY) = 0
           then rintsts OR DWMMC_INT_DATA_NO_BUSY else rintsts);
         rintsts = rintsts OR ds_int_st st;
         idmac_st_acc = (ds_idmac_st st AND NOT DWMMC_IDMAC_FSM_MASK) OR idmac_st;
         st = st\<lparr>ds_int_st := rintsts, ds_idmac_st := idmac_st_acc\<rparr>;
         transfer_done = (drop_bit 13 idmac_st_acc AND 15 < 2 \<and> status AND DWMMC_STATUS_DATA_SM_BUSY = 0)
     in if (transfer_done \<or> rintsts AND DWMMC_ERROR_INT_MASK \<noteq> 0) \<and> ds_active st then
          (st\<lparr>ds_active := False\<rparr>,
           x\<lparr>dx_status := iost_num (if rintsts AND DWMMC_ERROR_INT_MASK \<noteq> 0 \<or>
             idmac_st_acc AND DWMMC_IDMAC_INTMASK_ABNORMAL \<noteq> 0 then IOST_GLOBAL else IOST_OK)\<rparr>)
        else (st, x))"

definition dwmmc_wait_xfer :: "dwmmc_state \<Rightarrow> dwmmc_xfer \<Rightarrow> mem \<Rightarrow>
    (nat \<times> dwmmc_state \<times> dwmmc_xfer \<times> mem) option" where
  "dwmmc_wait_xfer st x m =
    (if dx_status x < NUM_IOST then Some (dx_status x, st, x, m)
     else if \<not> dx_status x = DWMMC_SUBMITTED then None
     else do {
       let ((rintsts, idmac_st, status), m) = dw_read (ds_hw st) (ds_cmdarg st) (ds_bytcnt st)
         (take (dx_desc_size x + (if dx_second_buf x then 1 else 0)) (dx_desc x)) m;
       let (st, x) = dwmmc_irq rintsts idmac_st status st x;
       if dx_status x < NUM_IOST then Some (dx_status x, st, x, m) else None
     })"

section \<open>The descriptors cover the buffer\<close>

lemma dwmmc_start_request_ok:
  assumes "dx_status x < NUM_IOST"
  shows "dwmmc_start_request x lba = Some (IOST_OK, x\<lparr>dx_status := DWMMC_CREATING, dx_block_addr := lba,
    dx_desc_size := 0, dx_xfer_bytes := 0, dx_second_buf := False\<rparr>)"
  using assms by (simp add: dwmmc_start_request_def iterate.simps claim_step_def dwmmc_status_defs)

text \<open>Claiming an object that is already being set up never ends.\<close>

lemma dwmmc_start_request_stuck:
  assumes "dx_status x = DWMMC_CREATING"
  shows "dwmmc_start_request x lba = None"
proof -
  have "False" if "iterate claim_step (x, dx_status x) = Some y" for y
    by (rule iterate_partial [where I = "\<lambda>s. s = (x, DWMMC_CREATING)" and Q = "\<lambda>_. False", OF that])
      (use assms in \<open>auto simp: claim_step_def dwmmc_status_defs\<close>)
  then have "iterate claim_step (x, dx_status x) = None"
    by (meson not_Some_eq)
  then show ?thesis
    by (simp add: dwmmc_start_request_def)
qed

text \<open>The memory a descriptor describes: its first buffer and, unless it is chained or empty,
  its second buffer.\<close>

definition idmac_segs :: "idmac_desc \<Rightarrow> (nat \<times> nat) list" where
  "idmac_segs d = (unat (dd_ptr1 d), unat (take_bit 13 (dd_sizes d))) #
     (if dd_control d AND DWMMC_DES_CHAIN_PTR \<noteq> 0 \<or> take_bit 13 (drop_bit 13 (dd_sizes d)) = 0 then []
      else [(unat (dd_ptr2 d), unat (take_bit 13 (drop_bit 13 (dd_sizes d))))])"

definition idmac_flags :: "nat \<Rightarrow> u32" where
  "idmac_flags i = DWMMC_DES_DISABLE_INTERRUPT OR (if i \<noteq> 0 then DWMMC_DES_OWN else DWMMC_DES_FIRST)"

definition used_descs :: "dwmmc_xfer \<Rightarrow> nat" where
  "used_descs x = dx_desc_size x + (if dx_second_buf x then 1 else 0)"

lemma used_descs_cong: "used_descs (x\<lparr>dx_desc := ds, dx_status := s\<rparr>) = used_descs x"
  by (simp add: used_descs_def)

definition idmac_building :: "dwmmc_xfer \<Rightarrow> nat \<Rightarrow> nat \<Rightarrow> bool" where
  "idmac_building x a b \<longleftrightarrow> dx_desc_cap x \<le> length (dx_desc x) \<and> used_descs x \<le> dx_desc_cap x \<and>
     \<not> dx_always_use_chaining x \<and> dx_desc_ptr x mod 4096 = 0 \<and>
     covers (concat (map idmac_segs (take (used_descs x) (dx_desc x)))) a b \<and> a \<le> b \<and> dx_xfer_bytes x = b - a \<and>
     (\<forall>i < used_descs x. dd_control (dx_desc x ! i) = idmac_flags i) \<and>
     (dx_second_buf x \<longrightarrow> dd_sizes (dx_desc x ! dx_desc_size x) < 0x2000)"

lemma small_word13:
  fixes w :: u32
  assumes "w < 0x2000"
  shows "take_bit 13 w = w" "drop_bit 13 w = 0"
proof -
  have "unat w < 2 ^ 13"
    using assms by (simp add: word_less_nat_alt)
  then show "take_bit 13 w = w" "drop_bit 13 w = 0"
    by (simp_all add: take_bit_eq_mod drop_bit_eq_div word_arith_nat_mod word_arith_nat_div)
qed

lemma sizes_first:
  assumes "sz \<le> 4096"
  shows "take_bit 13 (of_nat sz :: u32) = of_nat sz" "unat (of_nat sz :: u32) = sz" "(of_nat sz :: u32) < 0x2000"
    "drop_bit 13 (of_nat sz :: u32) = 0"
proof -
  show u: "unat (of_nat sz :: u32) = sz"
    using assms by (simp add: unat_of_nat)
  then show l: "(of_nat sz :: u32) < 0x2000"
    using assms by (simp add: word_less_nat_alt)
  show "take_bit 13 (of_nat sz :: u32) = of_nat sz" "drop_bit 13 (of_nat sz :: u32) = 0"
    by (rule small_word13 [OF l])+
qed

lemma sizes_second:
  fixes s :: u32
  assumes "s < 0x2000" "sz \<le> 4096" "0 < sz"
  shows "take_bit 13 (s OR push_bit 13 (of_nat sz)) = s" "take_bit 13 (drop_bit 13 (s OR push_bit 13 (of_nat sz))) = of_nat sz"
    "(of_nat sz :: u32) \<noteq> 0" "take_bit 13 s = s" "drop_bit 13 s = 0"
proof -
  note s = small_word13 [OF assms(1)] and z = sizes_first [OF assms(2)]
  show "(of_nat sz :: u32) \<noteq> 0" using z(2) assms(3) by auto
  show "take_bit 13 s = s" "drop_bit 13 s = 0" by (rule s)+
  define w :: u32 where "w = of_nat sz"
  have b: "bit s n \<Longrightarrow> n < 13" "bit w n \<Longrightarrow> n < 13" for n
    using s(1) z(1) unfolding w_def by (metis bit_take_bit_iff)+
  show "take_bit 13 (s OR push_bit 13 (of_nat sz)) = s"
    by (rule bit_word_eqI) (use b in \<open>auto simp: bit_simps\<close>)
  have "drop_bit 13 (s OR push_bit 13 w) = w"
    by (rule bit_word_eqI) (use b in \<open>fastforce simp: bit_simps\<close>)
  then show "take_bit 13 (drop_bit 13 (s OR push_bit 13 (of_nat sz))) = of_nat sz"
    using z(1) unfolding w_def by simp
qed

lemma idmac_add_part:
  assumes "idmac_building x a start" "dx_desc_size x < dx_desc_cap x" "dx_desc_size x < 255"
    "0 < sz" "sz \<le> 4096" "start < 2 ^ 32"
  shows "\<exists>x'. dwmmc_add_part x start sz = Some x' \<and>
    idmac_building (x'\<lparr>dx_xfer_bytes := dx_xfer_bytes x' + sz\<rparr>) a (start + sz) \<and>
    dx_desc_cap x' = dx_desc_cap x \<and> dx_status x' = dx_status x \<and> dx_block_addr x' = dx_block_addr x \<and>
    2 * dx_desc_size x' + (if dx_second_buf x' then 1 else 0) = 2 * dx_desc_size x + (if dx_second_buf x then 1 else 0) + 1"
proof -
  let ?i = "dx_desc_size x"
  have st: "unat (of_nat start :: u32) = start"
    using assms(6) by (simp add: unat_of_nat)
  have i: "?i < length (dx_desc x)"
    using assms(1,2) by (simp add: idmac_building_def)
  have al: "(dx_desc_ptr x + 16 * (?i + 1)) mod 4096 \<noteq> 0" "\<not> dx_always_use_chaining x"
  proof -
    obtain k where "dx_desc_ptr x = 4096 * k"
      using assms(1) by (auto simp: idmac_building_def)
    then show "(dx_desc_ptr x + 16 * (?i + 1)) mod 4096 \<noteq> 0"
      using assms(3) by (simp add: mod_mult_self1)
    show "\<not> dx_always_use_chaining x" using assms(1) by (simp add: idmac_building_def)
  qed
  show ?thesis
  proof (cases "dx_second_buf x")
    case True
    let ?d = "dx_desc x ! ?i"
    let ?d' = "?d\<lparr>dd_control := idmac_flags ?i, dd_ptr2 := of_nat start, dd_sizes := dd_sizes ?d OR push_bit 13 (of_nat sz)\<rparr>"
    have d: "dd_sizes ?d < 0x2000" "dd_control ?d = idmac_flags ?i"
      using assms(1) True by (simp_all add: idmac_building_def used_descs_def)
    have nc: "idmac_flags ?i AND DWMMC_DES_CHAIN_PTR = 0"
      by (simp add: idmac_flags_def dwmmc_des_defs)
    have "idmac_segs ?d' = idmac_segs ?d @ [(start, sz)]"
      using sizes_second [OF d(1) assms(5,4)] sizes_first(2) [OF assms(5)] st nc d(2)
      by (simp add: idmac_segs_def)
    then show ?thesis
      using assms(1) True i
      by (auto simp: dwmmc_add_part_def Let_def idmac_building_def used_descs_def idmac_flags_def
          take_Suc_conv_app_nth nth_list_update less_Suc_eq covers_append)
  next
    case False
    let ?d' = "(dx_desc x ! ?i)\<lparr>dd_control := idmac_flags ?i, dd_sizes := of_nat sz, dd_ptr1 := of_nat start\<rparr>"
    have "idmac_segs ?d' = [(start, sz)]"
      using sizes_first [OF assms(5)] st by (simp add: idmac_segs_def)
    then show ?thesis
      using assms(1) False i al sizes_first(3) [OF assms(5)] assms(2)
      by (auto simp: dwmmc_add_part_def Let_def idmac_building_def used_descs_def idmac_flags_def
          take_Suc_conv_app_nth nth_list_update less_Suc_eq covers_append)
  qed
qed

lemma dwmmc_add_loop_covers:
  assumes "idmac_building x a start" "start \<le> e" "e < 2 ^ 32"
    "2 * dx_desc_size x + (if dx_second_buf x then 1 else 0) + (e - start + 4095) div 4096 \<le> 2 * dx_desc_cap x"
    "2 * dx_desc_size x + (if dx_second_buf x then 1 else 0) + (e - start + 4095) div 4096 \<le> 510"
  shows "\<exists>x'. dwmmc_add_loop x start e = Some (True, x') \<and> idmac_building x' a e \<and>
    dx_status x' = dx_status x \<and> dx_desc_cap x' = dx_desc_cap x \<and> dx_block_addr x' = dx_block_addr x"
  using assms
proof (induction "e - start" arbitrary: x start rule: less_induct)
  case less
  show ?case
  proof (cases "start < e")
    case False
    then show ?thesis
      using less by (subst dwmmc_add_loop.simps) auto
  next
    case True
    define sz where "sz = (if e - start < 4096 then e - start else 4096)"
    have sz: "0 < sz" "sz \<le> 4096" "start + sz \<le> e" "e - (start + sz) < e - start"
      "(e - (start + sz) + 4095) div 4096 + 1 \<le> (e - start + 4095) div 4096"
      using True by (auto simp: sz_def)
    have d: "dx_desc_size x < dx_desc_cap x" "dx_desc_size x < 255"
      using less(5,6) sz(5) by (auto split: if_splits)
    obtain x1 where x1: "dwmmc_add_part x start sz = Some x1"
      "idmac_building (x1\<lparr>dx_xfer_bytes := dx_xfer_bytes x1 + sz\<rparr>) a (start + sz)"
      "dx_desc_cap x1 = dx_desc_cap x" "dx_status x1 = dx_status x" "dx_block_addr x1 = dx_block_addr x"
      "2 * dx_desc_size x1 + (if dx_second_buf x1 then 1 else 0) = 2 * dx_desc_size x + (if dx_second_buf x then 1 else 0) + 1"
      using idmac_add_part [OF less(2) d sz(1,2)] True less(4) by auto
    have "dwmmc_add_loop x start e = dwmmc_add_loop (x1\<lparr>dx_xfer_bytes := dx_xfer_bytes x1 + sz\<rparr>) (start + sz) e"
      using True d(1) x1(1) by (subst dwmmc_add_loop.simps) (simp add: sz_def)
    then show ?thesis
      using less(1) [OF sz(4) x1(2) sz(3) less(4)] less(5,6) sz(5) x1(3-6) by auto
  qed
qed

section \<open>A read\<close>

definition idmac_table :: "idmac_desc list \<Rightarrow> nat \<Rightarrow> nat \<Rightarrow> bool" where
  "idmac_table ds a b \<longleftrightarrow> ds \<noteq> [] \<and> covers (concat (map idmac_segs ds)) a b \<and>
     (\<forall>i < length ds. dd_control (ds ! i) = DWMMC_DES_OWN OR (if i = 0 then DWMMC_DES_FIRST else 0) OR
        (if i = length ds - 1 then DWMMC_DES_LAST OR DWMMC_DES_END_OF_RING else DWMMC_DES_DISABLE_INTERRUPT))"

text \<open>
  What the driver relies on: a read with a complete table ends with the data path idle or an
  error reported, writes only to the memory of the table, and without an error that memory
  holds the blocks from the argument on.
\<close>

definition dwmmc_hw_ok :: "(nat \<Rightarrow> u8) \<Rightarrow> dwmmc_hw \<Rightarrow> bool" where
  "dwmmc_hw_ok disk hw \<longleftrightarrow> (\<forall>arg ds m a b. idmac_table ds a b \<longrightarrow> mapped m a (b - a) \<longrightarrow>
     (case dw_read hw arg (b - a) ds m of ((rintsts, idmac_st, status), m') \<Rightarrow>
        only_within m m' a b \<and>
        (drop_bit 13 idmac_st AND 15 < 2 \<and> status AND DWMMC_STATUS_DATA_SM_BUSY = 0 \<or>
         rintsts AND DWMMC_ERROR_INT_MASK \<noteq> 0) \<and>
        (rintsts AND DWMMC_ERROR_INT_MASK = 0 \<longrightarrow> idmac_st AND DWMMC_IDMAC_INTMASK_ABNORMAL = 0 \<longrightarrow>
         bytes_at m' a (b - a) = medium_bytes disk (512 * unat arg) (b - a))))"

lemma dwmmc_hw_okD:
  assumes "dwmmc_hw_ok disk hw" "idmac_table ds a b" "mapped m a (b - a)"
    "dw_read hw arg (b - a) ds m = ((rintsts, idmac_st, status), m')"
  shows "only_within m m' a b" "drop_bit 13 idmac_st AND 15 < 2 \<and> status AND DWMMC_STATUS_DATA_SM_BUSY = 0 \<or>
      rintsts AND DWMMC_ERROR_INT_MASK \<noteq> 0"
    "rintsts AND DWMMC_ERROR_INT_MASK = 0 \<Longrightarrow> idmac_st AND DWMMC_IDMAC_INTMASK_ABNORMAL = 0 \<Longrightarrow>
      bytes_at m' a (b - a) = medium_bytes disk (512 * unat arg) (b - a)"
  using assms(1) [unfolded dwmmc_hw_ok_def, rule_format, OF assms(2,3), of arg] assms(4) by auto

lemma idmac_start_table:
  assumes "idmac_building x a b" "n = used_descs x" "0 < n"
  defines "ds1 \<equiv> (dx_desc x)[n - 1 := (dx_desc x ! (n - 1))\<lparr>dd_control :=
    (dd_control (dx_desc x ! (n - 1)) AND NOT DWMMC_DES_DISABLE_INTERRUPT) OR DWMMC_DES_LAST OR DWMMC_DES_END_OF_RING\<rparr>]"
  shows "idmac_table (take n (ds1[0 := (ds1 ! 0)\<lparr>dd_control := dd_control (ds1 ! 0) OR DWMMC_DES_OWN\<rparr>])) a b"
proof -
  let ?ds = "dx_desc x" and ?ds2 = "ds1[0 := (ds1 ! 0)\<lparr>dd_control := dd_control (ds1 ! 0) OR DWMMC_DES_OWN\<rparr>]"
  have n: "n \<le> length ?ds" and l: "length ?ds2 = length ?ds"
    using assms(1,2) by (auto simp: idmac_building_def ds1_def)
  have ctl: "dd_control (?ds ! i) = idmac_flags i" if "i < n" for i
    using assms(1,2) that by (simp add: idmac_building_def)
  have nth: "\<exists>c. ?ds2 ! i = (?ds ! i)\<lparr>dd_control := c\<rparr> \<and> c AND DWMMC_DES_CHAIN_PTR = 0 \<and>
      c = DWMMC_DES_OWN OR (if i = 0 then DWMMC_DES_FIRST else 0) OR
        (if i = n - 1 then DWMMC_DES_LAST OR DWMMC_DES_END_OF_RING else DWMMC_DES_DISABLE_INTERRUPT)" if "i < n" for i
  proof -
    have "?ds \<noteq> []" using that n by auto
    then show ?thesis
      using that n ctl [OF that] unfolding ds1_def
      by (cases "i = 0"; cases "i = n - 1") (auto simp: nth_list_update idmac_flags_def dwmmc_des_defs)
  qed
  have seg: "idmac_segs (?ds2 ! i) = idmac_segs (?ds ! i)" if "i < n" for i
    using nth [OF that] ctl [OF that] by (auto simp: idmac_segs_def idmac_flags_def dwmmc_des_defs)
  have "map idmac_segs (take n ?ds2) = map idmac_segs (take n ?ds)"
    using n l seg by (auto intro!: nth_equalityI)
  moreover have "dd_control (?ds2 ! i) = DWMMC_DES_OWN OR (if i = 0 then DWMMC_DES_FIRST else 0) OR
      (if i = n - 1 then DWMMC_DES_LAST OR DWMMC_DES_END_OF_RING else DWMMC_DES_DISABLE_INTERRUPT)" if "i < n" for i
    using nth [OF that] by auto
  ultimately show ?thesis
    using assms(1-3) n l by (auto simp: idmac_table_def idmac_building_def)
qed

definition dwmmc_idle :: "(nat \<Rightarrow> u8) \<Rightarrow> dwmmc_state \<Rightarrow> dwmmc_xfer \<Rightarrow> bool" where
  "dwmmc_idle disk st x \<longleftrightarrow> dx_status x = iost_num IOST_OK \<and> \<not> ds_active st \<and> dwmmc_hw_ok disk (ds_hw st) \<and>
     dx_desc_cap x \<le> length (dx_desc x) \<and> \<not> dx_always_use_chaining x \<and> dx_desc_ptr x mod 4096 = 0"

definition dwmmc_busy :: "(nat \<Rightarrow> u8) \<Rightarrow> dwmmc_state \<Rightarrow> dwmmc_xfer \<Rightarrow> nat \<Rightarrow> nat \<Rightarrow> nat \<Rightarrow> bool" where
  "dwmmc_busy disk st x lba a b \<longleftrightarrow> dx_status x = DWMMC_SUBMITTED \<and> ds_active st \<and> dwmmc_hw_ok disk (ds_hw st) \<and>
     dx_desc_cap x \<le> length (dx_desc x) \<and> \<not> dx_always_use_chaining x \<and> dx_desc_ptr x mod 4096 = 0 \<and>
     idmac_table (take (used_descs x) (dx_desc x)) a b \<and>
     unat (ds_cmdarg st) = lba \<and> b - a = ds_bytcnt st"

lemma dwmmc_wait_cmd_fields:
  assumes "dwmmc_wait_cmd st cmd = (r, st')"
  shows "ds_active st' = ds_active st" "ds_hw st' = ds_hw st" "ds_bytcnt st' = ds_bytcnt st" "ds_cmdarg st' = ds_cmdarg st"
  using assms by (auto simp: dwmmc_wait_cmd_def Let_def split: if_splits)

lemma dwmmc_launch:
  assumes "dwmmc_idle disk st x" "a < b" "b < 2 ^ 32" "a mod 4 = 0" "(b - a) mod 512 = 0"
    "(b - a + 4095) div 4096 \<le> 2 * dx_desc_cap x" "b - a \<le> 2 ^ 20"
  shows "\<exists>x1 x2 r st' x'. dwmmc_start_request x lba = Some (IOST_OK, x1) \<and>
    dwmmc_add_phys_buffer x1 a b = Some (True, x2) \<and> dwmmc_start_xfer st x2 = Some (r, st', x') \<and>
    dx_desc_cap x' = dx_desc_cap x \<and> (r = IOST_OK \<longrightarrow> dwmmc_busy disk st' x' (unat lba) a b)"
proof -
  let ?x1 = "x\<lparr>dx_status := DWMMC_CREATING, dx_block_addr := lba, dx_desc_size := 0, dx_xfer_bytes := 0, dx_second_buf := False\<rparr>"
  have x1: "dwmmc_start_request x lba = Some (IOST_OK, ?x1)"
    using assms(1) by (intro dwmmc_start_request_ok) (simp add: dwmmc_idle_def NUM_IOST_def)
  have "idmac_building ?x1 a a"
    using assms(1) by (simp add: idmac_building_def dwmmc_idle_def used_descs_def)
  moreover have "(b - a + 4095) div 4096 \<le> 510"
    using assms(7) by simp
  ultimately obtain x2 where x2: "dwmmc_add_loop ?x1 a b = Some (True, x2)" "idmac_building x2 a b"
    "dx_status x2 = DWMMC_CREATING" "dx_desc_cap x2 = dx_desc_cap x" "dx_block_addr x2 = lba"
    using dwmmc_add_loop_covers [of ?x1 a a b] assms by auto
  obtain k where "b - a = 512 * k"
    using assms(5) by auto
  then have "b = a + 4 * (128 * k)"
    using assms(2) by simp
  then have "b mod 4 = 0"
    using assms(4) by (simp only: mod_mult_self2)
  then have add: "dwmmc_add_phys_buffer ?x1 a b = Some (True, x2)"
    using assms(4) x2(1) by (simp add: dwmmc_add_phys_buffer_def)
  have bytes: "dx_xfer_bytes x2 = b - a" and len: "used_descs x2 \<le> length (dx_desc x2)"
    "dx_desc_cap x2 \<le> length (dx_desc x2)" "\<not> dx_always_use_chaining x2" "dx_desc_ptr x2 mod 4096 = 0"
    using x2(2) by (auto simp: idmac_building_def)
  have used: "0 < used_descs x2"
    using x2(2) assms(2) by (cases "used_descs x2") (auto simp: idmac_building_def)
  note tb = idmac_start_table [OF x2(2) refl used]
  have na: "\<not> ds_active st" "dwmmc_hw_ok disk (ds_hw st)"
    using assms(1) by (simp_all add: dwmmc_idle_def)
  obtain r st' where sub: "dwmmc_wait_cmd (st\<lparr>ds_active := True, ds_bytcnt := b - a, ds_cmdarg := lba\<rparr>) read_cmd = (r, st')"
    by fastforce
  have "\<not> (dx_desc_size x2 = 0 \<and> \<not> dx_second_buf x2)" "used_descs x2 - 1 < length (dx_desc x2)"
    using used len(1) by (auto simp: used_descs_def)
  then obtain x' where st: "dwmmc_start_xfer st x2 = Some (r, st', x')" "dx_desc_cap x' = dx_desc_cap x"
      "r = IOST_OK \<longrightarrow> dwmmc_busy disk st' x' (unat lba) a b"
    using tb bytes len x2 na assms(2,5) sub dwmmc_wait_cmd_fields [OF sub]
    unfolding dwmmc_start_xfer_def dwmmc_busy_def used_descs_def [symmetric]
    by (simp add: Let_def used_descs_cong)
  with x1 add show ?thesis by blast
qed

lemma dwmmc_wait_idle: "dwmmc_idle disk st x \<Longrightarrow> dwmmc_wait_xfer st x m = Some (iost_num IOST_OK, st, x, m)"
  by (simp add: dwmmc_wait_xfer_def dwmmc_idle_def NUM_IOST_def)

lemma dwmmc_wait_busy:
  assumes "dwmmc_busy disk st x lba a b" "mapped m a (b - a)"
  shows "\<exists>r st' x' m'. dwmmc_wait_xfer st x m = Some (iost_num r, st', x', m') \<and> only_within m m' a b \<and>
    dx_desc_cap x' = dx_desc_cap x \<and>
    (r = IOST_OK \<longrightarrow> dwmmc_idle disk st' x' \<and> bytes_at m' a (b - a) = medium_bytes disk (512 * lba) (b - a))"
proof -
  obtain ri ids ss m' where rd: "dw_read (ds_hw st) (ds_cmdarg st) (ds_bytcnt st) (take (used_descs x) (dx_desc x)) m =
      ((ri, ids, ss), m')"
    by (metis surj_pair)
  have b: "dx_status x = DWMMC_SUBMITTED" "ds_active st" "dwmmc_hw_ok disk (ds_hw st)"
    "dx_desc_cap x \<le> length (dx_desc x)" "\<not> dx_always_use_chaining x" "dx_desc_ptr x mod 4096 = 0"
    "idmac_table (take (used_descs x) (dx_desc x)) a b" "unat (ds_cmdarg st) = lba" "b - a = ds_bytcnt st"
    using assms(1) by (simp_all add: dwmmc_busy_def)
  note hw = dwmmc_hw_okD [OF b(3,7) assms(2) rd [folded b(9)], unfolded b(8)]
  define ri' where "ri' = (if ss AND (DWMMC_STATUS_DATA_BUSY OR DWMMC_STATUS_DATA_SM_BUSY) = 0
    then ri OR DWMMC_INT_DATA_NO_BUSY else ri) OR ds_int_st st"
  define acc where "acc = (ds_idmac_st st AND NOT DWMMC_IDMAC_FSM_MASK) OR ids"
  define r where "r = (if ri' AND DWMMC_ERROR_INT_MASK \<noteq> 0 \<or> acc AND DWMMC_IDMAC_INTMASK_ABNORMAL \<noteq> 0
    then IOST_GLOBAL else IOST_OK)"
  define st' where "st' = st\<lparr>ds_int_st := ri', ds_idmac_st := acc, ds_active := False\<rparr>"
  have fsm: "drop_bit 13 acc AND 15 = drop_bit 13 ids AND 15"
  proof -
    have m: "DWMMC_IDMAC_FSM_MASK = push_bit 13 (mask 4)" "(15 :: u32) = mask 4"
      by (simp_all add: DWMMC_IDMAC_FSM_MASK_def mask_eq_exp_minus_1)
    show ?thesis
      unfolding acc_def m by (rule bit_word_eqI) (auto simp: bit_simps simp del: mask_numeral push_bit_numeral)
  qed
  have err: "ri' AND DWMMC_ERROR_INT_MASK = 0 \<Longrightarrow> ri AND DWMMC_ERROR_INT_MASK = 0"
    "acc AND DWMMC_IDMAC_INTMASK_ABNORMAL = 0 \<Longrightarrow> ids AND DWMMC_IDMAC_INTMASK_ABNORMAL = 0"
    by (auto simp: ri'_def acc_def bit.conj_disj_distrib2 or_eq_0_iff split: if_splits)
  have "dwmmc_irq ri ids ss st x = (st', x\<lparr>dx_status := iost_num r\<rparr>)"
    using hw(2) b(2) err unfolding dwmmc_irq_def r_def st'_def Let_def
    by (auto simp: ri'_def [symmetric] acc_def [symmetric] fsm)
  moreover have "iost_num r < NUM_IOST" by (simp add: NUM_IOST_def r_def)
  ultimately have "dwmmc_wait_xfer st x m = Some (iost_num r, st', x\<lparr>dx_status := iost_num r\<rparr>, m')"
    using b(1) rd unfolding dwmmc_wait_xfer_def used_descs_def [symmetric] by (simp add: dwmmc_status_defs)
  moreover have "bytes_at m' a (b - a) = medium_bytes disk (512 * lba) (b - a) \<and>
      dwmmc_idle disk st' (x\<lparr>dx_status := iost_num r\<rparr>)" if "r = IOST_OK"
    using that b err hw(3) by (auto simp: r_def dwmmc_idle_def st'_def split: if_splits)
  moreover have "dx_desc_cap (x\<lparr>dx_status := iost_num r\<rparr>) = dx_desc_cap x" by simp
  ultimately show ?thesis
    using hw(1) by blast
qed

end
