(* ===== verification/Blockdev.thy ===== *)
theory Blockdev
  imports Decompress_Driver Dwmmc
begin

text \<open>
  Block devices as asynchronous transfers: the pump and start functions of
  dramstage/blk\_emmc.c and dramstage/blk\_sd.c over the SDHCI and DWMMC drivers.  The two
  pump functions differ only in the driver calls, which are arguments of the shared loop
  below.  Cache maintenance is not modelled; a DMA transfer takes effect in memory when it
  is waited for.
\<close>

section \<open>The pump loop\<close>

record 'd blockdev =
  b_block_size :: nat
  b_num_blocks :: nat
  b_consume :: nat
  b_end :: nat
  b_next_end :: nat
  b_stop :: nat
  b_next_lba :: nat
  b_iost_u8 :: nat
  b_drv :: 'd

definition err_buf :: "'d blockdev \<Rightarrow> nat \<Rightarrow> async_buf" where
  "err_buf dev res = \<lparr>buf_start = b_iost_u8 dev + res, buf_end = b_iost_u8 dev\<rparr>"

definition ok_buf :: "'d blockdev \<Rightarrow> async_buf" where
  "ok_buf dev = \<lparr>buf_start = b_consume dev, buf_end = b_end dev\<rparr>"

type_synonym 'd wait_fn = "'d \<Rightarrow> mem \<Rightarrow> (nat \<times> 'd \<times> mem) option"
type_synonym 'd launch_fn = "'d \<Rightarrow> nat \<Rightarrow> nat \<Rightarrow> nat \<Rightarrow> (nat \<times> 'd) option"

text \<open>wait\_xfer\<close>

definition wait_xfer :: "'d wait_fn \<Rightarrow> 'd blockdev \<Rightarrow> mem \<Rightarrow> (nat \<times> 'd blockdev \<times> mem) option" where
  "wait_xfer wait dev m = do {
     (res, d, m) \<leftarrow> wait (b_drv dev) m;
     let dev = dev\<lparr>b_drv := d\<rparr>;
     if res \<noteq> iost_num IOST_OK then Some (res, dev, m)
     else Some (iost_num IOST_OK, dev\<lparr>b_end := b_next_end dev\<rparr>, m)
   }"

definition pump_step :: "'d wait_fn \<Rightarrow> 'd launch_fn \<Rightarrow> nat \<Rightarrow> nat \<Rightarrow> 'd blockdev \<times> mem \<Rightarrow>
    ('d blockdev \<times> mem + async_buf \<times> 'd blockdev \<times> mem) option" where
  "pump_step wait launch request_size min_size = (\<lambda>(dev, m).
    if \<not> b_end dev - b_consume dev < min_size then Some (Inr (ok_buf dev, dev, m))
    else do {
      (res, dev, m) \<leftarrow> (if b_end dev \<noteq> b_next_end dev then wait_xfer wait dev m
        else Some (iost_num IOST_OK, dev, m));
      if res \<noteq> iost_num IOST_OK then Some (Inr (err_buf dev res, dev, m))
      else if b_stop dev = b_end dev then Some (Inr (ok_buf dev, dev, m))
      else do {
        let e = (if b_stop dev - b_end dev > request_size then b_end dev + request_size else b_stop dev);
        (res, d) \<leftarrow> launch (b_drv dev) (b_next_lba dev) (b_end dev) e;
        let dev = dev\<lparr>b_drv := d\<rparr>;
        if res \<noteq> iost_num IOST_OK then Some (Inr (err_buf dev res, dev, m))
        else Some (Inl (dev\<lparr>b_next_lba := wrap32 (b_next_lba dev + request_size div b_block_size dev),
                            b_next_end := e\<rparr>, m))
      }
    })"

definition pump :: "'d wait_fn \<Rightarrow> 'd launch_fn \<Rightarrow> nat \<Rightarrow> 'd blockdev pump_fn" where
  "pump wait launch request_size dev m consume min_size =
    (if \<not> b_end dev - b_consume dev \<ge> consume then None
     else iterate (pump_step wait launch request_size min_size) (dev\<lparr>b_consume := b_consume dev + consume\<rparr>, m))"

definition start :: "'d wait_fn \<Rightarrow> 'd blockdev \<Rightarrow> mem \<Rightarrow> nat \<Rightarrow> nat \<Rightarrow> nat \<Rightarrow> (nat \<times> 'd blockdev \<times> mem) option" where
  "start wait dev m addr buf bend =
    (if bend < buf \<or> (bend - buf) mod b_block_size dev \<noteq> 0 \<or> addr \<ge> b_num_blocks dev
     then Some (iost_num IOST_INVALID, dev, m)
     else do {
       (res, dev, m) \<leftarrow> wait_xfer wait dev m;
       if res \<noteq> iost_num IOST_OK then Some (res, dev, m)
       else Some (iost_num IOST_OK, dev\<lparr>b_next_lba := wrap32 addr, b_consume := buf, b_end := buf,
         b_next_end := buf, b_stop := bend\<rparr>, m)
     })"

section \<open>The drivers\<close>

type_synonym emmc_drv = "sdhci_state \<times> sdhci_xfer"
type_synonym sd_drv = "dwmmc_state \<times> dwmmc_xfer"

definition EMMC_REQUEST_SIZE :: nat where "EMMC_REQUEST_SIZE = 2097152"
definition SD_REQUEST_SIZE :: nat where "SD_REQUEST_SIZE = 524288"

definition emmc_wait :: "emmc_drv wait_fn" where
  "emmc_wait d m = do {
     (res, st, x, m) \<leftarrow> sdhci_wait_xfer (fst d) (snd d) m;
     Some (res, (st, x), m)
   }"

definition emmc_launch :: "emmc_drv launch_fn" where
  "emmc_launch d lba a b = do {
     (ok, x) \<leftarrow> sdhci_reset_xfer (snd d);
     if \<not> ok then Some (iost_num IOST_INVALID, (fst d, x))
     else do {
       (success, x) \<leftarrow> sdhci_add_phys_buffer x (plat_virt_to_phys a) (plat_virt_to_phys b);
       if \<not> success then None
       else do {
         (res, st, x) \<leftarrow> sdhci_start_xfer (fst d) x (of_nat lba);
         Some (iost_num res, (st, x))
       }
     }
   }"

definition sd_wait :: "sd_drv wait_fn" where
  "sd_wait d m = do {
     (res, st, x, m) \<leftarrow> dwmmc_wait_xfer (fst d) (snd d) m;
     Some (res, (st, x), m)
   }"

definition sd_launch :: "sd_drv launch_fn" where
  "sd_launch d lba a b = do {
     (res, x) \<leftarrow> dwmmc_start_request (snd d) (of_nat lba);
     if res \<noteq> IOST_OK then Some (iost_num res, (fst d, x))
     else do {
       (success, x) \<leftarrow> dwmmc_add_phys_buffer x (plat_virt_to_phys a) (plat_virt_to_phys b);
       if \<not> success then None
       else do {
         (res, st, x) \<leftarrow> dwmmc_start_xfer (fst d) x;
         Some (iost_num res, (st, x))
       }
     }
   }"

definition emmc_pump :: "emmc_drv blockdev pump_fn" where
  "emmc_pump = pump emmc_wait emmc_launch EMMC_REQUEST_SIZE"

definition sd_pump :: "sd_drv blockdev pump_fn" where
  "sd_pump = pump sd_wait sd_launch SD_REQUEST_SIZE"

definition emmc_start :: "emmc_drv blockdev \<Rightarrow> mem \<Rightarrow> nat \<Rightarrow> nat \<Rightarrow> nat \<Rightarrow> (nat \<times> emmc_drv blockdev \<times> mem) option" where
  "emmc_start = start emmc_wait"

definition sd_start :: "sd_drv blockdev \<Rightarrow> mem \<Rightarrow> nat \<Rightarrow> nat \<Rightarrow> nat \<Rightarrow> (nat \<times> sd_drv blockdev \<times> mem) option" where
  "sd_start = start sd_wait"

section \<open>What the pump needs of a driver\<close>

text \<open>
  A driver is idle, or busy reading the blocks from lba on into the memory from a to b.
  Waiting ends a read; unless it reports an error the memory then holds the blocks.
\<close>

locale block_driver =
  fixes wait :: "'d wait_fn" and launch :: "'d launch_fn"
    and idle :: "'d \<Rightarrow> bool" and busy :: "'d \<Rightarrow> nat \<Rightarrow> nat \<Rightarrow> nat \<Rightarrow> bool"
    and disk :: "nat \<Rightarrow> u8" and req :: nat
  assumes wait_idle: "idle d \<Longrightarrow> wait d m = Some (iost_num IOST_OK, d, m)"
    and wait_busy: "busy d lba a b \<Longrightarrow> mapped m a (b - a) \<Longrightarrow>
      \<exists>r d' m'. wait d m = Some (iost_num r, d', m') \<and> only_within m m' a b \<and>
        (r = IOST_OK \<longrightarrow> idle d' \<and> bytes_at m' a (b - a) = medium_bytes disk (512 * lba) (b - a))"
    and launch_ok: "idle d \<Longrightarrow> a < b \<Longrightarrow> b < 0xffe00000 \<Longrightarrow> a mod 4 = 0 \<Longrightarrow> (b - a) mod 512 = 0 \<Longrightarrow>
      b - a \<le> req \<Longrightarrow> lba < 2 ^ 32 \<Longrightarrow>
      \<exists>r d'. launch d lba a b = Some (iost_num r, d') \<and> (r = IOST_OK \<longrightarrow> busy d' lba a b)"
    and req_pos: "0 < req" and req_blocks: "req mod 512 = 0"

interpretation emmc: block_driver emmc_wait emmc_launch "\<lambda>d. sdhci_idle disk (fst d) (snd d) \<and> 32 \<le> sx_desc_cap (snd d)"
    "\<lambda>d lba a b. sdhci_busy disk (fst d) (snd d) lba a b \<and> 32 \<le> sx_desc_cap (snd d)" disk EMMC_REQUEST_SIZE for disk
proof
  fix d m assume "sdhci_idle disk (fst d) (snd d) \<and> 32 \<le> sx_desc_cap (snd d)"
  then show "emmc_wait d m = Some (iost_num IOST_OK, d, m)"
    by (auto simp: emmc_wait_def dest: sdhci_wait_idle [of disk _ _ m])
next
  fix d lba a b m
  assume "sdhci_busy disk (fst d) (snd d) lba a b \<and> 32 \<le> sx_desc_cap (snd d)" "mapped m a (b - a)"
  then show "\<exists>r d' m'. emmc_wait d m = Some (iost_num r, d', m') \<and> only_within m m' a b \<and>
      (r = IOST_OK \<longrightarrow> (sdhci_idle disk (fst d') (snd d') \<and> 32 \<le> sx_desc_cap (snd d')) \<and>
        bytes_at m' a (b - a) = medium_bytes disk (512 * lba) (b - a))"
    using sdhci_wait_busy [of disk "fst d" "snd d" lba a b m] unfolding emmc_wait_def
    by (elim conjE) (fastforce)
next
  fix d :: emmc_drv and a b lba :: nat
  assume d: "sdhci_idle disk (fst d) (snd d) \<and> 32 \<le> sx_desc_cap (snd d)" "a < b" "b < 0xffe00000" "a mod 4 = 0"
    "(b - a) mod 512 = 0" "b - a \<le> EMMC_REQUEST_SIZE" "lba < 2 ^ 32"
  have "(b - a + 65535) div 65536 \<le> 32" "b < 2 ^ 32"
    using d(3,6) by (simp_all add: EMMC_REQUEST_SIZE_def)
  then have "(b - a + 65535) div 65536 \<le> sx_desc_cap (snd d)"
    using d(1) by linarith
  from sdhci_launch [OF conjunct1 [OF d(1)] d(2) \<open>b < 2 ^ 32\<close> d(4,5) this, of "of_nat lba"]
  show "\<exists>r d'. emmc_launch d lba a b = Some (iost_num r, d') \<and>
      (r = IOST_OK \<longrightarrow> sdhci_busy disk (fst d') (snd d') lba a b \<and> 32 \<le> sx_desc_cap (snd d'))"
    using d by (fastforce simp: emmc_launch_def plat_virt_to_phys_def unat_of_nat)
qed (simp_all add: EMMC_REQUEST_SIZE_def)

interpretation sd: block_driver sd_wait sd_launch "\<lambda>d. dwmmc_idle disk (fst d) (snd d) \<and> 64 \<le> dx_desc_cap (snd d)"
    "\<lambda>d lba a b. dwmmc_busy disk (fst d) (snd d) lba a b \<and> 64 \<le> dx_desc_cap (snd d)" disk SD_REQUEST_SIZE for disk
proof
  fix d m assume "dwmmc_idle disk (fst d) (snd d) \<and> 64 \<le> dx_desc_cap (snd d)"
  then show "sd_wait d m = Some (iost_num IOST_OK, d, m)"
    by (auto simp: sd_wait_def dest: dwmmc_wait_idle [of disk _ _ m])
next
  fix d lba a b m
  assume "dwmmc_busy disk (fst d) (snd d) lba a b \<and> 64 \<le> dx_desc_cap (snd d)" "mapped m a (b - a)"
  then show "\<exists>r d' m'. sd_wait d m = Some (iost_num r, d', m') \<and> only_within m m' a b \<and>
      (r = IOST_OK \<longrightarrow> (dwmmc_idle disk (fst d') (snd d') \<and> 64 \<le> dx_desc_cap (snd d')) \<and>
        bytes_at m' a (b - a) = medium_bytes disk (512 * lba) (b - a))"
    using dwmmc_wait_busy [of disk "fst d" "snd d" lba a b m] unfolding sd_wait_def
    by (elim conjE) (fastforce)
next
  fix d :: sd_drv and a b lba :: nat
  assume d: "dwmmc_idle disk (fst d) (snd d) \<and> 64 \<le> dx_desc_cap (snd d)" "a < b" "b < 0xffe00000" "a mod 4 = 0"
    "(b - a) mod 512 = 0" "b - a \<le> SD_REQUEST_SIZE" "lba < 2 ^ 32"
  have "(b - a + 4095) div 4096 \<le> 128" "b < 2 ^ 32" and sz: "b - a \<le> 2 ^ 20"
    using d(3,6) by (simp_all add: SD_REQUEST_SIZE_def)
  then have "(b - a + 4095) div 4096 \<le> 2 * dx_desc_cap (snd d)"
    using d(1) by linarith
  from dwmmc_launch [OF conjunct1 [OF d(1)] d(2) \<open>b < 2 ^ 32\<close> d(4,5) this sz, of "of_nat lba"]
  show "\<exists>r d'. sd_launch d lba a b = Some (iost_num r, d') \<and>
      (r = IOST_OK \<longrightarrow> dwmmc_busy disk (fst d') (snd d') lba a b \<and> 64 \<le> dx_desc_cap (snd d'))"
    using d by (fastforce simp: sd_launch_def plat_virt_to_phys_def unat_of_nat)
qed (simp_all add: SD_REQUEST_SIZE_def)

section \<open>The pump delivers the medium\<close>

lemma iost_num_0 [simp]: "iost_num r = 0 \<longleftrightarrow> r = IOST_OK" "0 < iost_num r \<longleftrightarrow> r \<noteq> IOST_OK"
  by (cases r; simp)+

context block_driver
begin

text \<open>
  The state of a stream of the blocks from addr on into the memory from lo to hi: the
  pointers are in order, the driver is idle or reads the next chunk, and the next block
  address belongs to the end of that chunk.
\<close>

definition stream :: "nat \<Rightarrow> nat \<Rightarrow> nat \<Rightarrow> 'd blockdev \<Rightarrow> bool" where
  "stream addr lo hi dev \<longleftrightarrow> b_block_size dev = 512 \<and> b_stop dev = hi \<and> hi < 0xffe00000 \<and>
     lo mod 4 = 0 \<and> (hi - lo) mod 512 = 0 \<and> addr + (hi - lo) div 512 < 2 ^ 32 \<and>
     lo \<le> b_consume dev \<and> b_consume dev \<le> b_end dev \<and> b_end dev \<le> b_next_end dev \<and> b_next_end dev \<le> hi \<and>
     (b_end dev - lo) mod 512 = 0 \<and> (b_next_end dev - lo) mod 512 = 0 \<and>
     (b_next_end dev < hi \<longrightarrow> b_next_lba dev = addr + (b_next_end dev - lo) div 512) \<and>
     (if b_end dev = b_next_end dev then idle (b_drv dev)
      else busy (b_drv dev) (addr + (b_end dev - lo) div 512) (b_end dev) (b_next_end dev))"

definition delivered :: "nat \<Rightarrow> nat \<Rightarrow> 'd blockdev \<Rightarrow> mem \<Rightarrow> bool" where
  "delivered addr lo dev m \<longleftrightarrow> bytes_at m lo (b_end dev - lo) = medium_bytes disk (512 * addr) (b_end dev - lo)"

definition remaining :: "nat \<Rightarrow> 'd blockdev \<Rightarrow> nat" where
  "remaining hi dev = 2 * (hi - b_end dev) + (if b_end dev = b_next_end dev then 1 else 0)"

text \<open>Waiting for the chunk under way.\<close>

lemma stream_wait:
  assumes s: "stream addr lo hi dev" "mapped m lo (hi - lo)" "b_end dev \<noteq> b_next_end dev" "D \<longrightarrow> delivered addr lo dev m"
  shows "\<exists>r dev' m'. wait_xfer wait dev m = Some (iost_num r, dev', m') \<and> only_within m m' (b_end dev) hi \<and>
    b_consume dev' = b_consume dev \<and> b_iost_u8 dev' = b_iost_u8 dev \<and>
    (r = IOST_OK \<longrightarrow> stream addr lo hi dev' \<and> b_end dev' = b_next_end dev \<and> b_next_end dev' = b_next_end dev \<and>
      (D \<longrightarrow> delivered addr lo dev' m'))"
proof -
  let ?n = "(b_end dev - lo) div 512"
  have b: "busy (b_drv dev) (addr + ?n) (b_end dev) (b_next_end dev)" "lo \<le> b_end dev" "b_end dev \<le> b_next_end dev"
    "b_next_end dev \<le> hi" "(b_end dev - lo) mod 512 = 0"
    using s(1,3) by (auto simp: stream_def)
  have "mapped m (b_end dev) (b_next_end dev - b_end dev)"
    by (rule mapped_sub [OF s(2)]) (use b in auto)
  from wait_busy [OF b(1) this]
  obtain r d' m' where w: "wait (b_drv dev) m = Some (iost_num r, d', m')"
    "only_within m m' (b_end dev) (b_next_end dev)"
    "r = IOST_OK \<longrightarrow> idle d' \<and> bytes_at m' (b_end dev) (b_next_end dev - b_end dev) =
      medium_bytes disk (512 * (addr + ?n)) (b_next_end dev - b_end dev)"
    by blast
  let ?dev = "if r = IOST_OK then dev\<lparr>b_drv := d', b_end := b_next_end dev\<rparr> else dev\<lparr>b_drv := d'\<rparr>"
  have "wait_xfer wait dev m = Some (iost_num r, ?dev, m')"
    using w(1) by (cases r) (simp_all add: wait_xfer_def Let_def)
  moreover have "only_within m m' (b_end dev) hi"
    by (rule only_within_mono [OF w(2)]) (use b in auto)
  moreover have "delivered addr lo ?dev m'" if "r = IOST_OK" D
  proof -
    define k l where "k = b_end dev - lo" and "l = b_next_end dev - b_end dev"
    have "bytes_at m' lo k = medium_bytes disk (512 * addr) k"
      using s(4) that(2) only_within_bytes [OF w(2), of lo k] b(2) by (simp add: delivered_def k_def)
    moreover have e: "512 * (addr + ?n) = 512 * addr + k" "b_end dev = lo + k" "b_next_end dev - lo = k + l"
      using b(2,3,5) by (simp_all add: distrib_left k_def l_def minus_mod_eq_mult_div [symmetric])
    moreover have "bytes_at m' (lo + k) l = medium_bytes disk (512 * addr + k) l"
      using that(1) w(3) by (simp add: e(1) e(2) [symmetric] l_def del: distrib_left_numeral)
    ultimately show ?thesis
      using that(1) by (simp add: delivered_def bytes_at_append medium_bytes_append [symmetric])
  qed
  moreover have "stream addr lo hi ?dev" if "r = IOST_OK"
    using that s(1) w(3) by (auto simp: stream_def)
  ultimately show ?thesis
    by (intro exI [of _ r] exI [of _ ?dev] exI [of _ m']) auto
qed

text \<open>Launching the next chunk.\<close>

lemma stream_launch:
  assumes s: "stream addr lo hi dev" "b_end dev = b_next_end dev" "b_stop dev \<noteq> b_end dev"
  defines "e \<equiv> (if b_stop dev - b_end dev > req then b_end dev + req else b_stop dev)"
  shows "\<exists>r d'. launch (b_drv dev) (b_next_lba dev) (b_end dev) e = Some (iost_num r, d') \<and>
    (r = IOST_OK \<longrightarrow> (let dev' = dev\<lparr>b_drv := d', b_next_lba := wrap32 (b_next_lba dev + req div b_block_size dev), b_next_end := e\<rparr>
      in stream addr lo hi dev' \<and> remaining hi dev' < remaining hi dev))"
proof -
  have st: "b_stop dev = hi" "b_end dev < hi" "idle (b_drv dev)" "hi < 0xffe00000" "lo mod 4 = 0" "b_block_size dev = 512"
    "lo \<le> b_end dev" "(b_end dev - lo) mod 512 = 0" "(hi - lo) mod 512 = 0" "addr + (hi - lo) div 512 < 2 ^ 32"
    using s by (auto simp: stream_def)
  obtain k where "b_end dev - lo = 512 * k" using st(8) by auto
  then have k: "b_end dev = lo + 512 * k" using st(7) by simp
  obtain h where "hi - lo = 512 * h" using st(9) by auto
  then have h: "hi = lo + 512 * h" using st(2,7) by simp
  obtain q where q: "req = 512 * q" using req_blocks by auto
  have lba: "b_next_lba dev = addr + k" "addr + h < 2 ^ 32"
    using s st(2,10) k h by (auto simp: stream_def)
  define j where "j = (if h - k > q then k + q else h)"
  have e: "e = lo + 512 * j" and j: "k < j" "j \<le> h" "j \<le> k + q" "j < h \<longrightarrow> j = k + q"
    using st(1,2) k h q req_pos by (auto simp: e_def j_def)
  have "b_end dev = lo + 4 * (128 * k)" using k by simp
  then have m4: "b_end dev mod 4 = 0" using st(5) by (simp only: mod_mult_self2)
  have p: "b_end dev < e" "e < 0xffe00000" "e - b_end dev = 512 * (j - k)" "e - b_end dev \<le> req" "b_next_lba dev < 2 ^ 32"
    using k e j h st(4) q lba by auto
  have "(e - b_end dev) mod 512 = 0"
    unfolding p(3) by simp
  from launch_ok [OF st(3) p(1,2) m4 this p(4,5)]
  obtain r d' where l: "launch (b_drv dev) (b_next_lba dev) (b_end dev) e = Some (iost_num r, d')"
    "r = IOST_OK \<longrightarrow> busy d' (b_next_lba dev) (b_end dev) e"
    by blast
  have "stream addr lo hi (dev\<lparr>b_drv := d', b_next_lba := wrap32 (b_next_lba dev + req div b_block_size dev),
      b_next_end := e\<rparr>)" if "r = IOST_OK"
  proof -
    have "wrap32 (b_next_lba dev + req div b_block_size dev) = addr + (e - lo) div 512" if "e < hi"
      using that j e h lba q st(6) by simp
    moreover have "(e - lo) mod 512 = 0" "e \<le> hi" "b_end dev \<le> e" "b_end dev \<noteq> e"
      using e h j(2) p(1) by simp_all
    moreover have "busy d' (addr + (b_end dev - lo) div 512) (b_end dev) e"
      using that l(2) lba(1) k by simp
    ultimately show ?thesis
      using s(1) unfolding stream_def by simp
  qed
  moreover have "remaining hi (dev\<lparr>b_drv := d', b_next_lba := n, b_next_end := e\<rparr>) < remaining hi dev" for n
    using s(2) p(1) by (simp add: remaining_def)
  ultimately show ?thesis
    using l(1) by (auto simp: Let_def)
qed

lemma pump_step_cases:
  assumes s: "stream addr lo hi dev" "mapped m lo (hi - lo)" "D \<longrightarrow> delivered addr lo dev m"
  shows "(\<exists>dev' m'. pump_step wait launch req n (dev, m) = Some (Inl (dev', m')) \<and> stream addr lo hi dev' \<and>
      (D \<longrightarrow> delivered addr lo dev' m') \<and> only_within m m' (b_end dev) hi \<and> b_consume dev' = b_consume dev \<and>
      b_end dev \<le> b_end dev' \<and> remaining hi dev' < remaining hi dev) \<or>
    (\<exists>buf dev' m'. pump_step wait launch req n (dev, m) = Some (Inr (buf, dev', m')) \<and>
      only_within m m' (b_end dev) hi \<and>
      (buf_error buf \<or> stream addr lo hi dev' \<and> (D \<longrightarrow> delivered addr lo dev' m') \<and> b_consume dev' = b_consume dev \<and>
        buf = ok_buf dev' \<and> b_end dev \<le> b_end dev' \<and> (n \<le> buf_size buf \<or> b_end dev' = hi)))"
proof (cases "b_end dev - b_consume dev < n")
  case False
  then show ?thesis
    using s by (intro disjI2) (auto simp: pump_step_def ok_buf_def buf_size_def)
next
  case True
  have err: "buf_error (err_buf d (iost_num r))" if "r \<noteq> IOST_OK" for d :: "'d blockdev" and r
    using that by (simp add: err_buf_def buf_error_def)
  obtain r dev1 m1 where w: "(if b_end dev \<noteq> b_next_end dev then wait_xfer wait dev m
        else Some (iost_num IOST_OK, dev, m)) = Some (iost_num r, dev1, m1)"
      "only_within m m1 (b_end dev) hi" "b_consume dev1 = b_consume dev"
      "r = IOST_OK \<longrightarrow> stream addr lo hi dev1 \<and> (D \<longrightarrow> delivered addr lo dev1 m1) \<and> b_end dev1 = b_next_end dev1 \<and>
        b_end dev \<le> b_end dev1 \<and> remaining hi dev1 \<le> remaining hi dev"
  proof (cases "b_end dev = b_next_end dev")
    case True
    then show ?thesis
      using s that [of IOST_OK dev m] by simp
  next
    case False
    have "b_end dev < b_next_end dev" "b_next_end dev \<le> hi"
      using s(1) False by (auto simp: stream_def)
    then have "remaining hi d \<le> remaining hi dev" if "b_end d = b_next_end dev" for d
      using that by (auto simp: remaining_def)
    then show ?thesis
      using stream_wait [OF s(1,2) False s(3)] False that \<open>b_end dev < b_next_end dev\<close> by fastforce
  qed
  show ?thesis
  proof (cases "r = IOST_OK")
    case False
    then show ?thesis
      using True w err by (intro disjI2) (simp add: pump_step_def)
  next
    case ok: True
    note d1 = w(4) [rule_format, OF ok]
    show ?thesis
    proof (cases "b_stop dev1 = b_end dev1")
      case stop: True
      then have "b_end dev1 = hi" using d1 by (simp add: stream_def)
      then show ?thesis
        using True w ok d1 stop by (intro disjI2) (auto simp: pump_step_def)
    next
      case False
      let ?e = "if b_stop dev1 - b_end dev1 > req then b_end dev1 + req else b_stop dev1"
      obtain r2 d2 where l: "launch (b_drv dev1) (b_next_lba dev1) (b_end dev1) ?e = Some (iost_num r2, d2)"
        "r2 = IOST_OK \<longrightarrow> (let dev' = dev1\<lparr>b_drv := d2, b_next_lba := wrap32 (b_next_lba dev1 + req div b_block_size dev1),
           b_next_end := ?e\<rparr> in stream addr lo hi dev' \<and> remaining hi dev' < remaining hi dev1)"
        using stream_launch [of addr lo hi dev1] d1 False by blast
      define dev2 where "dev2 = dev1\<lparr>b_drv := d2, b_next_lba := wrap32 (b_next_lba dev1 + req div b_block_size dev1),
        b_next_end := ?e\<rparr>"
      have step: "pump_step wait launch req n (dev, m) = (if r2 = IOST_OK then Some (Inl (dev2, m1))
          else Some (Inr (err_buf (dev1\<lparr>b_drv := d2\<rparr>) (iost_num r2), dev1\<lparr>b_drv := d2\<rparr>, m1)))"
        using True w(1) ok False l(1) by (simp add: pump_step_def Let_def dev2_def)
      show ?thesis
      proof (cases "r2 = IOST_OK")
        case r2: True
        then have "stream addr lo hi dev2" "remaining hi dev2 < remaining hi dev1"
          using l(2) by (simp_all add: Let_def dev2_def)
        moreover have "b_end dev2 = b_end dev1" "b_consume dev2 = b_consume dev1"
          by (simp_all add: dev2_def)
        ultimately show ?thesis
          using step r2 w d1 by (intro disjI1) (auto simp: delivered_def)
      next
        case False
        then show ?thesis
          using step w err by (intro disjI2) simp
      qed
    qed
  qed
qed

lemma pump_delivers:
  assumes s: "stream addr lo hi dev" "mapped m lo (hi - lo)" "D \<longrightarrow> delivered addr lo dev m"
    and c: "c \<le> b_end dev - b_consume dev"
  shows "\<exists>buf dev' m'. pump wait launch req dev m c n = Some (buf, dev', m') \<and> only_within m m' (b_end dev) hi \<and>
    (buf_error buf \<or> stream addr lo hi dev' \<and> (D \<longrightarrow> delivered addr lo dev' m') \<and> b_consume dev' = b_consume dev + c \<and>
        buf = ok_buf dev' \<and> b_end dev \<le> b_end dev' \<and> (n \<le> buf_size buf \<or> b_end dev' = hi))"
proof -
  let ?dev = "dev\<lparr>b_consume := b_consume dev + c\<rparr>"
  have "stream addr lo hi ?dev" "D \<longrightarrow> delivered addr lo ?dev m"
    using s c by (auto simp: stream_def delivered_def)
  then have i: "stream addr lo hi ?dev \<and> (D \<longrightarrow> delivered addr lo ?dev m) \<and> only_within m m (b_end dev) hi \<and>
      b_consume ?dev = b_consume dev + c \<and> b_end dev \<le> b_end ?dev"
    by simp
  have "\<exists>x. iterate (pump_step wait launch req n) (?dev, m) = Some x \<and>
      (case x of (buf, dev', m') \<Rightarrow> only_within m m' (b_end dev) hi \<and>
        (buf_error buf \<or> stream addr lo hi dev' \<and> (D \<longrightarrow> delivered addr lo dev' m') \<and> b_consume dev' = b_consume dev + c \<and>
        buf = ok_buf dev' \<and> b_end dev \<le> b_end dev' \<and> (n \<le> buf_size buf \<or> b_end dev' = hi)))"
  proof (rule iterate_total [where f = "\<lambda>(d, m). remaining hi d" and I = "\<lambda>(d, m'). stream addr lo hi d \<and>
      (D \<longrightarrow> delivered addr lo d m') \<and> only_within m m' (b_end dev) hi \<and> b_consume d = b_consume dev + c \<and> b_end dev \<le> b_end d"])
    show "case (?dev, m) of (d, m') \<Rightarrow> stream addr lo hi d \<and> (D \<longrightarrow> delivered addr lo d m') \<and>
        only_within m m' (b_end dev) hi \<and> b_consume d = b_consume dev + c \<and> b_end dev \<le> b_end d"
      using i by simp
    fix st :: "'d blockdev \<times> mem"
    assume a: "case st of (d, m') \<Rightarrow> stream addr lo hi d \<and> (D \<longrightarrow> delivered addr lo d m') \<and>
        only_within m m' (b_end dev) hi \<and> b_consume d = b_consume dev + c \<and> b_end dev \<le> b_end d"
    obtain d m1 where st: "st = (d, m1)" by fastforce
    have m1: "mapped m1 lo (hi - lo)"
      using a s(2) st by (auto simp: only_within_mapped)
    have ow: "only_within m m' (b_end dev) hi" if "only_within m1 m' (b_end d) hi" for m'
      using only_within_trans [OF _ that] a st by auto
    show "(\<exists>s'. pump_step wait launch req n st = Some (Inl s') \<and>
        (case s' of (d, m') \<Rightarrow> stream addr lo hi d \<and> (D \<longrightarrow> delivered addr lo d m') \<and>
        only_within m m' (b_end dev) hi \<and> b_consume d = b_consume dev + c \<and> b_end dev \<le> b_end d) \<and>
        (case s' of (d, m) \<Rightarrow> remaining hi d) < (case st of (d, m) \<Rightarrow> remaining hi d)) \<or>
      (\<exists>x. pump_step wait launch req n st = Some (Inr x) \<and>
        (case x of (buf, dev', m') \<Rightarrow> only_within m m' (b_end dev) hi \<and>
        (buf_error buf \<or> stream addr lo hi dev' \<and> (D \<longrightarrow> delivered addr lo dev' m') \<and> b_consume dev' = b_consume dev + c \<and>
        buf = ok_buf dev' \<and> b_end dev \<le> b_end dev' \<and> (n \<le> buf_size buf \<or> b_end dev' = hi))))"
      using pump_step_cases [of addr lo hi d m1 D n] a m1 ow unfolding st by fastforce
  qed
  then show ?thesis
    using c by (auto simp: pump_def)
qed

lemma start_stream:
  assumes "idle (b_drv dev)" "b_block_size dev = 512" "b_end dev = b_next_end dev" "addr < b_num_blocks dev"
    "lo \<le> hi" "lo mod 4 = 0" "(hi - lo) mod 512 = 0" "hi < 0xffe00000" "addr + (hi - lo) div 512 < 2 ^ 32"
  shows "\<exists>dev'. start wait dev m addr lo hi = Some (iost_num IOST_OK, dev', m) \<and> stream addr lo hi dev' \<and>
    delivered addr lo dev' m \<and> ok_buf dev' = \<lparr>buf_start = lo, buf_end = lo\<rparr> \<and> b_end dev' = lo"
proof -
  have "wait_xfer wait dev m = Some (iost_num IOST_OK, dev, m)"
    using assms(1,3) by (simp add: wait_xfer_def wait_idle)
  moreover have "wrap32 addr = addr"
    using assms(9) by simp
  ultimately show ?thesis
    using assms by (simp add: start_def stream_def delivered_def ok_buf_def bytes_at_def medium_bytes_def)
qed

end

text \<open>A driver with this contract makes the pump a transfer in the sense of the decompressor.\<close>

sublocale block_driver \<subseteq> tr: transfer "pump wait launch req" "\<lambda>dev b. stream addr lo hi dev \<and> b = ok_buf dev" lo hi for addr lo hi
proof
  fix dev b assume "stream addr lo hi dev \<and> b = ok_buf dev"
  then show "lo \<le> buf_start b \<and> buf_start b \<le> buf_end b \<and> buf_end b \<le> hi"
    by (auto simp: stream_def ok_buf_def)
next
  fix dev b m c n
  assume a: "stream addr lo hi dev \<and> b = ok_buf dev" "mapped m lo (hi - lo)" "c \<le> buf_size b"
  then have "c \<le> b_end dev - b_consume dev"
    by (simp add: buf_size_def ok_buf_def)
  note p = pump_delivers [OF conjunct1 [OF a(1)] a(2), of False c n, simplified, OF this]
  from p show "\<exists>b' a' m'. pump wait launch req dev m c n = Some (b', a', m')"
    by blast
  fix b' a' m' assume r: "pump wait launch req dev m c n = Some (b', a', m')"
  then show "only_within m m' (buf_end b) hi"
    using p a(1) by (auto simp: ok_buf_def)
  assume "\<not> buf_error b'"
  then show "(stream addr lo hi a' \<and> b' = ok_buf a') \<and> buf_start b' = buf_start b + c \<and> buf_end b \<le> buf_end b'"
    using p r a(1) by (auto simp: ok_buf_def)
qed

section \<open>Streams of pump calls\<close>

text \<open>A client that consumes and asks for bytes in any pattern, until an error is reported.\<close>

fun pumps :: "'a pump_fn \<Rightarrow> 'a \<Rightarrow> mem \<Rightarrow> async_buf \<Rightarrow> (nat \<times> nat) list \<Rightarrow> (async_buf \<times> 'a \<times> mem) option" where
  "pumps p a m b [] = Some (b, a, m)"
| "pumps p a m b ((c, n) # cs) =
    (if buf_error b then Some (b, a, m)
     else do {
       (b, a, m) \<leftarrow> p a m (min c (buf_size b)) n;
       pumps p a m b cs
     })"

context block_driver
begin

lemma pumps_deliver:
  assumes "stream addr lo hi dev" "mapped m lo (hi - lo)" "delivered addr lo dev m"
  shows "\<exists>b' dev' m'. pumps (pump wait launch req) dev m (ok_buf dev) cs = Some (b', dev', m') \<and>
    only_within m m' (b_end dev) hi \<and>
    (buf_error b' \<or> stream addr lo hi dev' \<and> delivered addr lo dev' m' \<and> b' = ok_buf dev' \<and> b_consume dev \<le> b_consume dev')"
  using assms
proof (induction cs arbitrary: dev m)
  case Nil
  then show ?case by simp
next
  case (Cons cn cs)
  obtain c n where cn: "cn = (c, n)" by fastforce
  let ?c = "min c (buf_size (ok_buf dev))"
  have "?c \<le> b_end dev - b_consume dev"
    by (simp add: buf_size_def ok_buf_def)
  from pump_delivers [OF Cons(2,3) _ this, of True n] Cons(4)
  obtain b1 dev1 m1 where p: "pump wait launch req dev m ?c n = Some (b1, dev1, m1)" "only_within m m1 (b_end dev) hi"
    "buf_error b1 \<or> stream addr lo hi dev1 \<and> delivered addr lo dev1 m1 \<and> b_consume dev1 = b_consume dev + ?c \<and>
      b1 = ok_buf dev1 \<and> b_end dev \<le> b_end dev1"
    by auto
  have ne: "\<not> buf_error (ok_buf dev)"
    using Cons(2) by (simp add: stream_def buf_error_def ok_buf_def)
  show ?case
  proof (cases "buf_error b1")
    case True
    then have "pumps (pump wait launch req) dev1 m1 b1 cs = Some (b1, dev1, m1)"
      by (cases cs) auto
    then show ?thesis
      using p(1,2) ne True by (simp add: cn)
  next
    case False
    then have d1: "stream addr lo hi dev1" "delivered addr lo dev1 m1" "b1 = ok_buf dev1" "b_end dev \<le> b_end dev1"
      "b_consume dev \<le> b_consume dev1"
      using p(3) by auto
    have "mapped m1 lo (hi - lo)"
      using Cons(3) by (simp add: only_within_mapped [OF p(2)])
    from Cons.IH [OF d1(1) this d1(2)] show ?thesis
      using p(1,2) ne d1 only_within_trans [OF p(2) _ d1(4)] by (fastforce simp: cn)
  qed
qed

lemma start_pumps:
  assumes dev: "idle (b_drv dev)" "b_block_size dev = 512" "b_end dev = b_next_end dev"
    and rng: "addr < b_num_blocks dev" "lo \<le> hi" "lo mod 4 = 0" "(hi - lo) mod 512 = 0" "hi < 0xffe00000"
      "addr + (hi - lo) div 512 < 2 ^ 32" "mapped m lo (hi - lo)"
  shows "\<exists>dev1 b dev2 m2. start wait dev m addr lo hi = Some (iost_num IOST_OK, dev1, m) \<and>
    pumps (pump wait launch req) dev1 m \<lparr>buf_start = lo, buf_end = lo\<rparr> cs = Some (b, dev2, m2) \<and>
    only_within m m2 lo hi \<and>
    (buf_error b \<or> lo \<le> buf_start b \<and> buf_start b \<le> buf_end b \<and> buf_end b \<le> hi \<and>
       bytes_at m2 (buf_start b) (buf_size b) = medium_bytes disk (512 * addr + (buf_start b - lo)) (buf_size b))"
proof -
  obtain dev1 where d1: "start wait dev m addr lo hi = Some (iost_num IOST_OK, dev1, m)" "stream addr lo hi dev1"
    "delivered addr lo dev1 m" "ok_buf dev1 = \<lparr>buf_start = lo, buf_end = lo\<rparr>" "b_end dev1 = lo"
    using start_stream [OF dev rng(1-6)] by blast
  obtain b dev2 m2 where p: "pumps (pump wait launch req) dev1 m (ok_buf dev1) cs = Some (b, dev2, m2)"
    "only_within m m2 lo hi" "buf_error b \<or> stream addr lo hi dev2 \<and> delivered addr lo dev2 m2 \<and> b = ok_buf dev2"
    using pumps_deliver [OF d1(2) rng(7) d1(3)] d1(5) by metis
  have "bytes_at m2 (buf_start b) (buf_size b) = medium_bytes disk (512 * addr + (buf_start b - lo)) (buf_size b)"
    if "stream addr lo hi dev2" "delivered addr lo dev2 m2" "b = ok_buf dev2"
  proof -
    define k l where "k = b_consume dev2 - lo" and "l = b_end dev2 - b_consume dev2"
    have e: "b_end dev2 - lo = k + l" "b_consume dev2 = lo + k"
      using that(1) by (auto simp: stream_def k_def l_def)
    have "bytes_at m2 lo k @ bytes_at m2 (lo + k) l = medium_bytes disk (512 * addr) k @ medium_bytes disk (512 * addr + k) l"
      using that(2) by (simp add: delivered_def e(1) bytes_at_append medium_bytes_append)
    then have "bytes_at m2 (lo + k) l = medium_bytes disk (512 * addr + k) l"
      by simp
    then show ?thesis
      using that(3) e by (simp add: ok_buf_def buf_size_def l_def)
  qed
  moreover have "lo \<le> buf_start b \<and> buf_start b \<le> buf_end b \<and> buf_end b \<le> hi" if "stream addr lo hi dev2" "b = ok_buf dev2"
    using that by (auto simp: stream_def ok_buf_def)
  ultimately show ?thesis
    using d1(1,4) p by auto
qed

end


text \<open>A controller that performs every read, and a device with four blocks of buffer.\<close>

definition sample_disk :: "nat \<Rightarrow> u8" where
  "sample_disk i = of_nat (i div 512 + i)"

definition sample_sdhci :: "(nat \<Rightarrow> u8) \<Rightarrow> sdhci_hw" where
  "sample_sdhci disk = \<lparr>hw_inhibit = (\<lambda>_. IOST_OK),
     hw_read = (\<lambda>arg cnt ds m. (SDHCI_INT_XFER_COMPLETE,
       mem_write m (fst (adma2_seg (hd ds))) (medium_bytes disk (512 * unat arg) (512 * unat cnt))))\<rparr>"

lemma mem_write_within:
  "mapped m a (length bs) \<Longrightarrow> only_within m (mem_write m a bs) a (a + length bs)"
  by (auto simp: only_within_def mem_write_def mapped_def dom_def)

lemma bytes_at_mem_write: "bytes_at (mem_write m a bs) a (length bs) = bs"
  by (rule nth_equalityI) (simp_all add: bytes_at_def mem_write_def)

lemma covers_le: "covers ss a b \<Longrightarrow> a \<le> b"
  by (induction ss a b rule: covers.induct) auto

lemma sample_sdhci_ok: "sdhci_hw_ok disk (sample_sdhci disk)"
  unfolding sdhci_hw_ok_def
proof (intro allI impI)
  fix arg cnt :: u32 and ds m a b
  assume t: "adma2_table ds a b" and n: "b - a = 512 * unat cnt" and m: "mapped m a (b - a)"
  have c: "covers (map adma2_seg ds) a b" "ds \<noteq> []"
    using t by (simp_all add: adma2_table_def)
  have a: "fst (adma2_seg (hd ds)) = a" "a \<le> b"
    using c covers_le [OF c(1)] by (cases ds; cases "adma2_seg (hd ds)"; simp)+
  let ?bs = "medium_bytes disk (512 * unat arg) (512 * unat cnt)"
  have "b = a + length ?bs" using n a(2) by simp
  then have "only_within m (mem_write m a ?bs) a b"
    using mem_write_within [of m a ?bs] m n by simp
  moreover have "bytes_at (mem_write m a ?bs) a (b - a) = ?bs"
    using bytes_at_mem_write [of m a ?bs] n by simp
  ultimately show "let (int_st, m') = hw_read (sample_sdhci disk) arg cnt ds m in only_within m m' a b \<and>
      (int_st AND SDHCI_INT_XFER_COMPLETE \<noteq> 0 \<or> drop_bit 16 int_st \<noteq> 0) \<and>
      (drop_bit 16 int_st = 0 \<longrightarrow> bytes_at m' a (b - a) = medium_bytes disk (512 * unat arg) (b - a))"
    using a(1) n by (simp add: sample_sdhci_def Let_def SDHCI_INT_XFER_COMPLETE_def)
qed

definition sample_blockdev :: "'d \<Rightarrow> 'd blockdev" where
  "sample_blockdev d = \<lparr>b_block_size = 512, b_num_blocks = 1000, b_consume = 0, b_end = 0, b_next_end = 0, b_stop = 0,
     b_next_lba = 0, b_iost_u8 = 16, b_drv = d\<rparr>"

definition sample_emmc :: "(nat \<Rightarrow> u8) \<Rightarrow> emmc_drv" where
  "sample_emmc disk = (\<lparr>ss_int_st = 0, ss_active = False, ss_block_count = 0, ss_arg2 = 0, ss_arg = 0, ss_waits = 0,
      ss_hw = sample_sdhci disk\<rparr>,
    \<lparr>sx_status = 0, sx_desc8 = replicate 32 (0, 0), sx_desc_cap = 32, sx_desc_size = 0, sx_xfer_bytes = 0\<rparr>)"

definition zero_mem :: mem where
  "zero_mem = (\<lambda>x. if x < 0x10000 then Some 0 else None)"

lemma zero_mem_mapped: "a + n \<le> 0x10000 \<Longrightarrow> mapped zero_mem a n"
  by (auto simp: mapped_def zero_mem_def)

lemma sample_emmc_idle: "sdhci_idle disk (fst (sample_emmc disk)) (snd (sample_emmc disk))" "32 \<le> sx_desc_cap (snd (sample_emmc disk))"
  by (simp_all add: sample_emmc_def sdhci_idle_def sample_sdhci_ok)


text \<open>
  The same holds for reading from an SD card.\<close>

theorem sd_stream_reads:
  assumes dev: "b_drv dev = (st, x)" "dwmmc_idle disk st x" "64 \<le> dx_desc_cap x" "b_block_size dev = 512"
      "b_end dev = b_next_end dev"
    and rng: "addr < b_num_blocks dev" "lo \<le> hi" "lo mod 4 = 0" "(hi - lo) mod 512 = 0" "hi < 0xffe00000"
      "addr + (hi - lo) div 512 < 2 ^ 32" "mapped m lo (hi - lo)"
  shows "\<exists>dev1 b dev2 m2. sd_start dev m addr lo hi = Some (iost_num IOST_OK, dev1, m) \<and>
    pumps sd_pump dev1 m \<lparr>buf_start = lo, buf_end = lo\<rparr> cs = Some (b, dev2, m2) \<and> only_within m m2 lo hi \<and>
    (buf_error b \<or> lo \<le> buf_start b \<and> buf_start b \<le> buf_end b \<and> buf_end b \<le> hi \<and>
       bytes_at m2 (buf_start b) (buf_size b) = medium_bytes disk (512 * addr + (buf_start b - lo)) (buf_size b))"
  unfolding sd_start_def sd_pump_def
  by (rule sd.start_pumps) (use assms in auto)

definition sample_dwmmc :: dwmmc_hw where
  "sample_dwmmc = \<lparr>dw_ack = (\<lambda>_. True),
     dw_read = (\<lambda>arg n ds m. ((0, 0, 0),
       mem_write m (unat (dd_ptr1 (hd ds))) (medium_bytes sample_disk (512 * unat arg) n)))\<rparr>"

lemma sample_dwmmc_ok: "dwmmc_hw_ok sample_disk sample_dwmmc"
  unfolding dwmmc_hw_ok_def
proof (intro allI impI)
  fix arg :: u32 and ds m a b
  assume t: "idmac_table ds a b" and m: "mapped m a (b - a)"
  have c: "covers (concat (map idmac_segs ds)) a b" "ds \<noteq> []"
    using t by (simp_all add: idmac_table_def)
  have a: "unat (dd_ptr1 (hd ds)) = a" "a \<le> b"
    using c covers_le [OF c(1)] by (cases ds; simp add: idmac_segs_def)+
  let ?bs = "medium_bytes sample_disk (512 * unat arg) (b - a)"
  have "only_within m (mem_write m a ?bs) a b"
    using mem_write_within [of m a ?bs] m a(2) by simp
  moreover have "bytes_at (mem_write m a ?bs) a (b - a) = ?bs"
    using bytes_at_mem_write [of m a ?bs] by simp
  ultimately show "case dw_read sample_dwmmc arg (b - a) ds m of ((rintsts, idmac_st, status), m') \<Rightarrow>
      only_within m m' a b \<and>
      (drop_bit 13 idmac_st AND 15 < 2 \<and> status AND DWMMC_STATUS_DATA_SM_BUSY = 0 \<or>
       rintsts AND DWMMC_ERROR_INT_MASK \<noteq> 0) \<and>
      (rintsts AND DWMMC_ERROR_INT_MASK = 0 \<longrightarrow> idmac_st AND DWMMC_IDMAC_INTMASK_ABNORMAL = 0 \<longrightarrow>
       bytes_at m' a (b - a) = medium_bytes sample_disk (512 * unat arg) (b - a))"
    using a(1) by (simp add: sample_dwmmc_def)
qed

definition sample_sd :: sd_drv where
  "sample_sd = (\<lparr>ds_int_st = 0x1000c, ds_idmac_st = 0, ds_active = False, ds_bytcnt = 0, ds_cmdarg = 0, ds_cmds = 0,
      ds_hw = sample_dwmmc\<rparr>,
    \<lparr>dx_status = 0, dx_always_use_chaining = False, dx_second_buf = False, dx_block_addr = 0, dx_desc_cap = 64,
     dx_desc_size = 0, dx_xfer_bytes = 0, dx_desc_ptr = 0x20000,
     dx_desc = replicate 64 \<lparr>dd_control = 0, dd_sizes = 0, dd_ptr1 = 0, dd_ptr2 = 0\<rparr>\<rparr>)"

lemma sample_sd_idle: "dwmmc_idle sample_disk (fst sample_sd) (snd sample_sd)" "64 \<le> dx_desc_cap (snd sample_sd)"
  by (simp_all add: sample_sd_def dwmmc_idle_def sample_dwmmc_ok)

theorem sd_stream_reads_witness:
  "\<exists>dev1 b dev2 m2. sd_start (sample_blockdev sample_sd) zero_mem 7 0x1000 0x1800 = Some (iost_num IOST_OK, dev1, zero_mem) \<and>
    pumps sd_pump dev1 zero_mem \<lparr>buf_start = 0x1000, buf_end = 0x1000\<rparr> [(0, 600), (600, 100)] = Some (b, dev2, m2) \<and> only_within zero_mem m2 0x1000 0x1800 \<and>
    (buf_error b \<or> 0x1000 \<le> buf_start b \<and> buf_start b \<le> buf_end b \<and> buf_end b \<le> 0x1800 \<and>
      bytes_at m2 (buf_start b) (buf_size b) = medium_bytes sample_disk (512 * 7 + (buf_start b - 0x1000)) (buf_size b))"
proof -
  have d: "b_drv (sample_blockdev sample_sd) = (fst sample_sd, snd sample_sd)"
    by (simp add: sample_blockdev_def)
  show ?thesis
    by (rule sd_stream_reads [OF d sample_sd_idle]) (simp_all add: sample_blockdev_def zero_mem_mapped)
qed

section \<open>Decompression from a block device\<close>

interpretation lz4_emmc: decode_driver lz4_decode lz4_null lz4_dstate lz4_wf emmc_pump
    "\<lambda>dev b. emmc.stream disk addr lo hi dev \<and> b = ok_buf dev" lo hi for disk addr lo hi
  unfolding emmc_pump_def by unfold_locales



end
