(* ===== verification/Boot_Gpt.thy ===== *)
theory Boot_Gpt
  imports Blockdev
begin

text \<open>
  Booting from a block device, dramstage/boot\_blockdev.c: the protective MBR and the GPT
  header are checked, the partition entries are scanned for the three payload partition
  types, one of them is chosen, and the payload is read and decompressed.  The device is
  given by its start and pump functions, the decompression of the payload by a function
  that consumes the transfer.  Messages are left out.
\<close>

section \<open>The code\<close>

type_synonym 'a start_fn = "'a \<Rightarrow> mem \<Rightarrow> nat \<Rightarrow> nat \<Rightarrow> nat \<Rightarrow> (nat \<times> 'a \<times> mem) option"

record 'a blkops =
  bo_pump :: "'a pump_fn"
  bo_start :: "'a start_fn"
  bo_block_size :: nat
  bo_num_blocks :: u64

definition PARTITION_TABLE_SIZE :: nat where "PARTITION_TABLE_SIZE = 16384"

text \<open>Subtraction of u32 values.\<close>

definition sub32 :: "nat \<Rightarrow> nat \<Rightarrow> nat" where
  "sub32 a b = (if b \<le> a then a - b else 4294967296 + a - b)"

definition load_le32 :: "mem \<Rightarrow> nat \<Rightarrow> u32 option" where
  "load_le32 m p = load_le 4 m p"

definition load_le64 :: "mem \<Rightarrow> nat \<Rightarrow> u64 option" where
  "load_le64 m p = load_le 8 m p"

definition load_be64 :: "mem \<Rightarrow> nat \<Rightarrow> u64 option" where
  "load_be64 m p = map_option (\<lambda>bs. le_word (rev bs)) (load_bytes m p 8)"

text \<open>The master boot record: signature and an entry of type 0xee.\<close>

definition mbr_has_gpt :: "mem \<Rightarrow> nat \<Rightarrow> bool option" where
  "mbr_has_gpt m p = do {
     a \<leftarrow> load8 m (p + 510);
     b \<leftarrow> (if a \<noteq> 0x55 then Some 0 else load8 m (p + 511));
     if a \<noteq> 0x55 \<or> b \<noteq> 0xaa then Some False
     else do {
       t0 \<leftarrow> load8 m (p + 446 + 4);
       t1 \<leftarrow> load8 m (p + 446 + 16 + 4);
       t2 \<leftarrow> load8 m (p + 446 + 32 + 4);
       t3 \<leftarrow> load8 m (p + 446 + 48 + 4);
       Some (0xee \<in> {t0, t1, t2, t3})
     }
   }"

text \<open>The header: None stands for a fault, Inl for a rejected header; otherwise the last usable
  block and the number of entries.\<close>

definition check_header :: "'a blkops \<Rightarrow> mem \<Rightarrow> nat \<Rightarrow> (unit + u64 \<times> u32) option" where
  "check_header blk m p = do {
     sig \<leftarrow> load_le64 m p;
     ver \<leftarrow> load_le32 m (p + 8);
     hsize \<leftarrow> load_le32 m (p + 12);
     cur \<leftarrow> load_le64 m (p + 24);
     backup_lba \<leftarrow> load_le64 m (p + 32);
     first_usable_lba \<leftarrow> load_le64 m (p + 40);
     last_usable_lba \<leftarrow> load_le64 m (p + 48);
     num_partition_entries \<leftarrow> load_le32 m (p + 80);
     let entries_per_block = (of_nat (bo_block_size blk div 128) :: u32);
     let partition_table_size = num_partition_entries div entries_per_block;
     if sig \<noteq> 0x5452415020494645 then Some (Inl ())
     else if ver \<noteq> 0x00010000 then Some (Inl ())
     else if hsize \<noteq> 92 then Some (Inl ())
     else if cur \<noteq> 1 then Some (Inl ())
     else if backup_lba \<noteq> bo_num_blocks blk - 1 then Some (Inl ())
     else if first_usable_lba < ucast (2 + partition_table_size) then Some (Inl ())
     else if last_usable_lba > bo_num_blocks blk - 2 - ucast partition_table_size then Some (Inl ())
     else if num_partition_entries > 0x10000 then Some (Inl ())
     else Some (Inr (last_usable_lba, num_partition_entries))
   }"

text \<open>The payload partitions found so far, at most one per type.\<close>

record scan =
  sc_mask :: u32
  sc_first :: "nat \<Rightarrow> u64 option"
  sc_last :: "nat \<Rightarrow> u64 option"

definition entry_index :: "u64 \<Rightarrow> u64 \<Rightarrow> nat" where
  "entry_index head tail =
    (if head = 0x4b78d766c195cc59 \<and> tail = 0x813fa0e1519099d8 then 2
     else if head = 0x4b6dc9205f04b556 \<and> tail = 0xbd77804efe6fae01 then 1
     else if head = 0x46f68e5ee5ab07a0 \<and> tail = 0x9ce841a518929b7c then 0
     else 3)"

text \<open>One entry, given its type, first and last block.\<close>

definition scan_entry :: "u64 \<Rightarrow> u64 \<Rightarrow> u64 \<Rightarrow> u64 \<Rightarrow> u64 \<Rightarrow> scan \<Rightarrow> scan" where
  "scan_entry last_usable_lba head tail first lst sc =
    (let index = entry_index head tail
     in if index \<ge> 3 then sc
        else if sc_mask sc AND push_bit index 1 \<noteq> 0 then sc
        else let sc = sc\<lparr>sc_first := (sc_first sc)(index \<mapsto> first), sc_last := (sc_last sc)(index \<mapsto> lst)\<rparr>
             in if first > lst \<or> lst > last_usable_lba then sc
                else sc\<lparr>sc_mask := sc_mask sc OR push_bit index 1\<rparr>)"

definition scan_at :: "u64 \<Rightarrow> mem \<Rightarrow> nat \<Rightarrow> scan \<Rightarrow> scan option" where
  "scan_at last_usable_lba m p sc = do {
     guid \<leftarrow> load_bytes m p 16;
     if \<forall>b \<in> set guid. b = 0 then Some sc
     else do {
       head \<leftarrow> load_le64 m p;
       tail \<leftarrow> load_be64 m (p + 8);
       first \<leftarrow> load_le64 m (p + 32);
       lst \<leftarrow> load_le64 m (p + 40);
       Some (scan_entry last_usable_lba head tail first lst sc)
     }
   }"

text \<open>Making sure that entry i is in the buffer.\<close>

definition refill :: "'a blkops \<Rightarrow> nat \<Rightarrow> nat \<Rightarrow> async_buf \<Rightarrow> 'a \<Rightarrow> mem \<Rightarrow> (nat \<times> async_buf \<times> 'a \<times> mem) option" where
  "refill blk ptb i buf a m =
    (if buf_size buf < 128 then do {
       (res, a, m) \<leftarrow> bo_start blk a m (2 + i div (bo_block_size blk div 128)) ptb (ptb + PARTITION_TABLE_SIZE);
       if res \<noteq> iost_num IOST_OK then Some (res, buf, a, m)
       else do {
         (buf, a, m) \<leftarrow> bo_pump blk a m 0 128;
         if buf_error buf then Some (buf_code buf, buf, a, m) else Some (iost_num IOST_OK, buf, a, m)
       }
     } else Some (iost_num IOST_OK, buf, a, m))"

text \<open>The loop over the entries, with the number of entries left; Inl is an error code.\<close>

fun scan_loop :: "'a blkops \<Rightarrow> nat \<Rightarrow> u64 \<Rightarrow> nat \<Rightarrow> nat \<Rightarrow> async_buf \<Rightarrow> 'a \<Rightarrow> mem \<Rightarrow> scan \<Rightarrow>
    ((nat + scan) \<times> 'a \<times> mem) option" where
  "scan_loop blk ptb lu i 0 buf a m sc = Some (Inr sc, a, m)"
| "scan_loop blk ptb lu i (Suc k) buf a m sc =
    (if buf_error buf then Some (Inl (buf_code buf), a, m)
     else do {
       (res, buf, a, m) \<leftarrow> refill blk ptb i buf a m;
       if res \<noteq> iost_num IOST_OK then Some (Inl res, a, m)
       else do {
         sc \<leftarrow> scan_at lu m (buf_start buf) sc;
         (buf, a, m) \<leftarrow> bo_pump blk a m 128 (if k \<noteq> 0 then 128 else 0);
         scan_loop blk ptb lu (i + 1) k buf a m sc
       }
     })"

definition used_index :: "u32 \<Rightarrow> nat" where
  "used_index msk = (if msk = 4 \<or> msk = 5 then 2 else if msk = 2 \<or> msk = 6 then 1 else 0)"

text \<open>
  boot\_blockdev up to the choice of the partition: an error code, or the first block of the
  payload partition.  The entries, once the header is accepted:
\<close>

definition find_in_entries :: "'a blkops \<Rightarrow> nat \<Rightarrow> u64 \<Rightarrow> u32 \<Rightarrow> 'a \<Rightarrow> mem \<Rightarrow> ((nat + u64) \<times> 'a \<times> mem) option" where
  "find_in_entries blk ptb last_usable_lba num_partition_entries a m = do {
     (buf, a, m) \<leftarrow> bo_pump blk a m (bo_block_size blk) 128;
     if buf_error buf then Some (Inl (buf_code buf), a, m)
     else do {
       (r, a, m) \<leftarrow> scan_loop blk ptb last_usable_lba 0 (unat num_partition_entries) buf a m
         \<lparr>sc_mask = 0, sc_first = Map.empty, sc_last = Map.empty\<rparr>;
       case r of
         Inl code \<Rightarrow> Some (Inl code, a, m)
       | Inr sc \<Rightarrow>
           if sc_mask sc = 0 then Some (Inl (iost_num IOST_INVALID), a, m)
           else do {
             used_first \<leftarrow> sc_first sc (used_index (sc_mask sc));
             used_last \<leftarrow> sc_last sc (used_index (sc_mask sc));
             Some (Inr used_first, a, m)
           }
     }
   }"

text \<open>The header, once the master boot record is accepted:\<close>

definition find_in_table :: "'a blkops \<Rightarrow> nat \<Rightarrow> 'a \<Rightarrow> mem \<Rightarrow> ((nat + u64) \<times> 'a \<times> mem) option" where
  "find_in_table blk ptb a m = do {
     (buf, a, m) \<leftarrow> bo_pump blk a m 512 (sub32 (2 * bo_block_size blk) 512);
     if buf_error buf then Some (Inl (buf_code buf), a, m)
     else do {
       hdr \<leftarrow> check_header blk m (buf_start buf + sub32 (bo_block_size blk) 512);
       case hdr of
         Inl _ \<Rightarrow> Some (Inl (iost_num IOST_INVALID), a, m)
       | Inr (last_usable_lba, num_partition_entries) \<Rightarrow>
           find_in_entries blk ptb last_usable_lba num_partition_entries a m
     }
   }"

definition find_payload :: "'a blkops \<Rightarrow> nat \<Rightarrow> 'a \<Rightarrow> mem \<Rightarrow> ((nat + u64) \<times> 'a \<times> mem) option" where
  "find_payload blk ptb a m = do {
     let bs = bo_block_size blk;
     if \<not> (bs \<le> 8192 \<and> bs \<ge> 128) \<or> \<not> bs mod 128 = 0 then None
     else do {
       (res, a, m) \<leftarrow> bo_start blk a m 0 ptb (ptb + PARTITION_TABLE_SIZE);
       if res \<noteq> iost_num IOST_OK then Some (Inl res, a, m)
       else do {
         (buf, a, m) \<leftarrow> bo_pump blk a m 0 bs;
         if buf_error buf then Some (Inl (buf_code buf), a, m)
         else do {
           gpt \<leftarrow> mbr_has_gpt m (buf_start buf);
           if \<not> gpt then Some (Inl (iost_num IOST_INVALID), a, m)
           else find_in_table blk ptb a m
         }
       }
     }
   }"

definition boot_blockdev :: "'a blkops \<Rightarrow> nat \<Rightarrow> ('a \<Rightarrow> mem \<Rightarrow> (nat \<times> 'a \<times> mem) option) \<Rightarrow> nat \<Rightarrow> nat \<Rightarrow> 'a \<Rightarrow> mem \<Rightarrow>
    (nat \<times> 'a \<times> mem) option" where
  "boot_blockdev blk ptb decompress_payload blob_start blob_end a m = do {
     (r, a, m) \<leftarrow> find_payload blk ptb a m;
     case r of
       Inl code \<Rightarrow> Some (code, a, m)
     | Inr used_first \<Rightarrow> do {
         (res, a, m) \<leftarrow> bo_start blk a m (unat used_first) blob_start blob_end;
         if res \<noteq> iost_num IOST_OK then Some (res, a, m)
         else do {
           (res, a, m) \<leftarrow> decompress_payload a m;
           if res \<noteq> iost_num IOST_OK then Some (iost_num IOST_INVALID, a, m)
           else Some (iost_num IOST_OK, a, m)
         }
       }
   }"

section \<open>The specification\<close>

text \<open>
  What is on the medium, block size 512: entry i of the table is at byte 1024 + 128 * i.
\<close>

definition disk_le64 :: "(nat \<Rightarrow> u8) \<Rightarrow> nat \<Rightarrow> u64" where
  "disk_le64 disk p = le_word (medium_bytes disk p 8)"

definition disk_le32 :: "(nat \<Rightarrow> u8) \<Rightarrow> nat \<Rightarrow> u32" where
  "disk_le32 disk p = le_word (medium_bytes disk p 4)"

definition gpt_entry :: "(nat \<Rightarrow> u8) \<Rightarrow> u64 \<Rightarrow> nat \<Rightarrow> scan \<Rightarrow> scan" where
  "gpt_entry disk lu i sc =
    (let p = 1024 + 128 * i
     in if \<forall>b \<in> set (medium_bytes disk p 16). b = 0 then sc
        else scan_entry lu (disk_le64 disk p) (le_word (rev (medium_bytes disk (p + 8) 8)))
               (disk_le64 disk (p + 32)) (disk_le64 disk (p + 40)) sc)"

definition gpt_scan :: "(nat \<Rightarrow> u8) \<Rightarrow> u64 \<Rightarrow> nat \<Rightarrow> scan" where
  "gpt_scan disk lu n = fold (gpt_entry disk lu) [0..<n] \<lparr>sc_mask = 0, sc_first = Map.empty, sc_last = Map.empty\<rparr>"

definition gpt_header_valid :: "(nat \<Rightarrow> u8) \<Rightarrow> u64 \<Rightarrow> bool" where
  "gpt_header_valid disk num_blocks \<longleftrightarrow>
     disk_le64 disk 512 = 0x5452415020494645 \<and> disk_le32 disk 520 = 0x00010000 \<and> disk_le32 disk 524 = 92 \<and>
     disk_le64 disk 536 = 1 \<and> disk_le64 disk 544 = num_blocks - 1 \<and>
     ucast (2 + disk_le32 disk 592 div 4) \<le> disk_le64 disk 552 \<and>
     disk_le64 disk 560 \<le> num_blocks - 2 - ucast (disk_le32 disk 592 div 4) \<and> disk_le32 disk 592 \<le> 0x10000"

definition gpt_valid :: "(nat \<Rightarrow> u8) \<Rightarrow> u64 \<Rightarrow> bool" where
  "gpt_valid disk num_blocks \<longleftrightarrow>
     disk 510 = 0x55 \<and> disk 511 = 0xaa \<and> 0xee \<in> {disk 450, disk 466, disk 482, disk 498} \<and>
     gpt_header_valid disk num_blocks"

text \<open>The first block of the payload partition of a medium.\<close>

definition gpt_choice :: "(nat \<Rightarrow> u8) \<Rightarrow> u64 option" where
  "gpt_choice disk =
    (let sc = gpt_scan disk (disk_le64 disk 560) (unat (disk_le32 disk 592))
     in if sc_mask sc = 0 then None else sc_first sc (used_index (sc_mask sc)))"

definition gpt_payload :: "(nat \<Rightarrow> u8) \<Rightarrow> u64 \<Rightarrow> u64 option" where
  "gpt_payload disk num_blocks = (if gpt_valid disk num_blocks then gpt_choice disk else None)"

text \<open>Every type marked as found has a range of usable blocks.\<close>

definition scan_ok :: "u64 \<Rightarrow> scan \<Rightarrow> bool" where
  "scan_ok lu sc \<longleftrightarrow> sc_mask sc < 8 \<and>
     (\<forall>i < 3. bit (sc_mask sc) i \<longrightarrow> (\<exists>f l. sc_first sc i = Some f \<and> sc_last sc i = Some l \<and> f \<le> l \<and> l \<le> lu))"

lemma u32_less_8: "(w :: u32) < 8 \<longleftrightarrow> take_bit 3 w = w"
proof -
  have "take_bit 3 w = w \<longleftrightarrow> take_bit 3 (unat w) = unat w"
    by (metis unsigned_take_bit_eq word_unat_eq_iff)
  then show ?thesis
    by (simp add: take_bit_nat_eq_self_iff word_less_nat_alt)
qed

lemma scan_entry_ok:
  assumes "scan_ok lu sc"
  shows "scan_ok lu (scan_entry lu head tail f l sc)"
proof (cases "entry_index head tail \<ge> 3 \<or> sc_mask sc AND push_bit (entry_index head tail) 1 \<noteq> 0")
  case True
  then show ?thesis
    using assms by (auto simp: scan_entry_def Let_def)
next
  case False
  define j where "j = entry_index head tail"
  have j: "j < 3" "\<not> bit (sc_mask sc) j"
    using False by (auto simp: j_def and_exp_eq_0_iff_not_bit push_bit_of_1)
  have mk: "take_bit 3 (sc_mask sc OR push_bit j 1) = sc_mask sc OR push_bit j 1"
  proof -
    have "j = 0 \<or> j = 1 \<or> j = 2" using j(1) by auto
    then show ?thesis
      using assms by (auto simp: scan_ok_def u32_less_8)
  qed
  have bits: "bit (sc_mask sc OR push_bit j 1) i \<longleftrightarrow> bit (sc_mask sc) i \<or> i = j" if "i < 3" for i
    using that by (auto simp: bit_or_iff push_bit_of_1 bit_exp_iff)
  have "scan_entry lu head tail f l sc =
      (let sc' = sc\<lparr>sc_first := (sc_first sc)(j \<mapsto> f), sc_last := (sc_last sc)(j \<mapsto> l)\<rparr>
       in if f > l \<or> l > lu then sc' else sc'\<lparr>sc_mask := sc_mask sc OR push_bit j 1\<rparr>)"
    using False by (simp add: scan_entry_def j_def Let_def)
  then show ?thesis
    using assms j mk bits by (auto simp: scan_ok_def u32_less_8 Let_def)
qed

lemma gpt_scan_ok: "scan_ok lu (fold (gpt_entry disk lu) xs sc)" if "scan_ok lu sc"
  using that by (induction xs arbitrary: sc) (auto simp: gpt_entry_def Let_def scan_entry_ok)

lemma used_index_found:
  assumes "scan_ok lu sc" "sc_mask sc \<noteq> 0"
  shows "\<exists>f l. sc_first sc (used_index (sc_mask sc)) = Some f \<and> sc_last sc (used_index (sc_mask sc)) = Some l \<and> f \<le> l \<and> l \<le> lu"
proof -
  have "unat (sc_mask sc) < 8"
    using assms(1) by (simp add: scan_ok_def word_less_nat_alt)
  then have "unat (sc_mask sc) \<in> {0, 1, 2, 3, 4, 5, 6, 7}"
    by auto
  then have "of_nat (unat (sc_mask sc)) \<in> (of_nat :: nat \<Rightarrow> u32) ` {0, 1, 2, 3, 4, 5, 6, 7}"
    by (rule imageI)
  then have "sc_mask sc \<in> {0, 1, 2, 3, 4, 5, 6, 7}"
    by simp
  then have "used_index (sc_mask sc) < 3 \<and> bit (sc_mask sc) (used_index (sc_mask sc))"
    using assms(2) by (auto simp: used_index_def bit_numeral_rec)
  then show ?thesis
    using assms(1) by (auto simp: scan_ok_def)
qed

section \<open>The scan sees the entries of the medium\<close>

lemma take_drop_medium: "take n (drop k (medium_bytes disk p l)) = medium_bytes disk (p + k) n" if "k + n \<le> l"
  using that by (intro nth_equalityI) (auto simp: medium_bytes_def add.assoc)

context block_driver
begin

lemma stream_load:
  assumes "stream addr lo hi dev" "mapped m lo (hi - lo)" "delivered addr lo dev m" "k + n \<le> b_end dev - lo"
  shows "load_bytes m (lo + k) n = Some (medium_bytes disk (512 * addr + k) n)"
proof -
  have "b_end dev \<le> hi" using assms(1) by (auto simp: stream_def)
  then have "mapped m (lo + k) n"
    by (intro mapped_sub [OF assms(2)]) (use assms(4) in auto)
  moreover have "bytes_at m (lo + k) n = take n (drop k (bytes_at m lo (b_end dev - lo)))"
    using assms(4) by (intro nth_equalityI) (auto simp: bytes_at_def add.assoc)
  ultimately show ?thesis
    using assms(3,4) by (simp add: load_bytes_def delivered_def take_drop_medium)
qed

lemma stream_scan_at:
  assumes "stream addr lo hi dev" "mapped m lo (hi - lo)" "delivered addr lo dev m"
    "lo + k + 128 \<le> b_end dev" "512 * addr + k = 1024 + 128 * i"
  shows "scan_at lu m (lo + k) sc = Some (gpt_entry disk lu i sc)"
proof -
  have l: "load_bytes m (lo + k + j) n = Some (medium_bytes disk (1024 + 128 * i + j) n)" if "j + n \<le> 128" for j n
    using stream_load [OF assms(1-3), of "k + j" n] assms(4,5) that by (simp add: add.assoc [symmetric])
  show ?thesis
    using l [of 0 16] l [of 0 8] l [of 8 8] l [of 32 8] l [of 40 8]
    by (simp add: scan_at_def gpt_entry_def Let_def load_le64_def load_le_def load_be64_def disk_le64_def)
qed

text \<open>The position of the scan: entry i is next, and unless the buffer is used up it is complete.\<close>

definition scan_pos :: "nat \<Rightarrow> nat \<Rightarrow> nat \<Rightarrow> 'd blockdev \<Rightarrow> mem \<Rightarrow> bool" where
  "scan_pos ptb i addr dev m \<longleftrightarrow> stream addr ptb (ptb + PARTITION_TABLE_SIZE) dev \<and> delivered addr ptb dev m \<and>
     512 * addr + (b_consume dev - ptb) = 1024 + 128 * i \<and>
     (128 \<le> b_end dev - b_consume dev \<or> b_end dev = ptb + PARTITION_TABLE_SIZE)"

lemma scan_pos_exhausted:
  assumes "scan_pos ptb i addr dev m" "b_end dev - b_consume dev < 128"
  shows "b_end dev = b_next_end dev" "2 + i div 4 = addr + 32" "idle (b_drv dev)" "512 * (addr + 32) = 1024 + 128 * i"
proof -
  have s: "stream addr ptb (ptb + PARTITION_TABLE_SIZE) dev" "b_end dev = ptb + PARTITION_TABLE_SIZE"
    "512 * addr + (b_consume dev - ptb) = 1024 + 128 * i"
    using assms by (auto simp: scan_pos_def)
  then show e: "b_end dev = b_next_end dev" "idle (b_drv dev)"
    by (auto simp: stream_def)
  define c where "c = b_consume dev - ptb"
  have "512 * addr + c = 1024 + 128 * i" "16384 - c < 128" "c \<le> 16384"
    using s assms(2) by (auto simp: stream_def c_def PARTITION_TABLE_SIZE_def)
  then have c: "c + 128 * (4 * addr) = 128 * (8 + i)" "c \<le> 16384" "16384 < 128 + c"
    by simp_all
  have "c = 128 * (8 + i) - 128 * (4 * addr)"
    using c(1) by simp
  then have "c = 128 * (8 + i - 4 * addr)"
    by (simp only: diff_mult_distrib2)
  then obtain j where "c = 128 * j" by blast
  then have "c = 16384"
    using c(2,3) by simp
  then have "i = 4 * (addr + 30)"
    using c(1) by simp
  then show "2 + i div 4 = addr + 32" "512 * (addr + 32) = 1024 + 128 * i"
    by simp_all
qed

lemma refill_pos:
  assumes s: "scan_pos ptb i addr dev m" "mapped m ptb PARTITION_TABLE_SIZE" "i < 65536"
    "ptb mod 4 = 0" "ptb + PARTITION_TABLE_SIZE < 0xffe00000"
    "bo_pump blk = pump wait launch req" "bo_start blk = start wait" "bo_block_size blk = 512"
  shows "\<exists>res buf' dev' m'. refill blk ptb i (ok_buf dev) dev m = Some (res, buf', dev', m') \<and>
    only_within m m' ptb (ptb + PARTITION_TABLE_SIZE) \<and>
    (res = iost_num IOST_OK \<longrightarrow> (\<exists>addr'. scan_pos ptb i addr' dev' m' \<and> buf' = ok_buf dev' \<and> 128 \<le> b_end dev' - b_consume dev'))"
proof (cases "b_end dev - b_consume dev < 128")
  case False
  then show ?thesis
    using s(1) by (auto simp: refill_def ok_buf_def buf_size_def)
next
  case True
  note x = scan_pos_exhausted [OF s(1) True]
  let ?a = "addr + 32" and ?hi = "ptb + PARTITION_TABLE_SIZE"
  have bs: "b_block_size dev = 512" using s(1) by (simp add: scan_pos_def stream_def)
  have sz: "(?hi - ptb) mod 512 = 0" "?hi - ptb = PARTITION_TABLE_SIZE" by (simp_all add: PARTITION_TABLE_SIZE_def)
  have len: "buf_size (ok_buf dev) < 128" using True by (simp add: buf_size_def ok_buf_def)
  show ?thesis
  proof (cases "?a < b_num_blocks dev")
    case False
    then have "start wait dev m ?a ptb ?hi = Some (iost_num IOST_INVALID, dev, m)"
      by (simp add: start_def)
    then show ?thesis
      using len s(7,8) x(2) by (simp add: refill_def flip: x(2))
  next
    case inr: True
    have "?a + (?hi - ptb) div 512 < 2 ^ 32"
      using x(2) s(3) by (simp add: PARTITION_TABLE_SIZE_def)
    from start_stream [OF x(3) bs x(1) inr _ s(4) sz(1) s(5) this, of m]
    obtain d1 where d1: "start wait dev m ?a ptb ?hi = Some (iost_num IOST_OK, d1, m)" "stream ?a ptb ?hi d1"
      "delivered ?a ptb d1 m" "ok_buf d1 = \<lparr>buf_start = ptb, buf_end = ptb\<rparr>" "b_end d1 = ptb"
      by auto
    have c1: "b_consume d1 = ptb" using d1(4) by (simp add: ok_buf_def)
    obtain b2 d2 m2 where p: "pump wait launch req d1 m 0 128 = Some (b2, d2, m2)" "only_within m m2 ptb ?hi"
      "buf_error b2 \<or> stream ?a ptb ?hi d2 \<and> delivered ?a ptb d2 m2 \<and> b_consume d2 = ptb \<and> b2 = ok_buf d2 \<and>
        (128 \<le> buf_size b2 \<or> b_end d2 = ?hi)"
      using pump_delivers [OF d1(2), of m True 0 128] s(2) d1(3,5) sz(2) c1 by auto
    have "scan_pos ptb i ?a d2 m2 \<and> b2 = ok_buf d2 \<and> 128 \<le> b_end d2 - b_consume d2" if "\<not> buf_error b2"
    proof -
      show ?thesis
        using that p(3) x(4) by (auto simp: scan_pos_def buf_size_def ok_buf_def PARTITION_TABLE_SIZE_def)
    qed
    then show ?thesis
      using len s(6-8) d1(1) p(1,2) by (auto simp: refill_def buf_error_def buf_code_def simp flip: x(2))
  qed
qed

text \<open>One entry: the scan of the entry in the buffer and the step to the next one.\<close>

lemma scan_advance:
  assumes s: "scan_pos ptb i addr dev m" "mapped m ptb PARTITION_TABLE_SIZE" "128 \<le> b_end dev - b_consume dev"
  shows "scan_at lu m (buf_start (ok_buf dev)) sc = Some (gpt_entry disk lu i sc)"
    and "\<exists>buf dev' m'. pump wait launch req dev m 128 n = Some (buf, dev', m') \<and>
      only_within m m' ptb (ptb + PARTITION_TABLE_SIZE) \<and>
      (buf_error buf \<or> n = 128 \<longrightarrow> (scan_pos ptb (i + 1) addr dev' m' \<and> buf = ok_buf dev' \<or> buf_error buf))"
proof -
  let ?hi = "ptb + PARTITION_TABLE_SIZE"
  have st: "stream addr ptb ?hi dev" "delivered addr ptb dev m" "512 * addr + (b_consume dev - ptb) = 1024 + 128 * i"
    "ptb \<le> b_consume dev" "b_consume dev \<le> b_end dev" "ptb \<le> b_end dev"
    using s(1) by (auto simp: scan_pos_def stream_def)
  have mp: "mapped m ptb (?hi - ptb)" using s(2) by simp
  have "ptb + (b_consume dev - ptb) + 128 \<le> b_end dev" using s(3) st(4,5) by simp
  from stream_scan_at [OF st(1) mp st(2) this st(3)] st(4)
  show "scan_at lu m (buf_start (ok_buf dev)) sc = Some (gpt_entry disk lu i sc)"
    by (simp add: ok_buf_def)
  obtain buf dev' m' where p: "pump wait launch req dev m 128 n = Some (buf, dev', m')" "only_within m m' (b_end dev) ?hi"
    "buf_error buf \<or> stream addr ptb ?hi dev' \<and> delivered addr ptb dev' m' \<and> b_consume dev' = b_consume dev + 128 \<and>
      buf = ok_buf dev' \<and> (n \<le> buf_size buf \<or> b_end dev' = ?hi)"
    using pump_delivers [OF st(1) mp, of True 128 n] st(2) s(3) by auto
  have "only_within m m' ptb ?hi"
    by (rule only_within_mono [OF p(2)]) (use st in simp_all)
  moreover have "scan_pos ptb (i + 1) addr dev' m' \<and> buf = ok_buf dev' \<or> buf_error buf" if "n = 128"
    using p(3) st(3,4) that by (auto simp: scan_pos_def buf_size_def ok_buf_def)
  ultimately show "\<exists>buf dev' m'. pump wait launch req dev m 128 n = Some (buf, dev', m') \<and> only_within m m' ptb ?hi \<and>
      (buf_error buf \<or> n = 128 \<longrightarrow> (scan_pos ptb (i + 1) addr dev' m' \<and> buf = ok_buf dev' \<or> buf_error buf))"
    using p(1) by blast
qed

lemma scan_loop_medium:
  assumes "scan_pos ptb i addr dev m \<or> buf_error buf" "\<not> buf_error buf \<longrightarrow> buf = ok_buf dev" "i + k \<le> 65536"
    "mapped m ptb PARTITION_TABLE_SIZE" "ptb mod 4 = 0" "ptb + PARTITION_TABLE_SIZE < 0xffe00000"
    "bo_pump blk = pump wait launch req" "bo_start blk = start wait" "bo_block_size blk = 512"
  shows "\<exists>r dev' m'. scan_loop blk ptb lu i k buf dev m sc = Some (r, dev', m') \<and>
    only_within m m' ptb (ptb + PARTITION_TABLE_SIZE) \<and>
    (case r of Inl code \<Rightarrow> code \<noteq> 0 | Inr sc' \<Rightarrow> sc' = fold (gpt_entry disk lu) [i..<i + k] sc)"
  using assms
proof (induction k arbitrary: i addr dev m buf sc)
  case 0
  then show ?case by simp
next
  case (Suc k)
  show ?case
  proof (cases "buf_error buf")
    case True
    then show ?thesis
      by (simp add: buf_error_def buf_code_def)
  next
    case False
    then have sp: "scan_pos ptb i addr dev m" "buf = ok_buf dev" using Suc.prems(1,2) by auto
    let ?hi = "ptb + PARTITION_TABLE_SIZE"
    obtain res b1 d1 m1 where r: "refill blk ptb i buf dev m = Some (res, b1, d1, m1)" "only_within m m1 ptb ?hi"
      "res = iost_num IOST_OK \<longrightarrow> (\<exists>addr'. scan_pos ptb i addr' d1 m1 \<and> b1 = ok_buf d1 \<and> 128 \<le> b_end d1 - b_consume d1)"
      using refill_pos [OF sp(1) Suc.prems(4) _ Suc.prems(5-9)] Suc.prems(3) unfolding sp(2) by force
    show ?thesis
    proof (cases "res = iost_num IOST_OK")
      case False
      then show ?thesis
        using r \<open>\<not> buf_error buf\<close> by simp
    next
      case True
      then obtain addr' where s1: "scan_pos ptb i addr' d1 m1" "b1 = ok_buf d1" "128 \<le> b_end d1 - b_consume d1"
        using r(3) by blast
      have m1: "mapped m1 ptb PARTITION_TABLE_SIZE"
        using only_within_mapped [OF r(2)] Suc.prems(4) by simp
      let ?n = "if k \<noteq> 0 then 128 else (0 :: nat)"
      obtain b2 d2 m2 where p: "pump wait launch req d1 m1 128 ?n = Some (b2, d2, m2)" "only_within m1 m2 ptb ?hi"
        "buf_error b2 \<or> ?n = 128 \<longrightarrow> (scan_pos ptb (i + 1) addr' d2 m2 \<and> b2 = ok_buf d2 \<or> buf_error b2)"
        using scan_advance(2) [OF s1(1) m1 s1(3)] by blast
      let ?sc = "gpt_entry disk lu i sc"
      have eq: "scan_loop blk ptb lu i (Suc k) buf dev m sc = scan_loop blk ptb lu (i + 1) k b2 d2 m2 ?sc"
        using r(1) True p(1) s1(2) scan_advance(1) [OF s1(1) m1 s1(3)] \<open>\<not> buf_error buf\<close> Suc.prems(7) by simp
      have w: "only_within m m2 ptb ?hi" by (rule only_within_trans [OF r(2) p(2) le_refl le_refl])
      show ?thesis
      proof (cases "k = 0")
        case True
        then show ?thesis using eq w by simp
      next
        case False
        have m2: "mapped m2 ptb PARTITION_TABLE_SIZE"
          using only_within_mapped [OF p(2)] m1 by simp
        have f: "fold (gpt_entry disk lu) [i..<i + Suc k] sc = fold (gpt_entry disk lu) [i + 1..<i + 1 + k] ?sc"
          by (simp add: upt_conv_Cons del: upt_Suc)
        obtain r3 d3 m3 where x: "scan_loop blk ptb lu (i + 1) k b2 d2 m2 ?sc = Some (r3, d3, m3)" "only_within m2 m3 ptb ?hi"
          "case r3 of Inl code \<Rightarrow> code \<noteq> 0 | Inr sc' \<Rightarrow> sc' = fold (gpt_entry disk lu) [i + 1..<i + 1 + k] ?sc"
          using Suc.IH [OF _ _ _ m2 Suc.prems(5-9), of "i + 1" addr' d2 b2 ?sc] p(3) False Suc.prems(3) by auto
        then show ?thesis
          unfolding eq f using only_within_trans [OF w x(2) le_refl le_refl] by blast
      qed
    qed
  qed
qed

text \<open>The checks of the two sectors.\<close>

lemma stream_mbr:
  assumes "stream addr lo hi dev" "mapped m lo (hi - lo)" "delivered addr lo dev m" "512 \<le> b_end dev - lo" "addr = 0"
  shows "mbr_has_gpt m lo = Some (disk 510 = 0x55 \<and> disk 511 = 0xaa \<and> 0xee \<in> {disk 450, disk 466, disk 482, disk 498})"
proof -
  have l: "load8 m (lo + k) = Some (disk k)" if "k < 512" for k
  proof -
    have "load_bytes m (lo + k) 1 = Some (medium_bytes disk k 1)"
      using stream_load [OF assms(1-3), of k 1] assms(4,5) that by simp
    then show ?thesis
      by (auto simp: load_bytes_def mapped_def bytes_at_def medium_bytes_def load8_def split: if_splits)
  qed
  show ?thesis
    using l [of 510] l [of 511] l [of 450] l [of 466] l [of 482] l [of 498]
    by (simp add: mbr_has_gpt_def add.commute [of lo])
qed

lemma stream_header:
  assumes "stream 0 lo hi dev" "mapped m lo (hi - lo)" "delivered 0 lo dev m" "1024 \<le> b_end dev - lo" "bo_block_size blk = 512"
  shows "check_header blk m (lo + 512) =
    Some (if gpt_header_valid disk (bo_num_blocks blk)
    then Inr (disk_le64 disk 560, disk_le32 disk 592) else Inl ())"
proof -
  have l: "load_bytes m (lo + k) n = Some (medium_bytes disk k n)" if "k + n \<le> 1024" for k n
    using stream_load [OF assms(1-3), of k n] assms(4) that by simp
  have d: "load_le64 m (k + lo) = Some (disk_le64 disk k)" if "k \<le> 1000" for k
    using l [of k 8] that by (simp add: load_le64_def load_le_def disk_le64_def add.commute)
  have w: "load_le32 m (k + lo) = Some (disk_le32 disk k)" if "k \<le> 1000" for k
    using l [of k 4] that by (simp add: load_le32_def load_le_def disk_le32_def add.commute)
  show ?thesis
    using assms(5) d [of 512] w [of 520] w [of 524] d [of 536] d [of 544] d [of 552] d [of 560] w [of 592]
    by (simp add: check_header_def gpt_header_valid_def Let_def not_less [symmetric] add.commute [of lo])
qed

lemma pump_table:
  assumes s: "stream 0 ptb (ptb + PARTITION_TABLE_SIZE) dev" "mapped m ptb PARTITION_TABLE_SIZE" "delivered 0 ptb dev m"
    "c \<le> b_end dev - b_consume dev" "b_consume dev - ptb + c + n \<le> PARTITION_TABLE_SIZE"
  shows "\<exists>buf dev' m'. pump wait launch req dev m c n = Some (buf, dev', m') \<and> only_within m m' ptb (ptb + PARTITION_TABLE_SIZE) \<and>
    (buf_error buf \<or> stream 0 ptb (ptb + PARTITION_TABLE_SIZE) dev' \<and> delivered 0 ptb dev' m' \<and>
      b_consume dev' = b_consume dev + c \<and> buf = ok_buf dev' \<and> n \<le> b_end dev' - b_consume dev')"
proof -
  let ?hi = "ptb + PARTITION_TABLE_SIZE"
  have b: "ptb \<le> b_consume dev" "b_consume dev \<le> b_end dev" using s(1) by (auto simp: stream_def)
  have mp: "mapped m ptb (?hi - ptb)" using s(2) by simp
  obtain buf dev' m' where p: "pump wait launch req dev m c n = Some (buf, dev', m')" "only_within m m' (b_end dev) ?hi"
    "buf_error buf \<or> stream 0 ptb ?hi dev' \<and> delivered 0 ptb dev' m' \<and> b_consume dev' = b_consume dev + c \<and>
      buf = ok_buf dev' \<and> (n \<le> buf_size buf \<or> b_end dev' = ?hi)"
    using pump_delivers [OF s(1) mp, of True c n] s(3,4) by auto
  have "only_within m m' ptb ?hi"
    by (rule only_within_mono [OF p(2)]) (use b in simp_all)
  then show ?thesis
    using p(1,3) s(5) b by (auto simp: buf_size_def ok_buf_def)
qed

text \<open>What is left to read agrees with the tables of the medium.\<close>

definition reads_table :: "nat \<Rightarrow> mem \<Rightarrow> u64 option \<Rightarrow> ((nat + u64) \<times> 'd blockdev \<times> mem) option \<Rightarrow> bool" where
  "reads_table ptb m f x \<longleftrightarrow> (\<exists>r dev' m'. x = Some (r, dev', m') \<and> only_within m m' ptb (ptb + PARTITION_TABLE_SIZE) \<and>
     (case r of Inl code \<Rightarrow> code \<noteq> 0 | Inr g \<Rightarrow> f = Some g))"

lemma reads_table_error [simp]: "code \<noteq> 0 \<Longrightarrow> reads_table ptb m f (Some (Inl code, dev, m))"
  by (auto simp: reads_table_def)

lemma reads_table_mono:
  "only_within m m' ptb (ptb + PARTITION_TABLE_SIZE) \<Longrightarrow> reads_table ptb m' f x \<Longrightarrow> reads_table ptb m f x"
  unfolding reads_table_def using only_within_trans [OF _ _ le_refl le_refl] by blast

lemma buf_code_error [simp]: "buf_error buf \<Longrightarrow> 0 < buf_code buf"
  by (simp add: buf_error_def buf_code_def)

lemma find_in_entries_medium:
  assumes s: "stream 0 ptb (ptb + PARTITION_TABLE_SIZE) dev" "mapped m ptb PARTITION_TABLE_SIZE" "delivered 0 ptb dev m"
      "b_consume dev = ptb + 512" "512 \<le> b_end dev - b_consume dev"
    and n: "disk_le32 disk 592 \<le> 0x10000"
    and ptb: "ptb mod 4 = 0" "ptb + PARTITION_TABLE_SIZE < 0xffe00000"
    and blk: "bo_pump blk = pump wait launch req" "bo_start blk = start wait" "bo_block_size blk = 512"
  shows "reads_table ptb m (gpt_choice disk) (find_in_entries blk ptb (disk_le64 disk 560) (disk_le32 disk 592) dev m)"
proof -
  let ?hi = "ptb + PARTITION_TABLE_SIZE" and ?lu = "disk_le64 disk 560" and ?n = "unat (disk_le32 disk 592)"
  let ?sc0 = "\<lparr>sc_mask = 0, sc_first = Map.empty, sc_last = Map.empty\<rparr>"
  obtain b1 d1 m1 where p: "pump wait launch req dev m 512 128 = Some (b1, d1, m1)" "only_within m m1 ptb ?hi"
    "buf_error b1 \<or> stream 0 ptb ?hi d1 \<and> delivered 0 ptb d1 m1 \<and> b_consume d1 = ptb + 1024 \<and> b1 = ok_buf d1 \<and>
      128 \<le> b_end d1 - b_consume d1"
    using pump_table [OF s(1-3,5), of 128] s(4) by (auto simp: PARTITION_TABLE_SIZE_def)
  have "reads_table ptb m1 (gpt_choice disk) (find_in_entries blk ptb ?lu (disk_le32 disk 592) dev m)"
  proof (cases "buf_error b1")
    case True
    then show ?thesis
      using p(1) blk by (simp add: find_in_entries_def)
  next
    case False
    have "0 + ?n \<le> 65536" using n by (simp add: word_le_nat_alt)
    moreover have "scan_pos ptb 0 0 d1 m1" "b1 = ok_buf d1" "mapped m1 ptb PARTITION_TABLE_SIZE"
      using p(3) False only_within_mapped [OF p(2)] s(2) by (auto simp: scan_pos_def)
    ultimately obtain r d2 m2 where l: "scan_loop blk ptb ?lu 0 ?n b1 d1 m1 ?sc0 = Some (r, d2, m2)" "only_within m1 m2 ptb ?hi"
      "case r of Inl code \<Rightarrow> code \<noteq> 0 | Inr sc' \<Rightarrow> sc' = gpt_scan disk ?lu ?n"
      using scan_loop_medium [of ptb 0 0 d1 m1 b1 ?n blk ?lu ?sc0, unfolded add_0] ptb blk
      unfolding gpt_scan_def by auto
    have "scan_ok ?lu (gpt_scan disk ?lu ?n)"
      unfolding gpt_scan_def by (rule gpt_scan_ok) (simp add: scan_ok_def)
    note u = used_index_found [OF this]
    have "find_in_entries blk ptb ?lu (disk_le32 disk 592) dev m = (case r of Inl code \<Rightarrow> Some (Inl code, d2, m2)
        | Inr sc \<Rightarrow> if sc_mask sc = 0 then Some (Inl (iost_num IOST_INVALID), d2, m2)
          else do { f \<leftarrow> sc_first sc (used_index (sc_mask sc)); l \<leftarrow> sc_last sc (used_index (sc_mask sc)); Some (Inr f, d2, m2) })"
      using p(1) False l(1) blk by (simp add: find_in_entries_def)
    then show ?thesis
      using l(2,3) u by (cases r) (auto simp: reads_table_def gpt_choice_def Let_def)
  qed
  then show ?thesis
    by (rule reads_table_mono [OF p(2)])
qed

lemma find_in_table_medium:
  assumes s: "stream 0 ptb (ptb + PARTITION_TABLE_SIZE) dev" "mapped m ptb PARTITION_TABLE_SIZE" "delivered 0 ptb dev m"
      "b_consume dev = ptb" "512 \<le> b_end dev - b_consume dev"
    and ptb: "ptb mod 4 = 0" "ptb + PARTITION_TABLE_SIZE < 0xffe00000"
    and blk: "bo_pump blk = pump wait launch req" "bo_start blk = start wait" "bo_block_size blk = 512"
  shows "reads_table ptb m (if gpt_header_valid disk (bo_num_blocks blk) then gpt_choice disk else None) (find_in_table blk ptb dev m)"
proof -
  let ?hi = "ptb + PARTITION_TABLE_SIZE"
  obtain b1 d1 m1 where p: "pump wait launch req dev m 512 512 = Some (b1, d1, m1)" "only_within m m1 ptb ?hi"
    "buf_error b1 \<or> stream 0 ptb ?hi d1 \<and> delivered 0 ptb d1 m1 \<and> b_consume d1 = ptb + 512 \<and> b1 = ok_buf d1 \<and>
      512 \<le> b_end d1 - b_consume d1"
    using pump_table [OF s(1-3,5), of 512] s(4) by (auto simp: PARTITION_TABLE_SIZE_def)
  have m1: "mapped m1 ptb PARTITION_TABLE_SIZE"
    using only_within_mapped [OF p(2)] s(2) by simp
  have "reads_table ptb m1 (if gpt_header_valid disk (bo_num_blocks blk) then gpt_choice disk else None) (find_in_table blk ptb dev m)"
  proof (cases "buf_error b1")
    case True
    then show ?thesis
      using p(1) blk by (simp add: find_in_table_def sub32_def)
  next
    case False
    then have st: "stream 0 ptb ?hi d1" "delivered 0 ptb d1 m1" "b_consume d1 = ptb + 512" "b1 = ok_buf d1" "512 \<le> b_end d1 - b_consume d1"
      using p(3) by auto
    have h: "check_header blk m1 (ptb + 512) = Some (if gpt_header_valid disk (bo_num_blocks blk)
        then Inr (disk_le64 disk 560, disk_le32 disk 592) else Inl ())"
      by (rule stream_header [OF st(1) _ st(2) _ blk(3)]) (use m1 st(3,5) in simp_all)
    have e: "find_in_table blk ptb dev m = (if gpt_header_valid disk (bo_num_blocks blk)
        then find_in_entries blk ptb (disk_le64 disk 560) (disk_le32 disk 592) d1 m1
        else Some (Inl (iost_num IOST_INVALID), d1, m1))"
      using p(1) False st(3,4) h blk by (simp add: find_in_table_def sub32_def ok_buf_def)
    show ?thesis
    proof (cases "gpt_header_valid disk (bo_num_blocks blk)")
      case True
      then have "disk_le32 disk 592 \<le> 0x10000" by (simp add: gpt_header_valid_def)
      from find_in_entries_medium [OF st(1) m1 st(2,3,5) this ptb blk] show ?thesis
        using True e by simp
    qed (simp add: e)
  qed
  then show ?thesis
    by (rule reads_table_mono [OF p(2)])
qed

lemma find_payload_medium:
  assumes dev: "idle (b_drv dev)" "b_block_size dev = 512" "b_end dev = b_next_end dev"
    and ptb: "mapped m ptb PARTITION_TABLE_SIZE" "ptb mod 4 = 0" "ptb + PARTITION_TABLE_SIZE < 0xffe00000"
    and blk: "bo_pump blk = pump wait launch req" "bo_start blk = start wait" "bo_block_size blk = 512"
  shows "reads_table ptb m (gpt_payload disk (bo_num_blocks blk)) (find_payload blk ptb dev m)"
proof -
  let ?hi = "ptb + PARTITION_TABLE_SIZE"
  have sz: "(?hi - ptb) mod 512 = 0" "0 + (?hi - ptb) div 512 < 2 ^ 32" by (simp_all add: PARTITION_TABLE_SIZE_def)
  show ?thesis
  proof (cases "b_num_blocks dev")
    case 0
    then have "start wait dev m 0 ptb ?hi = Some (iost_num IOST_INVALID, dev, m)"
      by (simp add: start_def)
    then show ?thesis
      using blk by (simp add: find_payload_def)
  next
    case (Suc nb)
    then obtain d1 where d1: "start wait dev m 0 ptb ?hi = Some (iost_num IOST_OK, d1, m)" "stream 0 ptb ?hi d1"
      "delivered 0 ptb d1 m" "b_consume d1 = ptb" "b_end d1 = ptb"
      using start_stream [OF dev(1-3) _ _ ptb(2) sz(1) ptb(3) sz(2), of m] by (auto simp: ok_buf_def)
    obtain b2 d2 m2 where p2: "pump wait launch req d1 m 0 512 = Some (b2, d2, m2)" "only_within m m2 ptb ?hi"
      "buf_error b2 \<or> stream 0 ptb ?hi d2 \<and> delivered 0 ptb d2 m2 \<and> b_consume d2 = ptb \<and> b2 = ok_buf d2 \<and>
        512 \<le> b_end d2 - b_consume d2"
      using pump_table [OF d1(2) ptb(1) d1(3), of 0 512] d1(4) by (auto simp: PARTITION_TABLE_SIZE_def)
    have m2: "mapped m2 ptb PARTITION_TABLE_SIZE" "mapped m2 ptb (?hi - ptb)"
      using only_within_mapped [OF p2(2)] ptb(1) by simp_all
    have "reads_table ptb m2 (gpt_payload disk (bo_num_blocks blk)) (find_payload blk ptb dev m)"
    proof (cases "buf_error b2")
      case True
      then show ?thesis
        using d1(1) p2(1) blk by (simp add: find_payload_def)
    next
      case False
      then have st: "stream 0 ptb ?hi d2" "delivered 0 ptb d2 m2" "b_consume d2 = ptb" "b2 = ok_buf d2" "512 \<le> b_end d2 - b_consume d2"
        using p2(3) by auto
      let ?mbr = "disk 510 = 0x55 \<and> disk 511 = 0xaa \<and> 0xee \<in> {disk 450, disk 466, disk 482, disk 498}"
      have "mbr_has_gpt m2 ptb = Some ?mbr"
        by (rule stream_mbr [OF st(1) m2(2) st(2)]) (use st(3,5) in simp_all)
      then have e: "find_payload blk ptb dev m = (if ?mbr then find_in_table blk ptb d2 m2 else Some (Inl (iost_num IOST_INVALID), d2, m2))"
        using d1(1) p2(1) False st(3,4) blk by (simp add: find_payload_def ok_buf_def)
      have "gpt_payload disk (bo_num_blocks blk) = (if ?mbr then (if gpt_header_valid disk (bo_num_blocks blk) then gpt_choice disk else None) else None)"
        by (auto simp: gpt_payload_def gpt_valid_def)
      then show ?thesis
        unfolding e using find_in_table_medium [OF st(1) m2(1) st(2,3,5) ptb(2,3) blk] by simp
    qed
    then show ?thesis
      by (rule reads_table_mono [OF p2(2)])
  qed
qed

end

section \<open>The payload partition of an eMMC or an SD card\<close>

definition emmc_ops :: "emmc_drv blockdev \<Rightarrow> emmc_drv blockdev blkops" where
  "emmc_ops dev = \<lparr>bo_pump = emmc_pump, bo_start = emmc_start, bo_block_size = b_block_size dev, bo_num_blocks = of_nat (b_num_blocks dev)\<rparr>"

definition sd_ops :: "sd_drv blockdev \<Rightarrow> sd_drv blockdev blkops" where
  "sd_ops dev = \<lparr>bo_pump = sd_pump, bo_start = sd_start, bo_block_size = b_block_size dev, bo_num_blocks = of_nat (b_num_blocks dev)\<rparr>"

text \<open>C6: on an idle eMMC device with 512-byte blocks the search for the payload partition
  returns, whatever is on the medium and whatever errors the controller reports; it writes
  only to the partition table buffer, and it yields an error code or exactly the partition
  that the partition table of the medium names, also when the table is longer than the
  buffer and has to be read in several parts.
\<close>

theorem emmc_find_payload:
  assumes dev: "b_drv dev = (st, x)" "sdhci_idle disk st x" "32 \<le> sx_desc_cap x" "b_block_size dev = 512" "b_end dev = b_next_end dev"
    and ptb: "mapped m ptb PARTITION_TABLE_SIZE" "ptb mod 4 = 0" "ptb + PARTITION_TABLE_SIZE < 0xffe00000"
  shows "\<exists>r dev' m'. find_payload (emmc_ops dev) ptb dev m = Some (r, dev', m') \<and>
    only_within m m' ptb (ptb + PARTITION_TABLE_SIZE) \<and>
    (case r of Inl code \<Rightarrow> code \<noteq> 0 | Inr f \<Rightarrow> gpt_payload disk (of_nat (b_num_blocks dev)) = Some f)"
proof -
  have "emmc.reads_table ptb m (gpt_payload disk (bo_num_blocks (emmc_ops dev))) (find_payload (emmc_ops dev) ptb dev m)"
    by (rule emmc.find_payload_medium)
      (use assms in \<open>simp_all add: emmc_ops_def emmc_pump_def emmc_start_def\<close>)
  then show ?thesis
    by (simp add: emmc.reads_table_def emmc_ops_def)
qed

text \<open>A medium with a table of four entries, the second of which is a payload of the first type.\<close>

definition sample_table :: "(nat \<times> u8 list) list" where
  "sample_table =
    [(450, [0xee]), (510, [0x55, 0xaa]),
     (512, [0x45, 0x46, 0x49, 0x20, 0x50, 0x41, 0x52, 0x54, 0, 0, 1, 0, 92, 0, 0, 0]),
     (536, [1]), (544, [0xe7, 3]), (552, [6]), (560, [0xe4, 3]), (592, [4]),
     (1152, [0xa0, 0x07, 0xab, 0xe5, 0x5e, 0x8e, 0xf6, 0x46, 0x9c, 0xe8, 0x41, 0xa5, 0x18, 0x92, 0x9b, 0x7c]),
     (1184, [40]), (1192, [200])]"

fun table_byte :: "(nat \<times> u8 list) list \<Rightarrow> nat \<Rightarrow> u8" where
  "table_byte [] i = 0"
| "table_byte ((a, bs) # t) i = (if a \<le> i \<and> i < a + length bs then bs ! (i - a) else table_byte t i)"

definition gpt_disk :: "nat \<Rightarrow> u8" where
  "gpt_disk = table_byte sample_table"

lemma medium_bytes_upt: "medium_bytes disk p n = map disk [p..<p + n]"
  by (rule nth_equalityI) (simp_all add: medium_bytes_def)

lemmas sample_bytes = gpt_disk_def sample_table_def medium_bytes_upt disk_le64_def disk_le32_def le_word_def

lemma gpt_disk_bytes:
  "\<forall>b \<in> set (medium_bytes gpt_disk 1024 16). b = 0" "\<forall>b \<in> set (medium_bytes gpt_disk 1280 16). b = 0"
  "\<forall>b \<in> set (medium_bytes gpt_disk 1408 16). b = 0" "\<not> (\<forall>b \<in> set (medium_bytes gpt_disk 1152 16). b = 0)"
  "disk_le64 gpt_disk 1152 = 0x46f68e5ee5ab07a0" "le_word (rev (medium_bytes gpt_disk 1160 8)) = (0x9ce841a518929b7c :: u64)"
  "disk_le64 gpt_disk 1184 = 40" "disk_le64 gpt_disk 1192 = 200"
  by (simp_all add: sample_bytes)

lemma gpt_disk_scan: "gpt_scan gpt_disk 996 4 = \<lparr>sc_mask = 1, sc_first = [0 \<mapsto> 40], sc_last = [0 \<mapsto> 200]\<rparr>"
proof -
  have "[0..<4] = [0, 1, 2, 3 :: nat]" by code_simp
  then show ?thesis
    using gpt_disk_bytes by (simp add: gpt_scan_def gpt_entry_def scan_entry_def entry_index_def)
qed

lemma gpt_disk_valid: "gpt_valid gpt_disk 1000"
  by (simp add: gpt_valid_def gpt_header_valid_def sample_bytes)

lemma gpt_disk_payload: "gpt_payload gpt_disk 1000 = Some 40"
proof -
  have "disk_le64 gpt_disk 560 = 996" "disk_le32 gpt_disk 592 = 4"
    by (simp_all add: sample_bytes)
  then show ?thesis
    using gpt_disk_scan gpt_disk_valid by (simp add: gpt_payload_def gpt_choice_def used_index_def)
qed

theorem emmc_find_payload_witness:
  "\<exists>r dev' m'. find_payload (emmc_ops (sample_blockdev (sample_emmc gpt_disk))) 0x1000 (sample_blockdev (sample_emmc gpt_disk)) zero_mem =
      Some (r, dev', m') \<and> only_within zero_mem m' 0x1000 (0x1000 + PARTITION_TABLE_SIZE) \<and>
    (case r of Inl code \<Rightarrow> code \<noteq> 0 | Inr f \<Rightarrow> 40 = f)"
proof -
  let ?dev = "sample_blockdev (sample_emmc gpt_disk)"
  have d: "b_drv ?dev = (fst (sample_emmc gpt_disk), snd (sample_emmc gpt_disk))"
    by (simp add: sample_blockdev_def)
  have n: "of_nat (b_num_blocks ?dev) = (1000 :: u64)"
    by (simp add: sample_blockdev_def)
  have "\<exists>r dev' m'. find_payload (emmc_ops ?dev) 0x1000 ?dev zero_mem = Some (r, dev', m') \<and>
      only_within zero_mem m' 0x1000 (0x1000 + PARTITION_TABLE_SIZE) \<and>
      (case r of Inl code \<Rightarrow> code \<noteq> 0 | Inr f \<Rightarrow> gpt_payload gpt_disk (of_nat (b_num_blocks ?dev)) = Some f)"
    by (rule emmc_find_payload [OF d sample_emmc_idle]) (simp_all add: sample_blockdev_def zero_mem_mapped PARTITION_TABLE_SIZE_def)
  then show ?thesis
    unfolding n gpt_disk_payload option.inject .
qed

text \<open>
  The start of the stream that is handed to the decompressor lies on the medium for every
  driver, whatever its transfers return: the scan keeps its invariant along the loop.
\<close>

lemma case_sum_Some:
  "(case r of Inl c \<Rightarrow> F c | Inr s \<Rightarrow> G s) = Some z \<longleftrightarrow> (\<exists>c. r = Inl c \<and> F c = Some z) \<or> (\<exists>s. r = Inr s \<and> G s = Some z)"
  by (cases r) auto

lemma scan_at_ok: "scan_ok lu sc \<Longrightarrow> scan_at lu m p sc = Some sc' \<Longrightarrow> scan_ok lu sc'"
  by (auto simp: scan_at_def scan_entry_ok bind_eq_Some_conv split: if_splits)

lemma scan_loop_ok:
  "scan_loop blk ptb lu i k buf a m sc = Some (Inr sc', a', m') \<Longrightarrow> scan_ok lu sc \<Longrightarrow> scan_ok lu sc'"
proof (induction blk ptb lu i k buf a m sc rule: scan_loop.induct)
  case (2 blk ptb lu i k buf a m sc)
  then show ?case
    by (auto simp: bind_eq_Some_conv split: if_splits dest: scan_at_ok)
qed simp

lemma check_header_last:
  assumes "check_header blk m p = Some (Inr (lu, n))"
  shows "lu \<le> bo_num_blocks blk - 2 - ucast (n div of_nat (bo_block_size blk div 128))" "n \<le> 0x10000"
  using assms by (auto simp: check_header_def Let_def bind_eq_Some_conv split: if_splits)

lemma find_in_entries_last:
  assumes "find_in_entries blk ptb lu n a m = Some (Inr f, a', m')"
  shows "f \<le> lu"
proof -
  obtain buf a1 m1 sc where "scan_loop blk ptb lu 0 (unat n) buf a1 m1 \<lparr>sc_mask = 0, sc_first = Map.empty, sc_last = Map.empty\<rparr> =
      Some (Inr sc, a', m')" and sc: "sc_mask sc \<noteq> 0" "sc_first sc (used_index (sc_mask sc)) = Some f"
    using assms by (auto simp: find_in_entries_def bind_eq_Some_conv case_sum_Some split: if_splits)
  from scan_loop_ok [OF this(1)] have "scan_ok lu sc"
    by (simp add: scan_ok_def)
  from used_index_found [OF this sc(1)] sc(2) show ?thesis
    by auto
qed


text \<open>A driver whose medium is in memory already; the state is the position of the reader.\<close>

definition ram_ops :: "nat \<Rightarrow> u64 \<Rightarrow> nat blkops" where
  "ram_ops bs n = \<lparr>bo_pump = (\<lambda>a m c k. Some (\<lparr>buf_start = a + c, buf_end = a + c + k\<rparr>, a + c, m)),
     bo_start = (\<lambda>a m lba s e. Some (0, s, m)), bo_block_size = bs, bo_num_blocks = n\<rparr>"

definition large_table :: "(nat \<times> u8 list) list" where
  "large_table = (544, [0x1f, 0x4e]) # (560, [0x1c, 0x4e]) # sample_table"

abbreviation large_mem :: mem where
  "large_mem \<equiv> \<lambda>x. Some (table_byte large_table x)"

lemma large_load: "load_bytes large_mem p n = Some (map (table_byte large_table) [p..<p + n])"
  by (simp add: load_bytes_def mapped_def bytes_at_def)

lemma large_mbr: "mbr_has_gpt large_mem 0 = Some True"
  by (simp add: mbr_has_gpt_def load8_def large_table_def sample_table_def)

lemma large_header: "check_header (ram_ops 512 20000) large_mem 512 = Some (Inr (19996, 4))"
  unfolding check_header_def load_le64_def load_le32_def load_le_def large_load ram_ops_def
  by (simp add: large_table_def sample_table_def le_word_def)

lemma large_bytes:
  "\<forall>b \<in> set (map (table_byte large_table) [1024..<1040]). b = 0" "\<forall>b \<in> set (map (table_byte large_table) [1280..<1296]). b = 0"
  "\<forall>b \<in> set (map (table_byte large_table) [1408..<1424]). b = 0"
  "map (table_byte large_table) [1152..<1160] = [0xa0, 0x07, 0xab, 0xe5, 0x5e, 0x8e, 0xf6, 0x46]"
  "map (table_byte large_table) [1160..<1168] = [0x9c, 0xe8, 0x41, 0xa5, 0x18, 0x92, 0x9b, 0x7c]"
  "map (table_byte large_table) [1184..<1192] = [40, 0, 0, 0, 0, 0, 0, 0]" "map (table_byte large_table) [1192..<1200] = [200, 0, 0, 0, 0, 0, 0, 0]"
  by (simp_all add: large_table_def sample_table_def)

lemma large_empty:
  "scan_at lu large_mem 1024 sc = Some sc" "scan_at lu large_mem 1280 sc = Some sc" "scan_at lu large_mem 1408 sc = Some sc"
  using large_bytes(1-3) by (simp_all add: scan_at_def large_load del: set_map list.map set_upt)

lemma large_entry:
  "scan_at 19996 large_mem 1152 \<lparr>sc_mask = 0, sc_first = Map.empty, sc_last = Map.empty\<rparr> =
     Some \<lparr>sc_mask = 1, sc_first = [0 \<mapsto> 40], sc_last = [0 \<mapsto> 200]\<rparr>"
proof -
  have "[1152..<1168] = [1152..<1160] @ [1160..<1168 :: nat]"
    using upt_add_eq_append [of 1152 1160 8] by simp
  then show ?thesis
    using large_bytes(4-7)
    by (simp add: scan_at_def large_load load_le64_def load_le_def load_be64_def le_word_def scan_entry_def entry_index_def Let_def)
qed

lemma large_table_found:
  "find_payload (ram_ops 512 20000) 0 0 large_mem = Some (Inr 40, 1536, large_mem)"
proof -
  let ?sc0 = "\<lparr>sc_mask = 0, sc_first = Map.empty, sc_last = Map.empty\<rparr>"
  let ?blk = "ram_ops 512 20000"
  have n: "unat (4 :: u32) = Suc (Suc (Suc (Suc 0)))" by simp
  have r: "refill ?blk 0 i b a m = Some (0, b, a, m)" if "128 \<le> buf_size b" for i b a m
    using that by (simp add: refill_def)
  have "find_in_entries ?blk 0 19996 4 512 large_mem = Some (Inr 40, 1536, large_mem)"
    unfolding find_in_entries_def n using large_empty large_entry
    by (simp add: ram_ops_def [of 512 20000] r [unfolded ram_ops_def] buf_error_def buf_size_def used_index_def)
  then have "find_in_table ?blk 0 0 large_mem = Some (Inr 40, 1536, large_mem)"
    using large_header by (simp add: find_in_table_def sub32_def ram_ops_def buf_error_def)
  then show ?thesis
    using large_mbr by (simp add: find_payload_def ram_ops_def buf_error_def)
qed


end
