(* ===== verification/Boot_Monitor.thy ===== *)
theory Boot_Monitor
  imports Levin_Prelude
begin

text \<open>
  The boot monitor of dramstage/main.c and the boot medium threads that it coordinates
  (boot\_sd and boot\_emmc, boot\_nvme, boot\_spi).  The threads share two atomic words,
  boot\_state and current\_boot\_cue; a step of the system is one step of one thread, in
  any order.  A thread that waits for a word runs again only when the word has changed: that
  the notifications never get lost is what theory Sched shows of sched\_finish\_u32.
\<close>

section \<open>The shared state\<close>

text \<open>
  The media are numbered in the boot order: SD 0, EMMC 1, NVME 2, SPI 3.  The configuration
  is the word of the media that are compiled in.
\<close>

definition BOOT_MEDIUM_SD :: nat where "BOOT_MEDIUM_SD = 0"
definition BOOT_MEDIUM_EMMC :: nat where "BOOT_MEDIUM_EMMC = 1"
definition BOOT_MEDIUM_NVME :: nat where "BOOT_MEDIUM_NVME = 2"
definition BOOT_MEDIUM_SPI :: nat where "BOOT_MEDIUM_SPI = 3"
definition NUM_BOOT_MEDIUM :: nat where "NUM_BOOT_MEDIUM = 4"
definition BOOT_CUE_NONE :: nat where "BOOT_CUE_NONE = 4"
definition BOOT_CUE_EXIT :: nat where "BOOT_CUE_EXIT = 5"

definition exit_bit :: "nat \<Rightarrow> u32" where "exit_bit k = push_bit (4 * k) 1"
definition ready_bit :: "nat \<Rightarrow> u32" where "ready_bit k = push_bit 1 (exit_bit k)"
definition loaded_bit :: "nat \<Rightarrow> u32" where "loaded_bit k = push_bit 2 (exit_bit k)"

definition all_exit_mask :: u32 where
  "all_exit_mask = exit_bit 0 OR exit_bit 1 OR exit_bit 2 OR exit_bit 3"

text \<open>available\_boot\_media for the list of the configured media.\<close>

definition available_boot_media :: "bool \<Rightarrow> bool \<Rightarrow> bool \<Rightarrow> bool \<Rightarrow> u32" where
  "available_boot_media sd emmc nvme spi =
    (if sd then exit_bit 0 else 0) OR (if emmc then exit_bit 1 else 0) OR
    (if nvme then exit_bit 2 else 0) OR (if spi then exit_bit 3 else 0)"

text \<open>Where the monitor is; the word is its local copy of boot\_state.\<close>

datatype monitor_pc =
  M_start
| M_next nat u32           \<comment> \<open>head of the loop over the media\<close>
| M_ready nat u32          \<comment> \<open>waiting until the medium is ready or has exited\<close>
| M_cue nat u32            \<comment> \<open>about to cue the medium\<close>
| M_loading nat u32        \<comment> \<open>waiting until the payload is loaded or the medium has exited\<close>
| M_loaded nat u32         \<comment> \<open>the payload is loaded; the button decides\<close>
| M_accept "nat option"    \<comment> \<open>a payload is accepted; about to send the others away\<close>
| M_board "nat option"     \<comment> \<open>waiting for the board detection\<close>
| M_done "nat option"
| M_dead                   \<comment> \<open>die\<close>

text \<open>Where a medium thread is; the number counts the namespaces that are still to be tried.\<close>

datatype medium_pc =
  T_probe nat
| T_wait nat               \<comment> \<open>in wait\_for\_boot\_cue\<close>
| T_loading nat            \<comment> \<open>in boot\_blockdev or decompress\_payload\<close>
| T_loaded                 \<comment> \<open>after boot\_medium\_loaded\<close>
| T_leaving                \<comment> \<open>about to call boot\_medium\_exit\<close>
| T_exited

record boot =
  boot_state :: u32
  current_boot_cue :: nat
  detected_board :: u32
  monitor :: monitor_pc
  medium :: "nat \<Rightarrow> medium_pc"

section \<open>The operations on the shared words\<close>

definition boot_medium_exit :: "nat \<Rightarrow> boot \<Rightarrow> boot" where
  "boot_medium_exit k b = b\<lparr>boot_state := boot_state b OR exit_bit k\<rparr>"

definition boot_medium_loaded :: "nat \<Rightarrow> boot \<Rightarrow> boot" where
  "boot_medium_loaded k b = b\<lparr>boot_state := boot_state b OR loaded_bit k\<rparr>"

text \<open>
  wait\_for\_boot\_cue: the announcement, and the result of the loop once the cue is
  for this medium or tells it to exit; None while the thread waits.
\<close>

definition cue_announce :: "nat \<Rightarrow> boot \<Rightarrow> boot" where
  "cue_announce k b = b\<lparr>boot_state := boot_state b OR ready_bit k\<rparr>"

definition cue_received :: "nat \<Rightarrow> boot \<Rightarrow> bool option" where
  "cue_received k b =
    (if current_boot_cue b = BOOT_CUE_EXIT then Some False
     else if current_boot_cue b = k then Some True else None)"

text \<open>
  monitor\_boot\_state with expected value 0: the local copy if it has one of the bits,
  otherwise the current word once that has one; None while the monitor waits.
\<close>

definition monitor_boot_state :: "boot \<Rightarrow> u32 \<Rightarrow> u32 \<Rightarrow> u32 option" where
  "monitor_boot_state b state msk =
    (if state AND msk \<noteq> 0 then Some state
     else if boot_state b AND msk \<noteq> 0 then Some (boot_state b) else None)"

definition store_cue :: "nat \<Rightarrow> boot \<Rightarrow> boot" where
  "store_cue c b = b\<lparr>current_boot_cue := c\<rparr>"

definition at_monitor :: "monitor_pc \<Rightarrow> boot \<Rightarrow> boot" where
  "at_monitor pc b = b\<lparr>monitor := pc\<rparr>"

definition at_medium :: "nat \<Rightarrow> medium_pc \<Rightarrow> boot \<Rightarrow> boot" where
  "at_medium k pc b = b\<lparr>medium := (medium b)(k := pc)\<rparr>"

section \<open>The threads\<close>

text \<open>
  The boot monitor for a configuration.  payload\_ok is the result of decompressing the
  built-in payload when no medium is configured, pressed the state of the button.
\<close>

definition monitor_step :: "u32 \<Rightarrow> bool \<Rightarrow> bool \<Rightarrow> boot \<Rightarrow> boot option" where
  "monitor_step avail payload_ok pressed b =
    (case monitor b of
       M_start \<Rightarrow>
         if avail = 0 then Some (at_monitor (if payload_ok then M_board None else M_dead) b)
         else Some (at_monitor (M_next 0 (boot_state b)) b)
     | M_next k state \<Rightarrow>
         if k \<ge> NUM_BOOT_MEDIUM then Some (at_monitor M_dead b)
         else if NOT avail AND exit_bit k \<noteq> 0 then Some (at_monitor (M_next (k + 1) state) b)
         else Some (at_monitor (M_ready k state) b)
     | M_ready k state \<Rightarrow>
         map_option (\<lambda>state. at_monitor (if state AND exit_bit k \<noteq> 0 then M_next (k + 1) state else M_cue k state) b)
           (monitor_boot_state b state (ready_bit k OR exit_bit k))
     | M_cue k state \<Rightarrow> Some (at_monitor (M_loading k state) (store_cue k b))
     | M_loading k state \<Rightarrow>
         map_option (\<lambda>state. at_monitor (if state AND loaded_bit k \<noteq> 0 then M_loaded k state else M_next (k + 1) state) b)
           (monitor_boot_state b state (loaded_bit k OR exit_bit k))
     | M_loaded k state \<Rightarrow>
         Some (at_monitor (if pressed \<and> drop_bit k (drop_bit 1 avail) \<noteq> 0 then M_next (k + 1) state else M_accept (Some k)) b)
     | M_accept p \<Rightarrow> Some (at_monitor (M_board p) (store_cue BOOT_CUE_EXIT b))
     | M_board p \<Rightarrow> if detected_board b = 0 then None else Some (at_monitor (M_done p) b)
     | M_done p \<Rightarrow> None
     | M_dead \<Rightarrow> None)"

text \<open>
  A medium thread.  The choice is what the hardware and the medium lead to: whether the
  medium is usable when it is probed, and the result of the load.
\<close>

datatype outcome = Usable | Unusable | Load_ok | Load_global | Load_other

definition await_cue :: "nat \<Rightarrow> nat \<Rightarrow> boot \<Rightarrow> boot option" where
  "await_cue k n b = map_option (\<lambda>cued. at_medium k (if cued then T_loading n else T_leaving) b) (cue_received k b)"

definition leave :: "nat \<Rightarrow> boot \<Rightarrow> boot option" where
  "leave k b = Some (at_medium k T_exited (boot_medium_exit k b))"

definition sd_step :: "outcome \<Rightarrow> boot \<Rightarrow> boot option" where
  "sd_step c b = (let k = BOOT_MEDIUM_SD in
     case medium b k of
       T_probe n \<Rightarrow> if c = Unusable then Some (at_medium k T_leaving b) else Some (at_medium k (T_wait n) (cue_announce k b))
     | T_wait n \<Rightarrow> await_cue k n b
     | T_loading n \<Rightarrow> if c = Load_ok then Some (at_medium k T_loaded (boot_medium_loaded k b)) else Some (at_medium k T_leaving b)
     | T_loaded \<Rightarrow> Some (at_medium k T_leaving b)
     | T_leaving \<Rightarrow> leave k b
     | T_exited \<Rightarrow> None)"

definition emmc_step :: "outcome \<Rightarrow> boot \<Rightarrow> boot option" where
  "emmc_step c b = (let k = BOOT_MEDIUM_EMMC in
     case medium b k of
       T_probe n \<Rightarrow> if c = Unusable then Some (at_medium k T_leaving b) else Some (at_medium k (T_wait n) (cue_announce k b))
     | T_wait n \<Rightarrow> await_cue k n b
     | T_loading n \<Rightarrow> if c = Load_ok then Some (at_medium k T_loaded (boot_medium_loaded k b)) else Some (at_medium k T_leaving b)
     | T_loaded \<Rightarrow> Some (at_medium k T_leaving b)
     | T_leaving \<Rightarrow> leave k b
     | T_exited \<Rightarrow> None)"

text \<open>The namespaces of the NVMe device are tried in turn, until one loads or the device fails.\<close>

definition nvme_step :: "outcome \<Rightarrow> boot \<Rightarrow> boot option" where
  "nvme_step c b = (let k = BOOT_MEDIUM_NVME in
     case medium b k of
       T_probe n \<Rightarrow>
         if n = 0 \<or> c = Unusable then Some (at_medium k T_leaving b)
         else Some (at_medium k (T_wait n) (cue_announce k b))
     | T_wait n \<Rightarrow> await_cue k n b
     | T_loading n \<Rightarrow>
         if c = Load_ok then Some (at_medium k T_loaded (boot_medium_loaded k b))
         else if c = Load_global then Some (at_medium k T_leaving b)
         else Some (at_medium k (T_probe (n - 1)) b)
     | T_loaded \<Rightarrow> Some (at_medium k T_leaving b)
     | T_leaving \<Rightarrow> leave k b
     | T_exited \<Rightarrow> None)"

definition spi_step :: "outcome \<Rightarrow> boot \<Rightarrow> boot option" where
  "spi_step c b = (let k = BOOT_MEDIUM_SPI in
     case medium b k of
       T_probe n \<Rightarrow> Some (at_medium k (T_wait n) (cue_announce k b))
     | T_wait n \<Rightarrow> await_cue k n b
     | T_loading n \<Rightarrow> if c = Load_ok then Some (at_medium k T_loaded (boot_medium_loaded k b)) else Some (at_medium k T_leaving b)
     | T_loaded \<Rightarrow> Some (at_medium k T_leaving b)
     | T_leaving \<Rightarrow> leave k b
     | T_exited \<Rightarrow> None)"

definition medium_step :: "nat \<Rightarrow> outcome \<Rightarrow> boot \<Rightarrow> boot option" where
  "medium_step k c b =
    (if k = BOOT_MEDIUM_SD then sd_step c b
     else if k = BOOT_MEDIUM_EMMC then emmc_step c b
     else if k = BOOT_MEDIUM_NVME then nvme_step c b
     else spi_step c b)"

text \<open>rk3399\_probe\_board publishes the board that it finds.\<close>

definition probe_board :: "u32 \<Rightarrow> boot \<Rightarrow> boot" where
  "probe_board board b = b\<lparr>detected_board := board\<rparr>"

text \<open>A step of the system; die stops the machine.\<close>

inductive boot_step :: "u32 \<Rightarrow> boot \<Rightarrow> boot \<Rightarrow> bool" for avail where
  monitor: "monitor b \<noteq> M_dead \<Longrightarrow> monitor_step avail payload_ok pressed b = Some b' \<Longrightarrow> boot_step avail b b'"
| medium: "monitor b \<noteq> M_dead \<Longrightarrow> k < NUM_BOOT_MEDIUM \<Longrightarrow> avail AND exit_bit k \<noteq> 0 \<Longrightarrow> medium_step k c b = Some b' \<Longrightarrow> boot_step avail b b'"
| board: "monitor b \<noteq> M_dead \<Longrightarrow> detected_board b = 0 \<Longrightarrow> board \<in> {1, 2} \<Longrightarrow> boot_step avail b (probe_board board b)"

inductive_cases boot_stepE: "boot_step avail b b'"

text \<open>The start: the media that are not configured count as exited; the NVMe controller has ns namespaces.\<close>

definition boot_init :: "u32 \<Rightarrow> u32 \<Rightarrow> nat \<Rightarrow> boot" where
  "boot_init avail board ns =
    \<lparr>boot_state = avail XOR all_exit_mask, current_boot_cue = BOOT_CUE_NONE, detected_board = board, monitor = M_start,
     medium = (\<lambda>k. T_probe (if k = BOOT_MEDIUM_NVME then ns else 1))\<rparr>"

section \<open>Bits of the boot state\<close>

lemma bit_medium_bits:
  assumes "k < 4"
  shows "bit (exit_bit k) n \<longleftrightarrow> n = 4 * k" "bit (ready_bit k) n \<longleftrightarrow> n = 4 * k + 1" "bit (loaded_bit k) n \<longleftrightarrow> n = 4 * k + 2"
proof -
  have "exit_bit k = 2 ^ (4 * k)" "ready_bit k = 2 ^ (1 + 4 * k)" "loaded_bit k = 2 ^ (2 + 4 * k)"
    unfolding exit_bit_def ready_bit_def loaded_bit_def push_bit_push_bit by (simp_all only: push_bit_of_1)
  then show "bit (exit_bit k) n \<longleftrightarrow> n = 4 * k" "bit (ready_bit k) n \<longleftrightarrow> n = 4 * k + 1" "bit (loaded_bit k) n \<longleftrightarrow> n = 4 * k + 2"
    using assms by (simp_all only: bit_exp_iff) auto
qed

lemma and_zero_bits: "(w :: u32) AND v = 0 \<longleftrightarrow> (\<forall>n. bit v n \<longrightarrow> \<not> bit w n)"
proof
  assume "w AND v = 0"
  then have "\<not> bit (w AND v) n" for n by simp
  then show "\<forall>n. bit v n \<longrightarrow> \<not> bit w n" by (auto simp: bit_and_iff)
qed (auto intro!: bit_word_eqI simp: bit_and_iff)

lemma and_medium_bits:
  assumes "k < 4"
  shows "w AND exit_bit k = 0 \<longleftrightarrow> \<not> bit w (4 * k)"
    "w AND loaded_bit k = 0 \<longleftrightarrow> \<not> bit w (4 * k + 2)"
    "w AND (ready_bit k OR exit_bit k) = 0 \<longleftrightarrow> \<not> bit w (4 * k + 1) \<and> \<not> bit w (4 * k)"
    "w AND (loaded_bit k OR exit_bit k) = 0 \<longleftrightarrow> \<not> bit w (4 * k + 2) \<and> \<not> bit w (4 * k)"
  using assms by (auto simp: and_zero_bits bit_or_iff bit_medium_bits)

definition available :: "u32 \<Rightarrow> nat \<Rightarrow> bool" where
  "available avail k \<longleftrightarrow> k < 4 \<and> bit avail (4 * k)"

section \<open>The invariant\<close>

definition finished :: "medium_pc \<Rightarrow> bool" where
  "finished pc \<longleftrightarrow> pc \<in> {T_loaded, T_leaving, T_exited}"

fun tries_left :: "nat \<Rightarrow> medium_pc \<Rightarrow> bool" where
  "tries_left k (T_wait n) \<longleftrightarrow> (k = BOOT_MEDIUM_NVME \<longrightarrow> 0 < n)"
| "tries_left k (T_loading n) \<longleftrightarrow> (k = BOOT_MEDIUM_NVME \<longrightarrow> 0 < n)"
| "tries_left k _ \<longleftrightarrow> True"

text \<open>A copy of the boot state never has a bit that the boot state has not.\<close>

definition stale :: "u32 \<Rightarrow> u32 \<Rightarrow> bool" where
  "stale w v \<longleftrightarrow> (\<forall>n. bit w n \<longrightarrow> bit v n)"

fun monitor_ok :: "u32 \<Rightarrow> boot \<Rightarrow> monitor_pc \<Rightarrow> bool" where
  "monitor_ok avail b M_start \<longleftrightarrow> current_boot_cue b = BOOT_CUE_NONE"
| "monitor_ok avail b (M_next k st) \<longleftrightarrow> stale st (boot_state b) \<and> avail \<noteq> 0"
| "monitor_ok avail b (M_ready k st) \<longleftrightarrow> stale st (boot_state b) \<and> available avail k"
| "monitor_ok avail b (M_cue k st) \<longleftrightarrow> stale st (boot_state b) \<and> available avail k \<and> bit (boot_state b) (4 * k + 1)"
| "monitor_ok avail b (M_loading k st) \<longleftrightarrow> stale st (boot_state b) \<and> available avail k \<and> current_boot_cue b = k"
| "monitor_ok avail b (M_loaded k st) \<longleftrightarrow> stale st (boot_state b) \<and> available avail k \<and> bit (boot_state b) (4 * k + 2)"
| "monitor_ok avail b (M_accept p) \<longleftrightarrow> (\<exists>k. p = Some k \<and> available avail k \<and> bit (boot_state b) (4 * k + 2))"
| "monitor_ok avail b (M_board p) \<longleftrightarrow> (case p of None \<Rightarrow> avail = 0 |
     Some k \<Rightarrow> available avail k \<and> bit (boot_state b) (4 * k + 2) \<and> current_boot_cue b = BOOT_CUE_EXIT)"
| "monitor_ok avail b (M_done p) \<longleftrightarrow> (case p of None \<Rightarrow> avail = 0 |
     Some k \<Rightarrow> available avail k \<and> bit (boot_state b) (4 * k + 2) \<and> current_boot_cue b = BOOT_CUE_EXIT)"
| "monitor_ok avail b M_dead \<longleftrightarrow> True"

definition is_loading :: "medium_pc \<Rightarrow> bool" where
  "is_loading pc \<longleftrightarrow> (\<exists>n. pc = T_loading n)"

definition medium_ok :: "boot \<Rightarrow> nat \<Rightarrow> medium_pc \<Rightarrow> bool" where
  "medium_ok b k pc \<longleftrightarrow> tries_left k pc \<and>
     (bit (boot_state b) (4 * k) \<longleftrightarrow> pc = T_exited) \<and>
     (bit (boot_state b) (4 * k + 2) \<longrightarrow> finished pc) \<and>
     (pc = T_loaded \<longrightarrow> bit (boot_state b) (4 * k + 2)) \<and>
     ((\<exists>n. pc = T_wait n) \<longrightarrow> bit (boot_state b) (4 * k + 1)) \<and>
     (is_loading pc \<longrightarrow> (\<exists>st. monitor b = M_loading k st)) \<and>
     (current_boot_cue b = k \<longrightarrow> finished pc \<or> (\<exists>st. monitor b = M_loading k st)) \<and>
     ((\<exists>st. monitor b = M_loading k st) \<longrightarrow> finished pc \<or> bit (boot_state b) (4 * k + 1))"

definition boot_inv :: "u32 \<Rightarrow> boot \<Rightarrow> bool" where
  "boot_inv avail b \<longleftrightarrow> monitor_ok avail b (monitor b) \<and> (\<forall>k. available avail k \<longrightarrow> medium_ok b k (medium b k))"

lemma mod4_neq: "4 * j + Suc 0 \<noteq> 4 * (k :: nat)" "4 * j + 2 \<noteq> 4 * k" "4 * j + Suc 0 \<noteq> 4 * k + 2"
  by presburger+

lemma stale_or: "stale w v \<Longrightarrow> stale w (v OR x)"
  by (simp add: stale_def bit_or_iff)

lemma monitor_ok_or: "monitor_ok avail b pc \<Longrightarrow> monitor_ok avail (b\<lparr>boot_state := boot_state b OR x, medium := t\<rparr>) pc"
  by (cases pc) (auto simp: stale_or bit_or_iff split: option.splits)

lemma medium_ok_other:
  assumes "medium_ok b j pc" "j < 4" "k < 4" "j \<noteq> k" "x \<in> {exit_bit k, ready_bit k, loaded_bit k, 0}"
  shows "medium_ok (b\<lparr>boot_state := boot_state b OR x, medium := t\<rparr>) j pc"
proof -
  have "bit (boot_state b OR x) (4 * j + i) \<longleftrightarrow> bit (boot_state b) (4 * j + i)" if "i < 4" for i
    using assms(2-5) that by (auto simp: bit_or_iff bit_medium_bits)
  from this [of 0] this [of 1] this [of 2] show ?thesis
    using assms(1) by (simp add: medium_ok_def)
qed

text \<open>A medium thread sets one of its bits and moves on.\<close>

lemma boot_inv_own:
  assumes "boot_inv avail b" "available avail k" "x \<in> {exit_bit k, ready_bit k, loaded_bit k, 0}"
    "medium_ok (b\<lparr>boot_state := boot_state b OR x, medium := t\<rparr>) k pc" "t = (medium b)(k := pc)"
  shows "boot_inv avail (b\<lparr>boot_state := boot_state b OR x, medium := t\<rparr>)"
proof -
  have "medium_ok (b\<lparr>boot_state := boot_state b OR x, medium := t\<rparr>) j (t j)" if "available avail j" for j
    using assms that medium_ok_other [of b j "medium b j" k x t] by (cases "j = k") (auto simp: boot_inv_def available_def)
  then show ?thesis
    using assms(1) monitor_ok_or [of avail b "monitor b"] by (auto simp: boot_inv_def)
qed

lemma medium_step_eq:
  assumes "k < 4"
  shows "medium_step k c b =
    (case medium b k of
       T_probe n \<Rightarrow>
         if k \<noteq> BOOT_MEDIUM_SPI \<and> (k = BOOT_MEDIUM_NVME \<and> n = 0 \<or> c = Unusable) then Some (at_medium k T_leaving b)
         else Some (at_medium k (T_wait n) (cue_announce k b))
     | T_wait n \<Rightarrow> await_cue k n b
     | T_loading n \<Rightarrow>
         if c = Load_ok then Some (at_medium k T_loaded (boot_medium_loaded k b))
         else if k = BOOT_MEDIUM_NVME \<and> c \<noteq> Load_global then Some (at_medium k (T_probe (n - 1)) b)
         else Some (at_medium k T_leaving b)
     | T_loaded \<Rightarrow> Some (at_medium k T_leaving b)
     | T_leaving \<Rightarrow> leave k b
     | T_exited \<Rightarrow> None)"
proof -
  have "k = 0 \<or> k = 1 \<or> k = 2 \<or> k = 3" using assms by auto
  then show ?thesis
    by (cases "medium b k")
      (auto simp: medium_step_def sd_step_def emmc_step_def nvme_step_def spi_step_def Let_def
        BOOT_MEDIUM_SD_def BOOT_MEDIUM_EMMC_def BOOT_MEDIUM_NVME_def BOOT_MEDIUM_SPI_def)
qed

lemmas medium_simps = medium_step_eq await_cue_def leave_def at_medium_def medium_ok_def finished_def is_loading_def cue_announce_def
  boot_medium_loaded_def boot_medium_exit_def cue_received_def bit_or_iff bit_medium_bits mod4_neq

lemma boot_inv_medium:
  assumes i: "boot_inv avail b" and a: "available avail k" and s: "medium_step k c b = Some b'"
  shows "boot_inv avail b'"
proof -
  have k: "k < 4" using a by (simp add: available_def)
  have m: "medium_ok b k (medium b k)" using i a by (simp add: boot_inv_def)
  obtain x pc where "b' = b\<lparr>boot_state := boot_state b OR x, medium := (medium b)(k := pc)\<rparr>"
    "x \<in> {exit_bit k, ready_bit k, loaded_bit k, 0}"
    "medium_ok (b\<lparr>boot_state := boot_state b OR x, medium := (medium b)(k := pc)\<rparr>) k pc"
  proof (cases "medium b k")
    case (T_probe n)
    show ?thesis
    proof (cases "k \<noteq> BOOT_MEDIUM_SPI \<and> (k = BOOT_MEDIUM_NVME \<and> n = 0 \<or> c = Unusable)")
      case True
      then show ?thesis
        using that [where x = 0 and pc = T_leaving] s T_probe m k by (auto simp: medium_simps)
    next
      case False
      then have e: "b' = b\<lparr>boot_state := boot_state b OR ready_bit k, medium := (medium b)(k := T_wait n)\<rparr>"
        using s T_probe k by (auto simp: medium_simps split: if_splits)
      show ?thesis
        by (rule that [OF e]) (use False T_probe m k in \<open>auto simp: medium_simps BOOT_MEDIUM_NVME_def BOOT_MEDIUM_SPI_def\<close>)
    qed
  next
    case (T_wait n)
    show ?thesis
    proof (cases "current_boot_cue b = BOOT_CUE_EXIT")
      case True
      then show ?thesis
        using that [where x = 0 and pc = T_leaving] s T_wait m k by (auto simp: medium_simps)
    next
      case False
      then have "current_boot_cue b = k"
        using s T_wait k by (auto simp: medium_simps split: if_splits)
      then show ?thesis
        using that [where x = 0 and pc = "T_loading n"] s T_wait m k False by (auto simp: medium_simps)
    qed
  next
    case (T_loading n)
    consider "c = Load_ok" | "c \<noteq> Load_ok" "k = BOOT_MEDIUM_NVME \<and> c \<noteq> Load_global"
      | "c \<noteq> Load_ok" "\<not> (k = BOOT_MEDIUM_NVME \<and> c \<noteq> Load_global)" by blast
    then show ?thesis
    proof cases
      case 1
      then show ?thesis
        using that [where x = "loaded_bit k" and pc = T_loaded] s T_loading m k by (auto simp: medium_simps)
    next
      case 2
      then show ?thesis
        using that [where x = 0 and pc = "T_probe (n - 1)"] s T_loading m k by (auto simp: medium_simps)
    next
      case 3
      then show ?thesis
        using that [where x = 0 and pc = T_leaving] s T_loading m k by (auto simp: medium_simps)
    qed
  next
    case T_loaded
    then show ?thesis
      using that [where x = 0 and pc = T_leaving] s m k by (auto simp: medium_simps)
  next
    case T_leaving
    then show ?thesis
      using that [where x = "exit_bit k" and pc = T_exited] s m k by (auto simp: medium_simps)
  next
    case T_exited
    then show ?thesis
      using s k by (simp add: medium_step_eq)
  qed
  with boot_inv_own [OF i a] show ?thesis by blast
qed

definition waits_load :: "monitor_pc \<Rightarrow> nat \<Rightarrow> bool" where
  "waits_load pc k \<longleftrightarrow> (\<exists>st. pc = M_loading k st)"

text \<open>The monitor moves on, away from a medium only when that is finished.\<close>

lemma boot_inv_at:
  assumes i: "boot_inv avail b" and p: "monitor_ok avail b pc" "\<And>k. \<not> waits_load pc k"
    and f: "\<And>k. waits_load (monitor b) k \<Longrightarrow> finished (medium b k)"
  shows "boot_inv avail (at_monitor pc b)"
proof -
  have "monitor_ok avail (at_monitor pc b) pc"
    using p(1) by (cases pc) (auto simp: at_monitor_def split: option.splits)
  moreover have "medium_ok (at_monitor pc b) k (medium b k)" if "available avail k" for k
    using i that p(2) [of k] f [of k]
    by (auto simp: boot_inv_def medium_ok_def at_monitor_def waits_load_def finished_def is_loading_def)
  ultimately show ?thesis
    by (simp add: boot_inv_def) (simp add: at_monitor_def)
qed

lemma monitor_boot_state_bits:
  assumes "monitor_boot_state b st msk = Some st'" "stale st (boot_state b)"
  shows "stale st' (boot_state b)" "st' AND msk \<noteq> 0"
  using assms by (auto simp: monitor_boot_state_def stale_def split: if_splits)

lemma boot_inv_monitor:
  assumes i: "boot_inv avail b" and s: "monitor_step avail payload_ok pressed b = Some b'"
  shows "boot_inv avail b'"
proof -
  have ok: "monitor_ok avail b (monitor b)" using i by (simp add: boot_inv_def)
  note at = boot_inv_at [OF i]
  show ?thesis
  proof (cases "monitor b")
    case M_start
    then show ?thesis
      using s at [of "M_next 0 (boot_state b)"] at [of "M_board None"] at [of M_dead]
      by (auto simp: monitor_step_def waits_load_def stale_def split: if_splits)
  next
    case (M_next k st)
    then show ?thesis
      using s ok at [of "M_next (k + 1) st"] at [of "M_ready k st"] at [of M_dead]
      by (auto simp: monitor_step_def waits_load_def available_def NUM_BOOT_MEDIUM_def and_medium_bits bit_not_iff split: if_splits)
  next
    case (M_ready k st)
    then obtain st' where st': "monitor_boot_state b st (ready_bit k OR exit_bit k) = Some st'"
      "b' = at_monitor (if st' AND exit_bit k \<noteq> 0 then M_next (k + 1) st' else M_cue k st') b"
      using s by (auto simp: monitor_step_def)
    have a: "available avail k" "stale st (boot_state b)" using ok M_ready by auto
    then have "k < 4" "avail \<noteq> 0" by (auto simp: available_def)
    with monitor_boot_state_bits [OF st'(1) a(2)] have "stale st' (boot_state b)" "bit st' (4 * k + 1) \<or> bit st' (4 * k)"
      by (auto simp: and_medium_bits)
    then show ?thesis
      using st'(2) at [of "M_next (k + 1) st'"] at [of "M_cue k st'"] M_ready a \<open>k < 4\<close> \<open>avail \<noteq> 0\<close>
      by (auto simp: waits_load_def and_medium_bits stale_def)
  next
    case (M_cue k st)
    then have "b' = b\<lparr>current_boot_cue := k, monitor := M_loading k st\<rparr>"
      using s by (simp add: monitor_step_def at_monitor_def store_cue_def)
    then show ?thesis
      using i M_cue by (auto simp: boot_inv_def medium_ok_def is_loading_def)
  next
    case (M_loading k st)
    then obtain st' where st': "monitor_boot_state b st (loaded_bit k OR exit_bit k) = Some st'"
      "b' = at_monitor (if st' AND loaded_bit k \<noteq> 0 then M_loaded k st' else M_next (k + 1) st') b"
      using s by (auto simp: monitor_step_def)
    have a: "available avail k" "stale st (boot_state b)" using ok M_loading by auto
    then have "k < 4" "avail \<noteq> 0" by (auto simp: available_def)
    with monitor_boot_state_bits [OF st'(1) a(2)] have st'': "stale st' (boot_state b)" "bit st' (4 * k + 2) \<or> bit st' (4 * k)"
      by (auto simp: and_medium_bits)
    have "medium_ok b k (medium b k)" using i a(1) by (simp add: boot_inv_def)
    then have "finished (medium b k)"
      using st'' by (auto simp: medium_ok_def stale_def finished_def)
    then show ?thesis
      using st'(2) st'' at [of "M_next (k + 1) st'"] at [of "M_loaded k st'"] M_loading a \<open>k < 4\<close> \<open>avail \<noteq> 0\<close>
      by (auto simp: waits_load_def and_medium_bits stale_def)
  next
    case (M_loaded k st)
    then have "avail \<noteq> 0" using ok by (auto simp: available_def)
    then show ?thesis
      using s ok at [of "M_next (k + 1) st"] at [of "M_accept (Some k)"] M_loaded
      by (auto simp: monitor_step_def waits_load_def)
  next
    case (M_accept p)
    then have "b' = b\<lparr>current_boot_cue := BOOT_CUE_EXIT, monitor := M_board p\<rparr>"
      using s by (simp add: monitor_step_def at_monitor_def store_cue_def)
    then show ?thesis
      using i M_accept by (auto simp: boot_inv_def medium_ok_def is_loading_def available_def BOOT_CUE_EXIT_def)
  next
    case (M_board p)
    then show ?thesis
      using s ok at [of "M_done p"] by (auto simp: monitor_step_def waits_load_def split: if_splits)
  qed (use s in \<open>simp_all add: monitor_step_def\<close>)
qed

lemma boot_inv_board: "boot_inv avail b \<Longrightarrow> boot_inv avail (probe_board board b)"
  by (cases "monitor b") (auto simp: boot_inv_def probe_board_def medium_ok_def split: option.splits)

lemma boot_inv_step: "boot_step avail b b' \<Longrightarrow> boot_inv avail b \<Longrightarrow> boot_inv avail b'"
  by (erule boot_stepE) (auto intro: boot_inv_monitor boot_inv_medium boot_inv_board simp: available_def and_medium_bits NUM_BOOT_MEDIUM_def)

lemma boot_inv_steps: "(boot_step avail)\<^sup>*\<^sup>* b b' \<Longrightarrow> boot_inv avail b \<Longrightarrow> boot_inv avail b'"
  by (induction rule: rtranclp_induct) (auto intro: boot_inv_step)

lemma available_media: "available (available_boot_media sd emmc nvme spi) k \<longleftrightarrow>
    (k = 0 \<and> sd \<or> k = 1 \<and> emmc \<or> k = 2 \<and> nvme \<or> k = 3 \<and> spi)"
  by (auto simp: available_def available_boot_media_def bit_or_iff bit_medium_bits split: if_splits)

lemma boot_inv_init:
  assumes "avail = available_boot_media sd emmc nvme spi"
  shows "boot_inv avail (boot_init avail board ns)"
proof -
  let ?b = "avail XOR all_exit_mask"
  have "medium_ok (boot_init avail board ns) k (T_probe (if k = BOOT_MEDIUM_NVME then ns else 1))" if "available avail k" for k
  proof -
    have k: "k < 4" "bit avail (4 * k)" using that by (auto simp: available_def)
    have n: "bit avail n \<Longrightarrow> n \<in> {0, 4, 8, 12}" for n
      unfolding assms available_boot_media_def by (auto simp: bit_or_iff bit_medium_bits split: if_splits)
    have "k = 0 \<or> k = 1 \<or> k = 2 \<or> k = 3" using k(1) by auto
    then have "\<not> bit ?b (4 * k + 1)" "\<not> bit ?b (4 * k + 2)" "\<not> bit ?b (4 * k)"
      using k(2) n [of "4 * k + 1"] n [of "4 * k + 2"]
      by (auto simp: bit_xor_iff all_exit_mask_def bit_or_iff bit_medium_bits)
    then show ?thesis
      using k(1) by (auto simp: medium_ok_def boot_init_def is_loading_def finished_def BOOT_CUE_NONE_def)
  qed
  then show ?thesis
    by (simp add: boot_inv_def) (simp add: boot_init_def)
qed

section \<open>Every run ends with a verdict\<close>

fun medium_rank :: "medium_pc \<Rightarrow> nat" where
  "medium_rank (T_probe n) = 3 * n + 5"
| "medium_rank (T_wait n) = 3 * n + 4"
| "medium_rank (T_loading n) = 3 * n + 3"
| "medium_rank T_loaded = 2"
| "medium_rank T_leaving = 1"
| "medium_rank T_exited = 0"

fun monitor_rank :: "monitor_pc \<Rightarrow> nat" where
  "monitor_rank M_start = 36"
| "monitor_rank (M_next k st) = 6 * (5 - k) + 5"
| "monitor_rank (M_ready k st) = 6 * (5 - k) + 4"
| "monitor_rank (M_cue k st) = 6 * (5 - k) + 3"
| "monitor_rank (M_loading k st) = 6 * (5 - k) + 2"
| "monitor_rank (M_loaded k st) = 6 * (5 - k) + 1"
| "monitor_rank (M_accept p) = 2"
| "monitor_rank (M_board p) = 1"
| "monitor_rank _ = 0"

definition boot_rank :: "boot \<Rightarrow> nat" where
  "boot_rank b = monitor_rank (monitor b) + (if detected_board b = 0 then 1 else 0) + (\<Sum>k<4. medium_rank (medium b k))"

lemma monitor_rank_step:
  assumes "monitor_step avail payload_ok pressed b = Some b'" "boot_inv avail b"
  shows "boot_rank b' < boot_rank b"
proof -
  have ok: "monitor_ok avail b (monitor b)" using assms(2) by (simp add: boot_inv_def)
  have "monitor_rank (monitor b') < monitor_rank (monitor b) \<and> medium b' = medium b \<and> detected_board b' = detected_board b"
    using assms(1) ok
    by (cases "monitor b") (auto simp: monitor_step_def at_monitor_def store_cue_def available_def NUM_BOOT_MEDIUM_def split: if_splits)
  then show ?thesis
    by (simp add: boot_rank_def)
qed

lemma medium_rank_step:
  assumes "medium_step k c b = Some b'" "boot_inv avail b" "available avail k"
  shows "boot_rank b' < boot_rank b"
proof -
  have k: "k < 4" "tries_left k (medium b k)" using assms(2,3) by (auto simp: boot_inv_def medium_ok_def available_def)
  obtain pc where pc: "medium b' = (medium b)(k := pc)" "monitor b' = monitor b" "detected_board b' = detected_board b"
    "medium_rank pc < medium_rank (medium b k)"
    using assms(1) k
    by (cases "medium b k")
      (auto simp: medium_step_eq await_cue_def leave_def at_medium_def cue_announce_def boot_medium_loaded_def boot_medium_exit_def cue_received_def split: if_splits)
  have "(\<Sum>j<4. medium_rank (((medium b)(k := pc)) j)) < (\<Sum>j<4. medium_rank (medium b j))"
    by (rule sum_strict_mono_ex1) (use k(1) pc(4) in auto)
  then show ?thesis
    using pc(1-3) by (simp add: boot_rank_def)
qed

lemma boot_rank_step: "boot_step avail b b' \<Longrightarrow> boot_inv avail b \<Longrightarrow> boot_rank b' < boot_rank b"
proof (erule boot_stepE, goal_cases)
  case (3 board)
  then show ?case by (auto simp: boot_rank_def probe_board_def)
qed (auto intro: monitor_rank_step medium_rank_step simp: available_def and_medium_bits NUM_BOOT_MEDIUM_def)

text \<open>No step is left: the machine has died, or the monitor is done and all media have exited.\<close>

definition verdict :: "u32 \<Rightarrow> boot \<Rightarrow> bool" where
  "verdict avail b \<longleftrightarrow> monitor b = M_dead \<or> (\<exists>p. monitor b = M_done p) \<and> (\<forall>k. available avail k \<longrightarrow> medium b k = T_exited)"

lemma stuck_verdict:
  assumes i: "boot_inv avail b" and s: "\<And>b'. \<not> boot_step avail b b'"
  shows "verdict avail b"
proof (cases "monitor b = M_dead")
  case False
  have ok: "monitor_ok avail b (monitor b)" using i by (simp add: boot_inv_def)
  have mon: "monitor_step avail payload_ok pressed b = None" for payload_ok pressed
    using s False boot_step.monitor by (metis not_None_eq)
  have board: "detected_board b \<noteq> 0"
    using s False boot_step.board [of b 1] by blast
  have med: "medium b k = T_exited \<or> (\<exists>n. medium b k = T_wait n) \<and> cue_received k b = None" if "available avail k" for k
  proof -
    have "medium_step k c b = None" for c
      using s False boot_step.medium [of b k avail c] that
      by (cases "medium_step k c b") (auto simp: available_def NUM_BOOT_MEDIUM_def and_medium_bits)
    from this [of Load_ok] show ?thesis
      using that by (cases "medium b k") (auto simp: medium_step_eq await_cue_def leave_def available_def split: if_splits)
  qed
  have bits: "medium_ok b k (medium b k)" if "available avail k" for k
    using i that by (simp add: boot_inv_def)
  have "\<exists>p. monitor b = M_done p"
  proof (cases "monitor b")
    case (M_ready k st)
    then have a: "available avail k" "k < 4" using ok by (auto simp: available_def)
    then have "boot_state b AND (ready_bit k OR exit_bit k) \<noteq> 0"
      using med [OF a(1)] bits [OF a(1)] by (auto simp: and_medium_bits medium_ok_def)
    then show ?thesis
      using mon [of False False] M_ready by (auto simp: monitor_step_def monitor_boot_state_def split: if_splits)
  next
    case (M_loading k st)
    then have a: "available avail k" "k < 4" "current_boot_cue b = k" using ok by (auto simp: available_def)
    then have "medium b k = T_exited"
      using med [OF a(1)] by (auto simp: cue_received_def split: if_splits)
    then have "boot_state b AND (loaded_bit k OR exit_bit k) \<noteq> 0"
      using bits [OF a(1)] a(2) by (auto simp: and_medium_bits medium_ok_def)
    then show ?thesis
      using mon [of False False] M_loading by (auto simp: monitor_step_def monitor_boot_state_def split: if_splits)
  qed (use mon [of False False] board False in \<open>auto simp: monitor_step_def split: if_splits\<close>)
  then obtain p where p: "monitor b = M_done p" by blast
  have "medium b k = T_exited" if "available avail k" for k
  proof -
    have "current_boot_cue b = BOOT_CUE_EXIT"
      using ok p that by (auto simp: available_def split: option.splits)
    then show ?thesis
      using med [OF that] by (auto simp: cue_received_def)
  qed
  then show ?thesis
    using p by (simp add: verdict_def)
qed (simp add: verdict_def)

lemma boot_rank_steps: "(boot_step avail ^^ n) b b' \<Longrightarrow> boot_inv avail b \<Longrightarrow> boot_inv avail b' \<and> boot_rank b' + n \<le> boot_rank b"
proof (induction n arbitrary: b')
  case (Suc n)
  then obtain c where c: "(boot_step avail ^^ n) b c" "boot_step avail c b'" by auto
  with Suc show ?case
    using boot_inv_step [OF c(2)] boot_rank_step [OF c(2)] by fastforce
qed simp

section \<open>Properties\<close>

definition reachable :: "bool \<Rightarrow> bool \<Rightarrow> bool \<Rightarrow> bool \<Rightarrow> u32 \<Rightarrow> nat \<Rightarrow> boot \<Rightarrow> bool" where
  "reachable sd emmc nvme spi board ns b \<longleftrightarrow>
     (let avail = available_boot_media sd emmc nvme spi in (boot_step avail)\<^sup>*\<^sup>* (boot_init avail board ns) b)"

lemma reachable_inv: "reachable sd emmc nvme spi board ns b \<Longrightarrow> boot_inv (available_boot_media sd emmc nvme spi) b"
  unfolding reachable_def Let_def by (erule boot_inv_steps) (rule boot_inv_init [OF refl])



text \<open>Runs given by the sequence of the threads that step.\<close>

datatype boot_action = Monitor bool | Medium nat outcome | Board u32

fun boot_run :: "u32 \<Rightarrow> boot_action list \<Rightarrow> boot \<Rightarrow> boot option" where
  "boot_run avail [] b = Some b"
| "boot_run avail (x # xs) b =
    (if monitor b = M_dead then None
     else case x of
       Monitor pressed \<Rightarrow> (case monitor_step avail True pressed b of None \<Rightarrow> None | Some b' \<Rightarrow> boot_run avail xs b')
     | Medium k c \<Rightarrow>
         if k < NUM_BOOT_MEDIUM \<and> avail AND exit_bit k \<noteq> 0
         then (case medium_step k c b of None \<Rightarrow> None | Some b' \<Rightarrow> boot_run avail xs b') else None
     | Board n \<Rightarrow> if detected_board b = 0 \<and> n \<in> {1, 2} then boot_run avail xs (probe_board n b) else None)"

lemma boot_run_steps: "boot_run avail xs b = Some b' \<Longrightarrow> (boot_step avail ^^ length xs) b b'"
proof (induction xs arbitrary: b)
  case (Cons x xs)
  then have "\<exists>c. boot_step avail b c \<and> boot_run avail xs c = Some b'"
    by (auto split: if_splits boot_action.splits option.splits
        intro: boot_step.monitor boot_step.medium boot_step.board)
  then show ?case
    using Cons.IH relpowp_Suc_I2 by (metis length_Cons)
qed simp

abbreviation only_emmc :: u32 where "only_emmc \<equiv> available_boot_media False True False False"

definition emmc_run :: "boot_action list" where
  "emmc_run = [Monitor False, Monitor False, Monitor False, Medium 1 Usable, Monitor False, Monitor False, Medium 1 Usable,
     Medium 1 Load_ok, Monitor False]"

definition emmc_accept :: "boot_action list" where
  "emmc_accept = emmc_run @ [Monitor False, Monitor False, Medium 1 Usable, Medium 1 Usable, Board 1, Monitor False]"

lemma emmc_accept_result:
  "map_option (\<lambda>b. (monitor b, current_boot_cue b, medium b 1)) (boot_run only_emmc emmc_accept (boot_init only_emmc 0 0)) =
     Some (M_done (Some 1), 5, T_exited)"
  by code_simp




end
