(* ===== verification/Dram_Size.thy ===== *)
theory Dram_Size
  imports Levin_Prelude
begin

text \<open>
  The DRAM geometry: its detection by address mirroring (dram/mirror.c and
  channel_post_init of dram/memorymap.c), its encoding in two registers that survive the
  stage (encode_dram_size) and the decoding of these by the next stage (dram/read_size.c).
\<close>

section \<open>Geometry of a channel\<close>

record sdram_geometry =
  csmask :: u8
  width :: u8
  col :: u8
  bank :: u8
  cs0_row :: u8
  cs1_row :: u8

text \<open>
  What ddrinit_irq learns from mode register 5 of each chip select: the chip selects that
  answer, and whether a second 16-bit chip answers on the upper half of the bus.
\<close>

definition set_width :: "sdram_geometry \<Rightarrow> u32 \<Rightarrow> nat \<Rightarrow> sdram_geometry" where
  "set_width geo mr_value cs =
    (if mr_value = 0 then geo
     else let geo = geo\<lparr>csmask := csmask geo OR push_bit cs 1\<rparr>
          in if drop_bit 16 mr_value \<noteq> 0 then geo\<lparr>width := 2\<rparr> else geo)"

section \<open>Encoding and decoding\<close>

definition LPDDR4 :: u32 where
  "LPDDR4 = 7"

text \<open>The body of the loop over the channels of encode_dram_size, for channel i.\<close>

definition encode_channel :: "nat \<Rightarrow> sdram_geometry \<Rightarrow> u32 \<times> u32 \<Rightarrow> (u32 \<times> u32) option" where
  "encode_channel i geo = (\<lambda>(osreg2, osreg3).
    if csmask geo = 0 then Some (osreg2, osreg3)
    else
      let bw = drop_bit (unat (width geo)) 2;
          dbw = 1;
          block_infos = push_bit 11 (if csmask geo = 3 then 1 else 0) :: u32;
          reg3_infos = 0;
          col_diff = ucast (col geo) - 9
      in if \<not> col_diff \<le> 3 then None
      else
        let block_infos = block_infos OR push_bit 9 col_diff;
            reg3_infos = reg3_infos OR col_diff;
            bank_diff = 3 - ucast (bank geo)
        in if \<not> bank_diff \<le> 1 then None
        else
          let block_infos = block_infos OR push_bit 8 bank_diff;
              r0 = ucast (cs0_row geo) :: u32;
              r1 = ucast (cs1_row geo) :: u32;
              cs0_row_diff = r0 - 13;
              cs1_row_diff = r1 - 13
          in if \<not> (r0 \<ge> 12 \<and> r0 \<le> 19) then None
          else
            let block_infos = block_infos OR (push_bit 6 cs0_row_diff AND 0xc0);
                reg3_infos = reg3_infos OR (push_bit 3 cs0_row_diff AND 0x20)
            in if \<not> (r1 \<ge> 12 \<and> r1 \<le> 19) then None
            else
              let block_infos = block_infos OR (push_bit 4 cs1_row_diff AND 0x30);
                  reg3_infos = reg3_infos OR (push_bit 2 cs1_row_diff AND 0x10);
                  block_infos = block_infos OR (push_bit 2 bw OR dbw)
              in Some (osreg2 OR (push_bit (16 * i) block_infos OR push_bit (28 + i) 1),
                       osreg3 OR push_bit (2 * i) reg3_infos))"

text \<open>The result is the values stored in PMUGRF_OS_REG2 and PMUGRF_OS_REG3.\<close>

definition encode_dram_size :: "sdram_geometry \<Rightarrow> sdram_geometry \<Rightarrow> (u32 \<times> u32) option" where
  "encode_dram_size geo0 geo1 =
    (let osreg2 = push_bit 12 ((if csmask geo0 \<noteq> 0 then 1 else 0) + (if csmask geo1 \<noteq> 0 then 1 else 0) - 1)
           OR push_bit 13 LPDDR4;
         osreg3 = 0x20000000
     in do {
       r \<leftarrow> encode_channel 0 geo0 (osreg2, osreg3);
       encode_channel 1 geo1 r
     })"

definition rank_size :: "u32 \<Rightarrow> u32 \<Rightarrow> u32 \<Rightarrow> u64" where
  "rank_size rows_lower rows_upper col_diff =
    (let row_bits = ((((rows_upper AND 4) OR (rows_lower AND 3)) + 1) AND 7) + 12;
         col_bits = (col_diff AND 3) + 9
     in push_bit (unat col_bits) (push_bit (unat row_bits) 1))"

text \<open>The body of the loop over the channels of dram_size, for channel i.\<close>

definition channel_size :: "u32 \<Rightarrow> u32 \<Rightarrow> nat \<Rightarrow> u64" where
  "channel_size osreg2 osreg3 i =
    (if NOT osreg2 AND push_bit (28 + i) 1 \<noteq> 0 then 0
     else
       let block_infos = drop_bit (16 * i) osreg2 AND 0xfff;
           reg3_infos = drop_bit (2 * i) osreg3 AND 0x33;
           ch_size = rank_size (drop_bit 6 block_infos) (drop_bit 3 reg3_infos) (drop_bit 9 block_infos);
           ch_size = (if block_infos AND 0x800 \<noteq> 0
             then ch_size + rank_size (drop_bit 4 block_infos) (drop_bit 2 reg3_infos) reg3_infos
             else ch_size);
           ch_size = (if osreg2 AND push_bit i (push_bit 30 1) \<noteq> 0
             then drop_bit 1 ch_size + drop_bit 2 ch_size else ch_size);
           bank_bits = 3 - (drop_bit 8 block_infos AND 1);
           width_bits = drop_bit (unat (drop_bit 2 block_infos AND 3)) 2 :: u32
       in push_bit (unat width_bits) (push_bit (unat bank_bits) ch_size))"

definition dram_size :: "u32 \<Rightarrow> u32 \<Rightarrow> u64" where
  "dram_size osreg2 osreg3 =
    (let total_size = channel_size osreg2 osreg3 0 + channel_size osreg2 osreg3 1
     in if total_size \<ge> 0xf8000000 then 0xf8000000 else ucast (ucast total_size :: u32))"

section \<open>Mirror test\<close>

text \<open>
  The registers of one channel and the cells of the DRAM behind it.  Which cell an address
  selects is decided by the memory controller and scheduler from their registers and by the
  chips themselves: it is the parameter dec, from the registers of the controller and of the
  scheduler and the address to the cell.
\<close>

record dmc =
  pctl :: "nat \<Rightarrow> u32"
  pi_regs :: "nat \<Rightarrow> u32"
  msch :: "nat \<Rightarrow> u32"
  cells :: "nat \<Rightarrow> u32"

type_synonym decoder = "(nat \<Rightarrow> u32) \<Rightarrow> (nat \<Rightarrow> u32) \<Rightarrow> u32 \<Rightarrow> nat"

definition MIRROR_TEST_ADDR :: u32 where
  "MIRROR_TEST_ADDR = 0x100"

definition test_mirror :: "decoder \<Rightarrow> u32 \<Rightarrow> u32 \<Rightarrow> dmc \<Rightarrow> (bool \<times> dmc) option" where
  "test_mirror dec addr b s =
    (let base = dec (pctl s) (msch s) addr;
         mirror = dec (pctl s) (msch s) (addr XOR push_bit (unat b) 1);
         pattern0 = 0;
         pattern1 = 0xf00f55aa;
         s = s\<lparr>cells := (cells s)(base := pattern0)\<rparr>;
         s = s\<lparr>cells := (cells s)(mirror := pattern1)\<rparr>;
         a = cells s base;
         b = cells s mirror
     in if b = pattern1 then
          if a = pattern0 then Some (False, s)
          else if a = pattern1 then Some (True, s)
          else None
        else None)"

section \<open>Controller programming\<close>

definition SET_BITS32 :: "nat \<Rightarrow> u32 \<Rightarrow> u64" where
  "SET_BITS32 number value = push_bit 32 (mask number) OR ucast (value AND mask number)"

definition apply32v :: "nat \<Rightarrow> u64 \<Rightarrow> (nat \<Rightarrow> u32) \<Rightarrow> (nat \<Rightarrow> u32)" where
  "apply32v reg op r = r(reg := (r reg AND NOT (ucast (drop_bit 32 op))) OR ucast op)"

definition set_memory_map :: "sdram_geometry \<Rightarrow> dmc \<Rightarrow> dmc option" where
  "set_memory_map geo s =
    (let bk_diff = 3 - ucast (bank geo) :: u32;
         col_diff = 12 - ucast (col geo) :: u32;
         row_diff = 16 - ucast (cs0_row geo) :: u32;
         reduc = (if width geo \<noteq> 2 then 1 else 0);
         csm = ucast (csmask geo)
     in if \<not> col_diff \<le> 4 then None
        else if \<not> bk_diff \<le> 1 then None
        else
          let col_op = SET_BITS32 4 col_diff;
              bk_row_op = push_bit 16 (SET_BITS32 2 bk_diff) OR push_bit 24 (SET_BITS32 3 row_diff);
              s = s\<lparr>pctl := apply32v 191 col_op (pctl s)\<rparr>;
              s = s\<lparr>pctl := apply32v 190 bk_row_op (pctl s)\<rparr>;
              s = s\<lparr>pctl := apply32v 196 (SET_BITS32 2 csm OR push_bit 16 (SET_BITS32 1 reduc)) (pctl s)\<rparr>;
              s = s\<lparr>pi_regs := apply32v 199 col_op (pi_regs s)\<rparr>;
              s = s\<lparr>pi_regs := apply32v 155 bk_row_op (pi_regs s)\<rparr>;
              csm = csm OR push_bit 2 csm
          in Some (s\<lparr>pi_regs := apply32v 41 (push_bit 24 (SET_BITS32 4 csm)) (pi_regs s)\<rparr>))"

definition MSCH_DDRCONF :: nat where "MSCH_DDRCONF = 2"
definition MSCH_DDRSIZE :: nat where "MSCH_DDRSIZE = 3"
definition MSCH_TIMING1 :: nat where "MSCH_TIMING1 = 4"
definition MSCH_TIMING2 :: nat where "MSCH_TIMING2 = 5"
definition MSCH_TIMING3 :: nat where "MSCH_TIMING3 = 6"
definition MSCH_DEV2DEV :: nat where "MSCH_DEV2DEV = 7"
definition MSCH_DDRMODE :: nat where "MSCH_DDRMODE = 0x110 div 4"

record msch_config =
  timing1 :: u32
  timing2 :: u32
  timing3 :: u32
  dev2dev :: u32
  ddrmode :: u32

definition write_msch :: "nat \<Rightarrow> u32 \<Rightarrow> dmc \<Rightarrow> dmc" where
  "write_msch reg v s = s\<lparr>msch := (msch s)(reg := v)\<rparr>"

text \<open>
  The three search loops: the number of address bits is lowered while the highest of them
  mirrors, and the machine stops when it mirrors at the lowest admissible number.
\<close>

partial_function (option) search_bits ::
    "decoder \<Rightarrow> u32 \<Rightarrow> u32 \<Rightarrow> u32 \<Rightarrow> u32 \<Rightarrow> dmc \<Rightarrow> (u32 \<times> dmc) option" where
  [code]: "search_bits dec addr shift low bits s = do {
     (m, s) \<leftarrow> test_mirror dec addr (shift + bits) s;
     if m then if bits = low then None else search_bits dec addr shift low (bits - 1) s
     else Some (bits, s)
   }"

text \<open>The shift 1 << n of a u32 amount, undefined from the width on.\<close>

definition shl1 :: "u32 \<Rightarrow> u32 option" where
  "shl1 n = (if n < 32 then Some (push_bit (unat n) 1) else None)"

definition channel_post_init ::
    "decoder \<Rightarrow> msch_config \<Rightarrow> sdram_geometry \<Rightarrow> dmc \<Rightarrow> (sdram_geometry \<times> dmc) option" where
  "channel_post_init dec msch_cfg geo s =
    (let csm = ucast (csmask geo) :: u32
     in if csm = 0 then Some (geo, s)
     else if \<not> csm < 4 then None
     else if csm AND 1 = 0 then None
     else do {
       let geo = geo\<lparr>col := 12, bank := 3, cs0_row := 13, cs1_row := 13\<rparr>;
       let width_bits = (ucast (width geo) :: u32);
       _ \<leftarrow> (if width_bits \<ge> 1 \<and> width_bits \<le> 2 then Some () else None);
       s \<leftarrow> set_memory_map geo s;
       let s = write_msch MSCH_DDRSIZE (4096 div 32) s;
       let s = write_msch MSCH_DDRCONF (if width_bits = 2 then 0x0303 else 0x0202) s;
       (col_bits, s) \<leftarrow> search_bits dec MIRROR_TEST_ADDR (width_bits - 1) 9 12 s;
       let geo = geo\<lparr>col := ucast col_bits\<rparr>;
       let bank_shift = width_bits + col_bits;
       _ \<leftarrow> (if bank_shift \<ge> 11 \<and> bank_shift \<le> 14 then Some () else None);
       let ddrconf = bank_shift - 11;
       (m, s) \<leftarrow> test_mirror dec MIRROR_TEST_ADDR (width_bits + 14) s;
       let bank_bits = (if m then (2 :: u32) else 3);
       let geo = geo\<lparr>bank := ucast bank_bits\<rparr>;
       let row_shift = width_bits + col_bits + bank_bits;
       let max_row_bits = (if row_shift + 16 > 32 then 32 - row_shift else 16);
       let geo = geo\<lparr>cs0_row := ucast max_row_bits\<rparr>;
       s \<leftarrow> set_memory_map geo s;
       let s = write_msch MSCH_DDRCONF (ddrconf OR push_bit 8 ddrconf) s;
       let s = write_msch MSCH_DDRSIZE (4096 div 32) s;
       (cs0_row_bits, s) \<leftarrow> search_bits dec MIRROR_TEST_ADDR (row_shift - 1) 12 max_row_bits s;
       let geo = geo\<lparr>cs0_row := ucast cs0_row_bits\<rparr>;
       cs0_size \<leftarrow> shl1 (cs0_row_bits + row_shift - 25);
       (cs1_size, geo, s) \<leftarrow>
         (if csm AND 2 \<noteq> 0 then do {
            let s = write_msch MSCH_DDRSIZE (cs0_size OR push_bit 8 (4096 div 32 - cs0_size)) s;
            let test_addr = MIRROR_TEST_ADDR + push_bit 25 cs0_size;
            (cs1_row_bits, s) \<leftarrow> search_bits dec test_addr (row_shift - 1) 12 cs0_row_bits s;
            let geo = geo\<lparr>cs1_row := ucast cs1_row_bits\<rparr>;
            cs1_size \<leftarrow> shl1 (cs1_row_bits + row_shift - 25);
            Some (cs1_size, geo, s)
          } else Some (0, geo, s));
       let ddrsize = cs0_size OR push_bit 8 cs1_size;
       s \<leftarrow> set_memory_map geo s;
       let s = write_msch MSCH_DDRCONF ddrconf s;
       let s = write_msch MSCH_DDRSIZE ddrsize s;
       let s = write_msch MSCH_TIMING1 (timing1 msch_cfg) s;
       let s = write_msch MSCH_TIMING2 (timing2 msch_cfg) s;
       let s = write_msch MSCH_TIMING3 (timing3 msch_cfg) s;
       let s = write_msch MSCH_DEV2DEV (dev2dev msch_cfg) s;
       let s = write_msch MSCH_DDRMODE (ddrmode msch_cfg) s;
       Some (geo, s)
     })"

section \<open>Size of a geometry\<close>

definition geo_ok :: "sdram_geometry \<Rightarrow> bool" where
  "geo_ok g \<longleftrightarrow> csmask g \<in> {1, 3} \<and> width g \<in> {1, 2} \<and> col g \<in> {9, 10, 11, 12} \<and> bank g \<in> {2, 3} \<and>
     cs0_row g \<in> {12, 13, 14, 15, 16, 17, 18, 19} \<and> cs1_row g \<in> {12, 13, 14, 15, 16, 17, 18, 19}"

lemma geo_okD:
  assumes "geo_ok g"
  shows "csmask g \<in> {1, 3}" "width g \<in> {1, 2}" "col g \<in> {9, 10, 11, 12}" "bank g \<in> {2, 3}"
    "cs0_row g \<in> {12, 13, 14, 15, 16, 17, 18, 19}" "cs1_row g \<in> {12, 13, 14, 15, 16, 17, 18, 19}"
  using assms unfolding geo_ok_def by blast+

text \<open>The bytes of a rank with the given number of row address bits, and of a channel.\<close>

definition rank_bytes :: "sdram_geometry \<Rightarrow> u8 \<Rightarrow> nat" where
  "rank_bytes g row = 2 ^ (unat row + unat (col g) + unat (bank g) + unat (width g))"

definition geo_bytes :: "sdram_geometry \<Rightarrow> nat" where
  "geo_bytes g = (if csmask g = 0 then 0
     else rank_bytes g (cs0_row g) + (if csmask g = 3 then rank_bytes g (cs1_row g) else 0))"

text \<open>The fields of an encoded channel, as bit ranges.\<close>

definition pack2 :: "bool \<Rightarrow> u32 \<Rightarrow> u32 \<Rightarrow> u32 \<Rightarrow> u32 \<Rightarrow> u32 \<Rightarrow> u32" where
  "pack2 two c b r0 r1 w = push_bit 11 (of_bool two) OR push_bit 9 (take_bit 2 c) OR push_bit 8 (take_bit 1 b)
     OR push_bit 6 (take_bit 2 r0) OR push_bit 4 (take_bit 2 r1) OR push_bit 2 (take_bit 2 w) OR 1"

definition pack3 :: "u32 \<Rightarrow> u32 \<Rightarrow> u32 \<Rightarrow> u32" where
  "pack3 c r0 r1 = take_bit 2 c OR push_bit 5 (take_bit 1 (drop_bit 2 r0)) OR push_bit 4 (take_bit 1 (drop_bit 2 r1))"

definition blk_bits :: "sdram_geometry \<Rightarrow> u32" where
  "blk_bits g = pack2 (csmask g = 3) (ucast (col g) - 9) (3 - ucast (bank g)) (ucast (cs0_row g) - 13)
     (ucast (cs1_row g) - 13) (2 - ucast (width g))"

definition reg3_bits :: "sdram_geometry \<Rightarrow> u32" where
  "reg3_bits g = pack3 (ucast (col g) - 9) (ucast (cs0_row g) - 13) (ucast (cs1_row g) - 13)"

lemma push_and_mask:
  assumes "k \<le> m"
  shows "push_bit k x AND push_bit m (mask j) = push_bit m (take_bit j (drop_bit (m - k) x :: 'a::len word))"
  using assms by (intro bit_word_eqI) (auto simp: bit_simps)

lemma and_mask_shifts:
  "push_bit 6 x AND 0xc0 = push_bit 6 (take_bit 2 x)" "push_bit 4 x AND 0x30 = push_bit 4 (take_bit 2 x)"
  "push_bit 3 x AND 0x20 = push_bit 5 (take_bit 1 (drop_bit 2 x))"
  "push_bit 2 x AND 0x10 = push_bit 4 (take_bit 1 (drop_bit 2 x))" for x :: u32
  using push_and_mask [of 6 6 x 2] push_and_mask [of 4 4 x 2] push_and_mask [of 3 5 x 1]
    push_and_mask [of 2 4 x 1]
  by (simp_all add: push_bit_eq_mult mask_eq_exp_minus_1)

lemma encode_channel_ok:
  assumes "geo_ok g"
  shows "encode_channel i g (a, b) = Some (a OR (push_bit (16 * i) (blk_bits g) OR push_bit (28 + i) 1),
    b OR push_bit (2 * i) (reg3_bits g))"
proof -
  have c: "take_bit 2 (ucast (col g) - 9 :: u32) = ucast (col g) - 9" "ucast (col g) - 9 \<le> (3 :: u32)"
    using geo_okD(3) [OF assms] by auto
  have b: "take_bit 1 (3 - ucast (bank g) :: u32) = 3 - ucast (bank g)" "3 - ucast (bank g) \<le> (1 :: u32)"
    using geo_okD(4) [OF assms] by auto
  have w: "drop_bit (unat (width g)) 2 = take_bit 2 (2 - ucast (width g) :: u32)"
    using geo_okD(2) [OF assms] by auto
  have r0: "12 \<le> (ucast (cs0_row g) :: u32)" "ucast (cs0_row g) \<le> (19 :: u32)"
    using geo_okD(5) [OF assms] by auto
  have r1: "12 \<le> (ucast (cs1_row g) :: u32)" "ucast (cs1_row g) \<le> (19 :: u32)"
    using geo_okD(6) [OF assms] by auto
  have m: "csmask g \<noteq> 0"
    using geo_okD(1) [OF assms] by auto
  have "(if csmask g = 3 then 1 else 0) = (of_bool (csmask g = 3) :: u32)" by simp
  with c b w r0 r1 m show ?thesis
    unfolding encode_channel_def blk_bits_def reg3_bits_def pack2_def pack3_def Let_def
    by (simp add: and_mask_shifts or.assoc)
qed

lemma bit_of_bool_1: "bit (of_bool P :: 'a::len word) n \<longleftrightarrow> P \<and> n = 0"
  by (cases P) (auto simp: bit_simps)

lemmas field_bits = pack2_def pack3_def bit_of_bool_1 bit_simps

lemma blk_bits_less: "bit (blk_bits g) n \<Longrightarrow> n < 12"
  by (auto simp: blk_bits_def field_bits)

lemma reg3_bits_in: "bit (reg3_bits g) n \<Longrightarrow> n < 2 \<or> 4 \<le> n \<and> n < 6"
  by (auto simp: reg3_bits_def field_bits)

text \<open>The fields of a channel read back from the registers of both.\<close>

lemma osreg2_fields:
  fixes r b0 b1 hdr :: u32
  assumes r: "r = hdr OR (b0 OR push_bit 28 (of_bool p0)) OR (push_bit 16 b1 OR push_bit 29 (of_bool p1))"
    and b: "\<And>n. bit b0 n \<Longrightarrow> n < 12" "\<And>n. bit b1 n \<Longrightarrow> n < 12" "\<And>n. bit hdr n \<Longrightarrow> 12 \<le> n \<and> n < 16"
  shows "r AND 0xfff = b0" "drop_bit 16 r AND 0xfff = b1"
    "bit r 28 \<longleftrightarrow> p0" "bit r 29 \<longleftrightarrow> p1" "\<not> bit r 30" "\<not> bit r 31"
proof -
  have m: "(0xfff :: u32) = mask 12" by (simp add: mask_eq_exp_minus_1)
  show "r AND 0xfff = b0"
    unfolding m r by (rule bit_word_eqI) (auto simp: bit_simps bit_of_bool_1 dest: b)
  show "drop_bit 16 r AND 0xfff = b1"
    unfolding m r by (rule bit_word_eqI) (auto simp: bit_simps bit_of_bool_1 dest: b)
  show "bit r 28 \<longleftrightarrow> p0" "bit r 29 \<longleftrightarrow> p1" "\<not> bit r 30" "\<not> bit r 31"
    unfolding r by (auto simp: bit_simps bit_of_bool_1 dest: b)
qed

lemma osreg3_fields:
  fixes r c0 c1 :: u32
  assumes r: "r = 0x20000000 OR c0 OR push_bit 2 c1"
    and c: "\<And>n. bit c0 n \<Longrightarrow> n < 2 \<or> 4 \<le> n \<and> n < 6" "\<And>n. bit c1 n \<Longrightarrow> n < 2 \<or> 4 \<le> n \<and> n < 6"
  shows "r AND 0x33 = c0" "drop_bit 2 r AND 0x33 = c1"
proof -
  have m: "(0x33 :: u32) = mask 2 OR push_bit 4 (mask 2)" by (simp add: mask_eq_exp_minus_1)
  have h: "(0x20000000 :: u32) = push_bit 29 (of_bool True)" by simp
  show "r AND 0x33 = c0"
    unfolding m r h by (rule bit_word_eqI) (auto simp: bit_simps bit_of_bool_1 dest: c simp del: of_bool_eq)
  show "drop_bit 2 r AND 0x33 = c1"
    unfolding m r h by (rule bit_word_eqI) (auto simp: bit_simps bit_of_bool_1 dest: c simp del: of_bool_eq)
qed

text \<open>Reading a field of a register that is the union of fields.\<close>

lemma field_above: "k + j \<le> m \<Longrightarrow> take_bit j (drop_bit k (push_bit m y)) = (0 :: 'a::len word)"
  by (rule bit_word_eqI) (auto simp: bit_simps)

lemma field_below: "m + i \<le> k \<Longrightarrow> drop_bit k (push_bit m (take_bit i y)) = (0 :: 'a::len word)"
  by (rule bit_word_eqI) (auto simp: bit_simps)

lemma field_here: "k + i \<le> LENGTH('a) \<Longrightarrow> drop_bit k (push_bit k (take_bit i y)) = (take_bit i y :: 'a::len word)"
  by (rule bit_word_eqI) (auto simp: bit_simps)

lemmas fields = field_above field_below field_here drop_bit_or take_bit_or

lemma and_small_masks: "x AND 3 = take_bit 2 x" "x AND 1 = take_bit 1 x" "x AND 4 = push_bit 2 (take_bit 1 (drop_bit 2 x))"
  for x :: u32
  using push_and_mask [of 0 2 x 1] by (simp_all add: take_bit_eq_mask mask_eq_exp_minus_1 push_bit_eq_mult)

lemma pack2_fields:
  "drop_bit 6 (pack2 two c b r0 r1 w) AND 3 = take_bit 2 r0" "drop_bit 4 (pack2 two c b r0 r1 w) AND 3 = take_bit 2 r1"
  "drop_bit 9 (pack2 two c b r0 r1 w) AND 3 = take_bit 2 c" "drop_bit 8 (pack2 two c b r0 r1 w) AND 1 = take_bit 1 b"
  "drop_bit 2 (pack2 two c b r0 r1 w) AND 3 = take_bit 2 w"
  unfolding and_small_masks pack2_def
  by (simp_all add: fields del: take_bit_Suc_0 One_nat_def)

lemma pack2_two: "bit (pack2 two c b r0 r1 w) 11 \<longleftrightarrow> two"
  by (auto simp: field_bits)

lemma take_bit_3: "push_bit 2 (take_bit 1 (drop_bit 2 r)) OR take_bit 2 r = take_bit 3 (r :: u32)"
proof (rule bit_word_eqI)
  fix n :: nat
  have "n < 3 \<longleftrightarrow> n < 2 \<or> n = 2" by auto
  then show "bit (push_bit 2 (take_bit 1 (drop_bit 2 r)) OR take_bit 2 r) n = bit (take_bit 3 r) n"
    by (cases "n = 2") (auto simp: bit_simps bit_iff_odd_drop_bit [of r 2])
qed

lemma pack3_fields:
  "drop_bit 3 (pack3 c r0 r1) AND 4 = push_bit 2 (take_bit 1 (drop_bit 2 r0))"
  "drop_bit 2 (pack3 c r0 r1) AND 4 = push_bit 2 (take_bit 1 (drop_bit 2 r1))"
  "pack3 c r0 r1 AND 3 = take_bit 2 c"
  unfolding and_small_masks pack3_def drop_bit_drop_bit
  using field_above [of 0 2 5 "take_bit 1 (drop_bit 2 r0)"] field_above [of 0 2 4 "take_bit 1 (drop_bit 2 r1)"]
    field_below [of 0 2 5 c] field_below [of 0 2 4 c]
  by (simp_all add: fields del: take_bit_Suc_0 One_nat_def)

lemma unat_u8_u32: "unat (ucast (x :: u8) :: u32) = unat x"
  using unsigned_less [of x, where 'a = nat] by (simp add: unsigned_ucast_eq take_bit_nat_eq_self)

lemma rank_size_row:
  assumes "(rows_upper AND 4) OR (rows_lower AND 3) = take_bit 3 (ucast row - 13)"
    and "col_diff AND 3 = take_bit 2 (ucast cl - 9)"
    and row: "row \<in> {12, 13, 14, 15, 16, 17, 18, 19 :: u8}" and cl: "cl \<in> {9, 10, 11, 12 :: u8}"
  shows "rank_size rows_lower rows_upper col_diff = of_nat (2 ^ (unat row + unat cl))"
proof -
  have r: "((((rows_upper AND 4) OR (rows_lower AND 3)) + 1) AND 7) + 12 = ucast row"
    unfolding assms(1) using row by (auto simp: mask_eq_exp_minus_1)
  have c: "(col_diff AND 3) + 9 = ucast cl"
    unfolding assms(2) using cl by auto
  show ?thesis
    unfolding rank_size_def Let_def r c
    by (simp add: push_bit_eq_mult power_add unat_u8_u32)
qed

text \<open>The size of a channel computed from its two fields.\<close>

definition decoded_size :: "u32 \<Rightarrow> u32 \<Rightarrow> u64" where
  "decoded_size block_infos reg3_infos =
    (let ch_size = rank_size (drop_bit 6 block_infos) (drop_bit 3 reg3_infos) (drop_bit 9 block_infos);
         ch_size = (if block_infos AND 0x800 \<noteq> 0
           then ch_size + rank_size (drop_bit 4 block_infos) (drop_bit 2 reg3_infos) reg3_infos
           else ch_size);
         bank_bits = 3 - (drop_bit 8 block_infos AND 1);
         width_bits = drop_bit (unat (drop_bit 2 block_infos AND 3)) 2 :: u32
     in push_bit (unat width_bits) (push_bit (unat bank_bits) ch_size))"

lemma channel_size_fields:
  assumes "i < 2" "\<not> bit osreg2 (30 + i)"
  shows "channel_size osreg2 osreg3 i = (if bit osreg2 (28 + i)
    then decoded_size (drop_bit (16 * i) osreg2 AND 0xfff) (drop_bit (2 * i) osreg3 AND 0x33) else 0)"
proof -
  have p: "NOT osreg2 AND push_bit (28 + i) 1 \<noteq> 0 \<longleftrightarrow> \<not> bit osreg2 (28 + i)"
    using assms(1) by (simp add: push_bit_of_1 and_exp_eq_0_iff_not_bit bit_simps del: push_bit_numeral)
  have "push_bit i (push_bit 30 (1 :: u32)) = 2 ^ (30 + i)"
    by (simp add: push_bit_eq_mult power_add)
  then have q: "osreg2 AND push_bit i (push_bit 30 1) = 0"
    using assms by (simp add: and_exp_eq_0_iff_not_bit)
  show ?thesis
    unfolding channel_size_def decoded_size_def Let_def p q by simp
qed

lemma decoded_size_geo:
  assumes "geo_ok g"
  shows "decoded_size (blk_bits g) (reg3_bits g) = of_nat (geo_bytes g)"
proof -
  note ok = geo_okD [OF assms]
  have r0: "rank_size (drop_bit 6 (blk_bits g)) (drop_bit 3 (reg3_bits g)) (drop_bit 9 (blk_bits g))
      = of_nat (2 ^ (unat (cs0_row g) + unat (col g)))"
    by (rule rank_size_row [OF _ _ ok(5,3)]) (simp_all only: blk_bits_def reg3_bits_def pack2_fields pack3_fields take_bit_3)
  have r1: "rank_size (drop_bit 4 (blk_bits g)) (drop_bit 2 (reg3_bits g)) (reg3_bits g)
      = of_nat (2 ^ (unat (cs1_row g) + unat (col g)))"
    by (rule rank_size_row [OF _ _ ok(6,3)]) (simp_all only: blk_bits_def reg3_bits_def pack2_fields pack3_fields take_bit_3)
  have two: "blk_bits g AND 0x800 \<noteq> 0 \<longleftrightarrow> csmask g = 3"
    using and_exp_eq_0_iff_not_bit [of "blk_bits g" 11] pack2_two by (simp add: blk_bits_def)
  have bk: "unat (3 - (drop_bit 8 (blk_bits g) AND 1)) = unat (bank g)"
    unfolding blk_bits_def pack2_fields using ok(4) by auto
  have w: "unat (drop_bit (unat (drop_bit 2 (blk_bits g) AND 3)) 2 :: u32) = unat (width g)"
    unfolding blk_bits_def pack2_fields using ok(2) by auto
  have "csmask g \<noteq> 0" using ok(1) by auto
  then show ?thesis
    unfolding decoded_size_def Let_def r0 r1 two bk w geo_bytes_def rank_bytes_def
    by (simp add: push_bit_eq_mult power_add algebra_simps)
qed

lemma geo_bytes_less:
  assumes "csmask g = 0 \<or> geo_ok g"
  shows "geo_bytes g \<le> 2 ^ 37"
proof (cases "csmask g = 0")
  case False
  then have ok: "geo_ok g" using assms by blast
  have "unat (width g) \<le> 2" using geo_okD(2) [OF ok] by auto
  moreover have "unat (col g) \<le> 12" using geo_okD(3) [OF ok] by auto
  moreover have "unat (bank g) \<le> 3" using geo_okD(4) [OF ok] by auto
  moreover have "unat (cs0_row g) \<le> 19" using geo_okD(5) [OF ok] by auto
  moreover have "unat (cs1_row g) \<le> 19" using geo_okD(6) [OF ok] by auto
  ultimately have "rank_bytes g (cs0_row g) \<le> 2 ^ 36" "rank_bytes g (cs1_row g) \<le> 2 ^ 36"
    unfolding rank_bytes_def by (intro power_increasing; simp)+
  then show ?thesis by (simp add: geo_bytes_def)
qed (simp add: geo_bytes_def)

text \<open>Both registers, with the fields of an absent channel empty.\<close>

definition ch_blk :: "sdram_geometry \<Rightarrow> u32" where
  "ch_blk g = (if csmask g = 0 then 0 else blk_bits g)"

definition ch_reg3 :: "sdram_geometry \<Rightarrow> u32" where
  "ch_reg3 g = (if csmask g = 0 then 0 else reg3_bits g)"

lemma encode_channel_any:
  assumes "csmask g = 0 \<or> geo_ok g"
  shows "encode_channel i g (a, b) = Some (a OR (push_bit (16 * i) (ch_blk g) OR push_bit (28 + i) (of_bool (csmask g \<noteq> 0))),
    b OR push_bit (2 * i) (ch_reg3 g))"
proof (cases "csmask g = 0")
  case True
  then show ?thesis by (simp add: encode_channel_def ch_blk_def ch_reg3_def)
next
  case False
  then show ?thesis
    using encode_channel_ok [of g i a b] assms by (simp add: ch_blk_def ch_reg3_def)
qed

lemma dram_size_encoded:
  assumes ok: "csmask g0 = 0 \<or> geo_ok g0" "csmask g1 = 0 \<or> geo_ok g1" and some: "csmask g0 \<noteq> 0 \<or> csmask g1 \<noteq> 0"
  shows "\<exists>osreg2 osreg3. encode_dram_size g0 g1 = Some (osreg2, osreg3) \<and>
    unat (dram_size osreg2 osreg3) = min 0xf8000000 (geo_bytes g0 + geo_bytes g1)"
proof -
  define hdr :: u32 where "hdr = push_bit 12 ((if csmask g0 \<noteq> 0 then 1 else 0) + (if csmask g1 \<noteq> 0 then 1 else 0) - 1)
    OR push_bit 13 LPDDR4"
  define r2 where "r2 = hdr OR (ch_blk g0 OR push_bit 28 (of_bool (csmask g0 \<noteq> 0)))
    OR (push_bit 16 (ch_blk g1) OR push_bit 29 (of_bool (csmask g1 \<noteq> 0)))"
  define r3 where "r3 = 0x20000000 OR ch_reg3 g0 OR push_bit 2 (ch_reg3 g1)"
  have enc: "encode_dram_size g0 g1 = Some (r2, r3)"
    unfolding encode_dram_size_def Let_def r2_def r3_def hdr_def
    using encode_channel_any [OF ok(1), where i = 0] encode_channel_any [OF ok(2), where i = 1]
    by (simp add: or.assoc)
  have hdr: "12 \<le> n \<and> n < 16" if "bit hdr n" for n
  proof -
    have "hdr = 0xf000 \<or> hdr = 0xe000"
      using some by (cases "csmask g0 = 0"; cases "csmask g1 = 0") (simp_all add: hdr_def LPDDR4_def)
    then have "push_bit 12 (take_bit 4 (drop_bit 12 hdr)) = hdr" by auto
    with that have "bit (push_bit 12 (take_bit 4 (drop_bit 12 hdr))) n" by simp
    then show ?thesis by (auto simp: bit_push_bit_iff bit_take_bit_iff)
  qed
  have "bit (ch_blk g) n \<Longrightarrow> n < 12" for g n
    by (auto simp: ch_blk_def blk_bits_less split: if_splits)
  note f2 = osreg2_fields [OF r2_def this this hdr]
  have "bit (ch_reg3 g) n \<Longrightarrow> n < 2 \<or> 4 \<le> n \<and> n < 6" for g n
    using reg3_bits_in [of g n] by (auto simp: ch_reg3_def split: if_splits)
  note f3 = osreg3_fields [OF r3_def this this]
  have "channel_size r2 r3 0 = of_nat (geo_bytes g0)"
    using channel_size_fields [of 0 r2 r3] f2 f3 decoded_size_geo [of g0] ok(1)
    by (auto simp: ch_blk_def ch_reg3_def geo_bytes_def)
  moreover have "channel_size r2 r3 1 = of_nat (geo_bytes g1)"
    using channel_size_fields [of 1 r2 r3] f2 f3 decoded_size_geo [of g1] ok(2)
    by (auto simp: ch_blk_def ch_reg3_def geo_bytes_def)
  ultimately have d: "dram_size r2 r3 = (let t = of_nat (geo_bytes g0 + geo_bytes g1) :: u64
      in if t \<ge> 0xf8000000 then 0xf8000000 else ucast (ucast t :: u32))"
    by (simp add: dram_size_def)
  have "geo_bytes g0 + geo_bytes g1 < 2 ^ 64"
    using geo_bytes_less [OF ok(1)] geo_bytes_less [OF ok(2)] by simp
  then have u: "unat (of_nat (geo_bytes g0 + geo_bytes g1) :: u64) = geo_bytes g0 + geo_bytes g1"
    by (simp add: unat_of_nat take_bit_nat_eq_self del: of_nat_add)
  then have "unat (dram_size r2 r3) = min 0xf8000000 (geo_bytes g0 + geo_bytes g1)"
    unfolding d Let_def
    by (auto simp: word_le_nat_alt unsigned_ucast_eq unsigned_take_bit_eq take_bit_nat_eq_self min_def simp del: of_nat_add)
  with enc show ?thesis by blast
qed

section \<open>Detection of the geometry\<close>

text \<open>
  What the registers ask for: the column and bank address bits set in the controller, the
  row size set in the scheduler for both ranks, and the addresses that belong to rank 0.
\<close>

definition cfg_cols :: "(nat \<Rightarrow> u32) \<Rightarrow> nat" where
  "cfg_cols p = 12 - unat (take_bit 4 (p 191))"

definition cfg_banks :: "(nat \<Rightarrow> u32) \<Rightarrow> nat" where
  "cfg_banks p = 3 - unat (take_bit 2 (drop_bit 16 (p 190)))"

definition in_rank0 :: "(nat \<Rightarrow> u32) \<Rightarrow> u32 \<Rightarrow> bool" where
  "in_rank0 m a \<longleftrightarrow> unat a < unat (m MSCH_DDRSIZE AND 0xff) * 2 ^ 25"

text \<open>
  An address consists, from its lowest bit, of the byte within the bus width, the column,
  the bank and the row, in the numbers of bits that are configured.  A chip ignores the
  address bits it does not have.
\<close>

definition wired :: "sdram_geometry \<Rightarrow> nat \<Rightarrow> nat \<Rightarrow> nat \<Rightarrow> nat \<Rightarrow> bool" where
  "wired g cols banks rows b =
    (let w = unat (width g)
     in if b < w + cols then b - w < unat (col g)
        else if b < w + cols + banks then b - (w + cols) < unat (bank g)
        else b - (w + cols + banks) < rows)"

definition chip_decodes :: "decoder \<Rightarrow> sdram_geometry \<Rightarrow> bool" where
  "chip_decodes dec g \<longleftrightarrow> (\<forall>p m a b k.
     unat (width g) \<le> b \<longrightarrow> b < 32 \<longrightarrow> k < 8 \<longrightarrow> m MSCH_DDRCONF = of_nat k OR push_bit 8 (of_nat k) \<longrightarrow>
     k + 11 = unat (width g) + cfg_cols p \<longrightarrow> (in_rank0 m (a XOR push_bit b 1) \<longleftrightarrow> in_rank0 m a) \<longrightarrow>
     (dec p m (a XOR push_bit b 1) = dec p m a \<longleftrightarrow>
       \<not> wired g (cfg_cols p) (cfg_banks p) (unat (if in_rank0 m a then cs0_row g else cs1_row g)) b))"

lemma chip_decodesD:
  assumes "chip_decodes dec g" "unat (width g) \<le> b" "b < 32" "k < 8" "m MSCH_DDRCONF = of_nat k OR push_bit 8 (of_nat k)"
    "k + 11 = unat (width g) + cfg_cols p" "in_rank0 m (a XOR push_bit b 1) \<longleftrightarrow> in_rank0 m a"
  shows "dec p m (a XOR push_bit b 1) = dec p m a \<longleftrightarrow>
    \<not> wired g (cfg_cols p) (cfg_banks p) (unat (if in_rank0 m a then cs0_row g else cs1_row g)) b"
  using assms unfolding chip_decodes_def by blast

lemma test_mirror_result:
  "\<exists>c. test_mirror dec addr b s =
    Some (dec (pctl s) (msch s) (addr XOR push_bit (unat b) 1) = dec (pctl s) (msch s) addr, s\<lparr>cells := c\<rparr>)"
  by (auto simp: test_mirror_def Let_def)

lemma search_bits_found:
  assumes "low \<le> t" "t \<le> n" "n < 2 ^ 32"
    and "\<And>k. t \<le> k \<Longrightarrow> k \<le> n \<Longrightarrow>
      dec (pctl s) (msch s) (addr XOR push_bit (unat (shift + of_nat k)) 1) = dec (pctl s) (msch s) addr \<longleftrightarrow> t < k"
  shows "\<exists>c. search_bits dec addr shift (of_nat low) (of_nat n) s = Some (of_nat t, s\<lparr>cells := c\<rparr>)"
  using assms
proof (induction "n - t" arbitrary: n s)
  case 0
  then show ?case
    using test_mirror_result [of dec addr "shift + of_nat n" s] by (subst search_bits.simps) auto
next
  case (Suc d)
  have "t < n" using Suc.hyps(2) by simp
  then have "n \<noteq> low" using Suc.prems(1) by simp
  then have ne: "(of_nat n :: u32) \<noteq> of_nat low"
    using Suc.prems(1-3) by (simp add: word_of_nat_eq_iff take_bit_nat_eq_self)
  obtain c where c: "test_mirror dec addr (shift + of_nat n) s = Some (True, s\<lparr>cells := c\<rparr>)"
    using test_mirror_result [of dec addr "shift + of_nat n" s] Suc.prems(4) [of n] \<open>t < n\<close> by auto
  have "of_nat n - 1 = (of_nat (n - 1) :: u32)" using Suc.hyps(2) by (simp add: of_nat_diff)
  moreover obtain c' where "search_bits dec addr shift (of_nat low) (of_nat (n - 1)) (s\<lparr>cells := c\<rparr>)
      = Some (of_nat t, s\<lparr>cells := c'\<rparr>)"
    using Suc.hyps(1) [of "n - 1" "s\<lparr>cells := c\<rparr>"] Suc.hyps(2) Suc.prems by fastforce
  ultimately show ?case
    using c ne by (subst search_bits.simps) auto
qed

lemma apply32v_bit:
  "n < 32 \<Longrightarrow> bit (apply32v reg op r reg) n \<longleftrightarrow> bit op n \<or> bit (r reg) n \<and> \<not> bit op (32 + n)"
  by (auto simp: apply32v_def bit_simps)

lemma apply32v_other: "reg' \<noteq> reg \<Longrightarrow> apply32v reg op r reg' = r reg'"
  by (simp add: apply32v_def)

lemma set_bits32_bit:
  "j \<le> 32 \<Longrightarrow> bit (SET_BITS32 j v) n \<longleftrightarrow> (if n < 32 then n < j \<and> bit v n else n < 32 + j)"
  using bit_imp_le_length [of v n] by (auto simp: SET_BITS32_def bit_simps)

lemma set_memory_map_ok:
  assumes "col g \<in> {9, 10, 11, 12}" "bank g \<in> {2, 3}"
  shows "\<exists>p q. set_memory_map g s = Some (s\<lparr>pctl := p, pi_regs := q\<rparr>) \<and>
    cfg_cols p = unat (col g) \<and> cfg_banks p = unat (bank g)"
proof -
  define p where "p = apply32v 196 (SET_BITS32 2 (ucast (csmask g)) OR push_bit 16 (SET_BITS32 1 (if width g \<noteq> 2 then 1 else 0)))
    (apply32v 190 (push_bit 16 (SET_BITS32 2 (3 - ucast (bank g))) OR push_bit 24 (SET_BITS32 3 (16 - ucast (cs0_row g))))
      (apply32v 191 (SET_BITS32 4 (12 - ucast (col g))) (pctl s)))"
  have c: "12 - ucast (col g) \<le> (4 :: u32)" "take_bit 4 (12 - ucast (col g) :: u32) = 12 - ucast (col g)"
      "12 - unat (12 - ucast (col g) :: u32) = unat (col g)"
    using assms(1) by auto
  have b: "3 - ucast (bank g) \<le> (1 :: u32)" "take_bit 2 (3 - ucast (bank g) :: u32) = 3 - ucast (bank g)"
      "3 - unat (3 - ucast (bank g) :: u32) = unat (bank g)"
    using assms(2) by auto
  have "take_bit 4 (p 191) = take_bit 4 (12 - ucast (col g))"
    by (rule bit_word_eqI) (auto simp: p_def apply32v_other apply32v_bit set_bits32_bit bit_take_bit_iff)
  moreover have "take_bit 2 (drop_bit 16 (p 190)) = take_bit 2 (3 - ucast (bank g))"
    by (rule bit_word_eqI)
      (auto simp: p_def apply32v_other apply32v_bit set_bits32_bit bit_take_bit_iff bit_drop_bit_eq bit_or_iff bit_push_bit_iff)
  ultimately have cfg: "cfg_cols p = unat (col g)" "cfg_banks p = unat (bank g)"
    using c b by (simp_all add: cfg_cols_def cfg_banks_def)
  have "\<exists>q. set_memory_map g s = Some (s\<lparr>pctl := p, pi_regs := q\<rparr>)"
    using c(1) b(1) unfolding set_memory_map_def Let_def p_def by (simp del: One_nat_def) blast
  with cfg show ?thesis by blast
qed

text \<open>The stages of the detection: columns, banks, and the rows of the rank of an address.\<close>

lemma unat_of_nat_add: "x + k < 2 ^ 32 \<Longrightarrow> unat (of_nat x + of_nat k :: u32) = x + k"
  by (simp add: unat_of_nat take_bit_nat_eq_self flip: of_nat_add)

lemma in_rank0_full: "m MSCH_DDRSIZE = 128 \<Longrightarrow> in_rank0 m a"
  using unsigned_less [of a, where 'a = nat] by (simp add: in_rank0_def)

lemma geo_nat:
  assumes "geo_ok g"
  shows "unat (width g) \<in> {1, 2}" "unat (col g) \<in> {9, 10, 11, 12}" "unat (bank g) \<in> {2, 3}"
    "unat (cs0_row g) \<in> {12..19}" "unat (cs1_row g) \<in> {12..19}"
proof -
  show "unat (width g) \<in> {1, 2}" using geo_okD(2) [OF assms] by auto
  show "unat (col g) \<in> {9, 10, 11, 12}" using geo_okD(3) [OF assms] by auto
  show "unat (bank g) \<in> {2, 3}" using geo_okD(4) [OF assms] by auto
  show "unat (cs0_row g) \<in> {12..19}" using geo_okD(5) [OF assms] by auto
  show "unat (cs1_row g) \<in> {12..19}" using geo_okD(6) [OF assms] by auto
qed

lemma first_config:
  assumes chip: "chip_decodes dec g" and ok: "geo_ok g"
    and cfg: "cfg_cols (pctl s) = 12" "cfg_banks (pctl s) = 3"
    and conf: "msch s MSCH_DDRCONF = (if width g = 2 then 0x303 else 0x202)" and sz: "msch s MSCH_DDRSIZE = 128"
    and b: "unat (width g) \<le> b" "b < unat (width g) + 15"
  shows "dec (pctl s) (msch s) (a XOR push_bit b 1) = dec (pctl s) (msch s) a \<longleftrightarrow>
    (if b < unat (width g) + 12 then unat (width g) + unat (col g) \<le> b
     else unat (width g) + 12 + unat (bank g) \<le> b)"
proof -
  have w: "unat (width g) = 1 \<and> width g = 1 \<or> unat (width g) = 2 \<and> width g = 2"
    using geo_okD(2) [OF ok] by auto
  have "dec (pctl s) (msch s) (a XOR push_bit b 1) = dec (pctl s) (msch s) a \<longleftrightarrow>
    \<not> wired g (cfg_cols (pctl s)) (cfg_banks (pctl s)) (unat (if in_rank0 (msch s) a then cs0_row g else cs1_row g)) b"
    by (rule chip_decodesD [OF chip b(1), where k = "unat (width g) + 1"])
      (use w b cfg conf in \<open>auto simp: in_rank0_full [where m = "msch s", OF sz]\<close>)
  then show ?thesis
    unfolding cfg wired_def Let_def using b by auto
qed

lemma col_stage:
  assumes chip: "chip_decodes dec g" and ok: "geo_ok g"
    and cfg: "cfg_cols (pctl s) = 12" "cfg_banks (pctl s) = 3"
    and conf: "msch s MSCH_DDRCONF = (if width g = 2 then 0x303 else 0x202)" and sz: "msch s MSCH_DDRSIZE = 128"
  shows "\<exists>c. search_bits dec a (ucast (width g) - 1) 9 12 s = Some (ucast (col g), s\<lparr>cells := c\<rparr>)"
proof -
  have w: "unat (width g) \<in> {1, 2}" "ucast (width g) - 1 = (of_nat (unat (width g) - 1) :: u32)"
    using geo_okD(2) [OF ok] by auto
  have c: "unat (col g) \<in> {9, 10, 11, 12}" by (rule geo_nat(2) [OF ok])
  have "dec (pctl s) (msch s) (a XOR push_bit (unat (of_nat (unat (width g) - 1) + of_nat k :: u32)) 1)
      = dec (pctl s) (msch s) a \<longleftrightarrow> unat (col g) < k" if "unat (col g) \<le> k" "k \<le> 12" for k
    using first_config [OF assms, where b = "unat (width g) - 1 + k" and a = a] that w(1) c
      unat_of_nat_add [of "unat (width g) - 1" k] by auto
  then show ?thesis
    unfolding w(2) using search_bits_found [of 9 "unat (col g)" 12 dec s a "of_nat (unat (width g) - 1)"] c by auto
qed

lemma bank_stage:
  assumes chip: "chip_decodes dec g" and ok: "geo_ok g"
    and cfg: "cfg_cols (pctl s) = 12" "cfg_banks (pctl s) = 3"
    and conf: "msch s MSCH_DDRCONF = (if width g = 2 then 0x303 else 0x202)" and sz: "msch s MSCH_DDRSIZE = 128"
  shows "\<exists>c. test_mirror dec a (ucast (width g) + 14) s = Some (bank g = 2, s\<lparr>cells := c\<rparr>)"
proof -
  have w: "unat (width g) \<in> {1, 2}" "unat (ucast (width g) + 14 :: u32) = unat (width g) + 14"
    using geo_okD(2) [OF ok] by auto
  have "unat (bank g) = 2 \<longleftrightarrow> bank g = 2" "unat (bank g) = 2 \<or> unat (bank g) = 3"
    using geo_okD(4) [OF ok] by auto
  then show ?thesis
    using test_mirror_result [of dec a "ucast (width g) + 14" s] w
      first_config [OF assms, where b = "unat (width g) + 14" and a = a] by auto
qed

lemma row_stage:
  assumes chip: "chip_decodes dec g" and ok: "geo_ok g" and k: "k + 11 = unat (width g) + unat (col g)"
    and rs: "rs = unat (width g) + unat (col g) + unat (bank g)"
    and cfg: "cfg_cols (pctl s) = unat (col g)" "cfg_banks (pctl s) = unat (bank g)"
    and conf: "msch s MSCH_DDRCONF = of_nat k OR push_bit 8 (of_nat k)"
    and rank: "\<And>b. b < rs + n \<Longrightarrow> in_rank0 (msch s) (a XOR push_bit b 1) \<longleftrightarrow> in_rank0 (msch s) a"
    and rows: "rows = unat (if in_rank0 (msch s) a then cs0_row g else cs1_row g)" "rows \<le> n" "rs + n \<le> 32"
  shows "\<exists>c. search_bits dec a (of_nat rs - 1) 12 (of_nat n) s = Some (of_nat rows, s\<lparr>cells := c\<rparr>)"
proof -
  have w: "unat (width g) \<in> {1, 2}" "unat (col g) \<in> {9, 10, 11, 12}" "unat (bank g) \<in> {2, 3}" "12 \<le> rows"
    using geo_nat [OF ok] rows(1) by auto
  have r1: "of_nat rs - 1 = (of_nat (rs - 1) :: u32)"
  proof -
    have "1 \<le> rs" using w rs by auto
    then show ?thesis by (simp add: of_nat_diff)
  qed
  have "dec (pctl s) (msch s) (a XOR push_bit (unat (of_nat (rs - 1) + of_nat j :: u32)) 1)
      = dec (pctl s) (msch s) a \<longleftrightarrow> rows < j" if "rows \<le> j" "j \<le> n" for j
  proof -
    let ?b = "rs - 1 + j"
    have "unat (of_nat (rs - 1) + of_nat j :: u32) = ?b"
      using unat_of_nat_add [of "rs - 1" j] that rows w rs by auto
    moreover have "dec (pctl s) (msch s) (a XOR push_bit ?b 1) = dec (pctl s) (msch s) a \<longleftrightarrow>
        \<not> wired g (cfg_cols (pctl s)) (cfg_banks (pctl s)) (unat (if in_rank0 (msch s) a then cs0_row g else cs1_row g)) ?b"
      by (rule chip_decodesD [OF chip, where k = k]) (use conf that rows w rs k cfg rank [of ?b] in auto)
    moreover have "wired g (cfg_cols (pctl s)) (cfg_banks (pctl s)) rows ?b \<longleftrightarrow> \<not> rows < j"
      unfolding cfg wired_def Let_def using that w rs by auto
    ultimately show ?thesis using rows(1) by simp
  qed
  then show ?thesis
    unfolding r1 using search_bits_found [of 12 rows n dec s a "of_nat (rs - 1)"] rows w by auto
qed

text \<open>
  The geometries within the reach of the detection: rows of at least 2 KiB, at most 16 row
  address bits and 4 GiB in rank 0, a second rank that is no larger than the first and lies
  below 4 GiB, and ranks of at least 32 MiB.
\<close>

definition row_base :: "sdram_geometry \<Rightarrow> nat" where
  "row_base g = unat (width g) + unat (col g) + unat (bank g)"

definition detectable :: "sdram_geometry \<Rightarrow> bool" where
  "detectable g \<longleftrightarrow> geo_ok g \<and> 11 \<le> unat (width g) + unat (col g) \<and> unat (cs0_row g) \<le> 16 \<and>
     row_base g + unat (cs0_row g) \<le> 32 \<and> 25 \<le> row_base g + unat (cs0_row g) \<and>
     (csmask g = 3 \<longrightarrow> cs1_row g \<le> cs0_row g \<and> row_base g + unat (cs0_row g) < 32 \<and>
        25 \<le> row_base g + unat (cs1_row g))"

lemma nat_25_31: "25 \<le> q \<Longrightarrow> q < 32 \<Longrightarrow> q \<in> {25, 26, 27, 28, 29, 30, 31 :: nat}"
  by auto

lemma rank1_addresses:
  assumes q: "25 \<le> q" "q < 32" and m: "m MSCH_DDRSIZE = push_bit (q - 25) 1 OR push_bit 8 (128 - push_bit (q - 25) 1)"
    and b: "b < q"
  shows "\<not> in_rank0 m (MIRROR_TEST_ADDR + push_bit 25 (push_bit (q - 25) 1))"
    "\<not> in_rank0 m ((MIRROR_TEST_ADDR + push_bit 25 (push_bit (q - 25) 1)) XOR push_bit b 1)"
proof -
  let ?a = "MIRROR_TEST_ADDR + push_bit 25 (push_bit (q - 25) 1)"
  have sz: "unat (m MSCH_DDRSIZE AND 0xff) * 2 ^ 25 = 2 ^ q"
    using nat_25_31 [OF q] unfolding m by auto
  have a: "bit ?a q"
    using nat_25_31 [OF q] by (auto simp: MIRROR_TEST_ADDR_def bit_numeral_rec)
  have ge: "2 ^ q \<le> unat x" if "bit x q" for x :: u32
  proof -
    have "bit (unat x) q" using that by (simp add: bit_unsigned_iff)
    then show ?thesis by (simp add: bit_iff_odd) (metis div_less even_zero not_less)
  qed
  have "bit (?a XOR push_bit b 1) q"
    using a b q by (simp add: bit_simps)
  then show "\<not> in_rank0 m ?a" "\<not> in_rank0 m (?a XOR push_bit b 1)"
    unfolding in_rank0_def sz using ge [OF a] ge by (auto simp: not_less)
qed

lemma set_memory_map_state:
  assumes "col g \<in> {9, 10, 11, 12}" "bank g \<in> {2, 3}"
  shows "\<exists>s'. set_memory_map g s = Some s' \<and> msch s' = msch s \<and>
    cfg_cols (pctl s') = unat (col g) \<and> cfg_banks (pctl s') = unat (bank g)"
  using set_memory_map_ok [OF assms, of s] by auto

lemma write_msch_simps [simp]:
  "pctl (write_msch r v s) = pctl s" "msch (write_msch r v s) = (msch s)(r := v)"
  by (simp_all add: write_msch_def)

lemma msch_regs [simp]:
  "MSCH_DDRCONF = 2" "MSCH_DDRSIZE = 3" "MSCH_TIMING1 = 4" "MSCH_TIMING2 = 5" "MSCH_TIMING3 = 6"
  "MSCH_DEV2DEV = 7" "MSCH_DDRMODE = 68"
  by (simp_all add: MSCH_DDRCONF_def MSCH_DDRSIZE_def MSCH_TIMING1_def MSCH_TIMING2_def MSCH_TIMING3_def
      MSCH_DEV2DEV_def MSCH_DDRMODE_def)

text \<open>The columns and banks, from the first configuration.\<close>

lemma detect_low:
  assumes chip: "chip_decodes dec g" and ok: "geo_ok g" and geo: "width geo = width g"
  shows "\<exists>s1 s2 s3. set_memory_map (geo\<lparr>col := 12, bank := 3, cs0_row := 13, cs1_row := 13\<rparr>) s = Some s1 \<and>
    search_bits dec MIRROR_TEST_ADDR (ucast (width g) - 1) 9 12
      (write_msch MSCH_DDRCONF (if ucast (width g) = (2 :: u32) then 0x0303 else 0x0202) (write_msch MSCH_DDRSIZE (4096 div 32) s1))
      = Some (ucast (col g), s2) \<and>
    test_mirror dec MIRROR_TEST_ADDR (ucast (width g) + 14) s2 = Some (bank g = 2, s3)"
proof -
  obtain s1 where s1: "set_memory_map (geo\<lparr>col := 12, bank := 3, cs0_row := 13, cs1_row := 13\<rparr>) s = Some s1"
    "cfg_cols (pctl s1) = 12" "cfg_banks (pctl s1) = 3"
    using set_memory_map_state [of "geo\<lparr>col := 12, bank := 3, cs0_row := 13, cs1_row := 13\<rparr>" s] by auto
  let ?s = "write_msch MSCH_DDRCONF (if ucast (width g) = (2 :: u32) then 0x0303 else 0x0202) (write_msch MSCH_DDRSIZE (4096 div 32) s1)"
  have w: "ucast (width g) = (2 :: u32) \<longleftrightarrow> width g = 2"
    using geo_okD(2) [OF ok] by auto
  have st: "cfg_cols (pctl ?s) = 12" "cfg_banks (pctl ?s) = 3"
    "msch ?s MSCH_DDRCONF = (if width g = 2 then 0x303 else 0x202)" "msch ?s MSCH_DDRSIZE = 128"
    using s1 w by simp_all
  obtain c where c: "search_bits dec MIRROR_TEST_ADDR (ucast (width g) - 1) 9 12 ?s = Some (ucast (col g), ?s\<lparr>cells := c\<rparr>)"
    using col_stage [OF chip ok st] by blast
  have "\<exists>s3. test_mirror dec MIRROR_TEST_ADDR (ucast (width g) + 14) (?s\<lparr>cells := c\<rparr>) = Some (bank g = 2, s3)"
    using bank_stage [OF chip ok, of "?s\<lparr>cells := c\<rparr>" MIRROR_TEST_ADDR] st by auto
  with s1 c show ?thesis by blast
qed

text \<open>The rows of both ranks, from the second configuration.\<close>

lemma detect_rows:
  assumes chip: "chip_decodes dec g" and det: "detectable g" and geo: "col geo = col g" "bank geo = bank g"
    and k: "k + 11 = unat (width g) + unat (col g)" and n: "unat (cs0_row g) \<le> n" "row_base g + n \<le> 32"
  shows "\<exists>s1 s2. set_memory_map geo s = Some s1 \<and>
    search_bits dec MIRROR_TEST_ADDR (of_nat (row_base g) - 1) 12 (of_nat n)
      (write_msch MSCH_DDRSIZE 128 (write_msch MSCH_DDRCONF (of_nat k OR push_bit 8 (of_nat k)) s1)) = Some (ucast (cs0_row g), s2) \<and>
    (csmask g = 3 \<longrightarrow> (let cs0_size = push_bit (row_base g + unat (cs0_row g) - 25) 1
       in \<exists>s3. search_bits dec (MIRROR_TEST_ADDR + push_bit 25 cs0_size) (of_nat (row_base g) - 1) 12 (ucast (cs0_row g))
         (write_msch MSCH_DDRSIZE (cs0_size OR push_bit 8 (128 - cs0_size)) s2) = Some (ucast (cs1_row g), s3)))"
proof -
  have ok: "geo_ok g" using det by (simp add: detectable_def)
  obtain s1 where s1: "set_memory_map geo s = Some s1"
    "cfg_cols (pctl s1) = unat (col g)" "cfg_banks (pctl s1) = unat (bank g)"
    using set_memory_map_state [of geo s] geo geo_okD(3,4) [OF ok] by auto
  let ?s = "write_msch MSCH_DDRSIZE 128 (write_msch MSCH_DDRCONF (of_nat k OR push_bit 8 (of_nat k)) s1)"
  have st: "cfg_cols (pctl ?s) = unat (col g)" "cfg_banks (pctl ?s) = unat (bank g)"
    "msch ?s MSCH_DDRCONF = of_nat k OR push_bit 8 (of_nat k)" "in_rank0 (msch ?s) a" for a
    using s1 in_rank0_full [of "msch ?s" a] by simp_all
  have "\<exists>c. search_bits dec MIRROR_TEST_ADDR (of_nat (row_base g) - 1) 12 (of_nat n) ?s
      = Some (of_nat (unat (cs0_row g)), ?s\<lparr>cells := c\<rparr>)"
    by (rule row_stage [OF chip ok k row_base_def, where n = n]) (use st n in simp_all)
  then obtain c where c: "search_bits dec MIRROR_TEST_ADDR (of_nat (row_base g) - 1) 12 (of_nat n) ?s
      = Some (of_nat (unat (cs0_row g)), ?s\<lparr>cells := c\<rparr>)" by blast
  let ?x = "push_bit (row_base g + unat (cs0_row g) - 25) 1 :: u32"
  let ?t = "write_msch MSCH_DDRSIZE (?x OR push_bit 8 (128 - ?x)) (?s\<lparr>cells := c\<rparr>)"
  have "\<exists>s3. search_bits dec (MIRROR_TEST_ADDR + push_bit 25 ?x) (of_nat (row_base g) - 1) 12 (of_nat (unat (cs0_row g))) ?t
      = Some (of_nat (unat (cs1_row g)), s3)" if "csmask g = 3"
  proof -
    have q: "25 \<le> row_base g + unat (cs0_row g)" "row_base g + unat (cs0_row g) < 32" "unat (cs1_row g) \<le> unat (cs0_row g)"
      using det that by (simp_all add: detectable_def word_le_nat_alt)
    have "msch ?t MSCH_DDRSIZE = ?x OR push_bit 8 (128 - ?x)" by simp
    note far = rank1_addresses [where m = "msch ?t", OF q(1,2) this]
    have "12 \<le> unat (cs0_row g)" using geo_nat [OF ok] by simp
    then have far0: "\<not> in_rank0 (msch ?t) (MIRROR_TEST_ADDR + push_bit 25 ?x)" using far(1) [of 0] by simp
    have "\<exists>c. search_bits dec (MIRROR_TEST_ADDR + push_bit 25 ?x) (of_nat (row_base g) - 1) 12 (of_nat (unat (cs0_row g))) ?t
        = Some (of_nat (unat (cs1_row g)), ?t\<lparr>cells := c\<rparr>)"
      by (rule row_stage [OF chip ok k row_base_def, where n = "unat (cs0_row g)"])
        (use st q far far0 in simp_all)
    then show ?thesis by blast
  qed
  with s1 c show ?thesis by (simp add: Let_def)
qed

lemma shl1_rows:
  assumes "25 \<le> row_base g + unat row" "row_base g + unat row \<le> 32"
  shows "shl1 (ucast (row :: u8) + of_nat (row_base g) - 25) = Some (push_bit (row_base g + unat row - 25) 1)"
proof -
  have "ucast row + of_nat (row_base g) - 25 = (of_nat (row_base g + unat row - 25) :: u32)"
    using assms(1) by (simp add: of_nat_diff)
  moreover have "unat (of_nat (row_base g + unat row - 25) :: u32) = row_base g + unat row - 25"
    using assms(2) by (simp add: unat_of_nat take_bit_nat_eq_self)
  ultimately show ?thesis using assms(2) by (simp add: shl1_def word_less_nat_alt)
qed

text \<open>The registers that describe a geometry to the scheduler.\<close>

definition msch_sizes :: "sdram_geometry \<Rightarrow> u32" where
  "msch_sizes g = push_bit (row_base g + unat (cs0_row g) - 25) 1 OR
     (if csmask g = 3 then push_bit 8 (push_bit (row_base g + unat (cs1_row g) - 25) 1) else 0)"

text \<open>The numbers of the detection, computed in 32 bits, are those of the geometry.\<close>

definition max_rows :: "sdram_geometry \<Rightarrow> nat" where
  "max_rows g = (if row_base g + 16 > 32 then 32 - row_base g else 16)"

definition row_size_conf :: "sdram_geometry \<Rightarrow> nat" where
  "row_size_conf g = unat (width g) + unat (col g) - 11"

lemma detect_numbers:
  assumes "detectable g"
  shows "ucast (width g) + ucast (col g) - 11 = (of_nat (row_size_conf g) :: u32)"
    "ucast (width g) + ucast (col g) + ucast (bank g) = (of_nat (row_base g) :: u32)"
    "11 \<le> (ucast (width g) + ucast (col g) :: u32)" "ucast (width g) + ucast (col g) \<le> (14 :: u32)"
    "1 \<le> (ucast (width g) :: u32)" "ucast (width g) \<le> (2 :: u32)"
    "(if bank g = 2 then 2 else 3) = (ucast (bank g) :: u32)"
    "(if 32 < of_nat (row_base g) + (16 :: u32) then 32 - of_nat (row_base g) else 16) = (of_nat (max_rows g) :: u32)"
    "row_size_conf g + 11 = unat (width g) + unat (col g)"
    "unat (cs0_row g) \<le> max_rows g" "row_base g + max_rows g \<le> 32"
proof -
  have ok: "geo_ok g" using assms by (simp add: detectable_def)
  have nat: "unat (width g) \<in> {1, 2}" "unat (col g) \<in> {9, 10, 11, 12}" "unat (bank g) \<in> {2, 3}" by (rule geo_nat [OF ok])+
  have r20: "row_base g \<le> 20" using nat by (auto simp: row_base_def)
  show k: "row_size_conf g + 11 = unat (width g) + unat (col g)"
    using assms by (simp add: row_size_conf_def detectable_def)
  show "unat (cs0_row g) \<le> max_rows g" "row_base g + max_rows g \<le> 32"
    using assms r20 by (auto simp: max_rows_def detectable_def)
  have wc: "ucast (width g) + ucast (col g) = (of_nat (unat (width g) + unat (col g)) :: u32)" by simp
  show "ucast (width g) + ucast (col g) + ucast (bank g) = (of_nat (row_base g) :: u32)"
    by (simp add: row_base_def)
  show "ucast (width g) + ucast (col g) - 11 = (of_nat (row_size_conf g) :: u32)"
    unfolding wc by (simp flip: k)
  show "11 \<le> (ucast (width g) + ucast (col g) :: u32)" "ucast (width g) + ucast (col g) \<le> (14 :: u32)"
    unfolding wc using k nat unat_of_nat_add [of "unat (width g)" "unat (col g)"] by (auto simp: word_le_nat_alt)
  show "1 \<le> (ucast (width g) :: u32)" "ucast (width g) \<le> (2 :: u32)"
    using geo_okD(2) [OF ok] by auto
  show "(if bank g = 2 then 2 else 3) = (ucast (bank g) :: u32)"
    using geo_okD(4) [OF ok] by auto
  have "32 < of_nat (row_base g) + (16 :: u32) \<longleftrightarrow> 32 < row_base g + 16"
    using unat_of_nat_add [of "row_base g" 16] r20 by (simp add: word_less_nat_alt)
  with r20 show "(if 32 < of_nat (row_base g) + (16 :: u32) then 32 - of_nat (row_base g) else 16) = (of_nat (max_rows g) :: u32)"
    by (simp add: max_rows_def of_nat_diff)
qed

lemma ucast_u8_u32_u8 [simp]: "ucast (ucast (x :: u8) :: u32) = x"
  by (rule bit_word_eqI) (auto simp: bit_simps)

lemma geo_rebuild:
  fixes geo g :: sdram_geometry
  assumes "csmask geo = csmask g" "width geo = width g"
  shows "geo\<lparr>cs1_row := r, col := col g, bank := bank g, cs0_row := cs0_row g\<rparr> = g\<lparr>cs1_row := r\<rparr>"
    "geo\<lparr>col := col g, bank := bank g, cs0_row := cs0_row g, cs1_row := r\<rparr> = g\<lparr>cs1_row := r\<rparr>"
  using assms by (cases geo; cases g; simp)+

lemma post_init_geometry:
  assumes chip: "chip_decodes dec g" and det: "detectable g" and geo: "csmask geo = csmask g" "width geo = width g"
  shows "\<exists>s'. channel_post_init dec cfg geo s =
      Some (g\<lparr>cs1_row := if csmask g = 3 then cs1_row g else 13\<rparr>, s') \<and>
    msch s' MSCH_DDRSIZE = msch_sizes g \<and> cfg_cols (pctl s') = unat (col g) \<and> cfg_banks (pctl s') = unat (bank g)"
proof -
  have ok: "geo_ok g" using det by (simp add: detectable_def)
  note num = detect_numbers [OF det]
  obtain s1 s2 s3 where low: "set_memory_map (geo\<lparr>col := 12, bank := 3, cs0_row := 13, cs1_row := 13\<rparr>) s = Some s1"
    "search_bits dec MIRROR_TEST_ADDR (ucast (width g) - 1) 9 12
      (write_msch MSCH_DDRCONF (if ucast (width g) = (2 :: u32) then 0x0303 else 0x0202) (write_msch MSCH_DDRSIZE (4096 div 32) s1))
      = Some (ucast (col g), s2)"
    "test_mirror dec MIRROR_TEST_ADDR (ucast (width g) + 14) s2 = Some (bank g = 2, s3)"
    using detect_low [OF chip ok geo(2), of s] by blast
  define geo2 where "geo2 = geo\<lparr>cs1_row := 13, col := col g, bank := bank g, cs0_row := ucast (of_nat (max_rows g) :: u32)\<rparr>"
  define x :: u32 where "x = push_bit (row_base g + unat (cs0_row g) - 25) 1"
  obtain s4 s5 s6 where rw: "set_memory_map geo2 s3 = Some s4"
    "search_bits dec MIRROR_TEST_ADDR (of_nat (row_base g) - 1) 12 (of_nat (max_rows g))
      (write_msch MSCH_DDRSIZE 128 (write_msch MSCH_DDRCONF (of_nat (row_size_conf g) OR push_bit 8 (of_nat (row_size_conf g))) s4))
      = Some (ucast (cs0_row g), s5)"
    "csmask g = 3 \<Longrightarrow> search_bits dec (MIRROR_TEST_ADDR + push_bit 25 x) (of_nat (row_base g) - 1) 12 (ucast (cs0_row g))
         (write_msch MSCH_DDRSIZE (x OR push_bit 8 (128 - x)) s5) = Some (ucast (cs1_row g), s6)"
    using detect_rows [OF chip det, of geo2, OF _ _ num(9-11), of s3] unfolding x_def Let_def by (auto simp: geo2_def)
  have sz: "shl1 (ucast (cs0_row g) + of_nat (row_base g) - 25) = Some x"
    "csmask g = 3 \<Longrightarrow> shl1 (ucast (cs1_row g) + of_nat (row_base g) - 25) = Some (push_bit (row_base g + unat (cs1_row g) - 25) 1)"
    unfolding x_def using det by (intro shl1_rows; auto simp: detectable_def word_le_nat_alt)+
  let ?g = "g\<lparr>cs1_row := if csmask g = 3 then cs1_row g else 13\<rparr>"
  obtain s7 where fin: "set_memory_map ?g (if csmask g = 3 then s6 else s5) = Some s7"
    "cfg_cols (pctl s7) = unat (col g)" "cfg_banks (pctl s7) = unat (bank g)"
    using set_memory_map_state [of ?g "if csmask g = 3 then s6 else s5"] geo_okD(3,4) [OF ok] by auto
  have "csmask g = 1 \<or> csmask g = 3" using geo_okD(1) [OF ok] by auto
  then show ?thesis
    using geo low rw sz fin unfolding channel_post_init_def Let_def
    by (elim disjE) (simp_all add: num geo2_def geo_rebuild msch_sizes_def x_def cong: if_cong split del: if_split)
qed

lemma detected_geo:
  assumes "detectable g"
  shows "geo_ok (g\<lparr>cs1_row := if csmask g = 3 then cs1_row g else 13\<rparr>) \<and> csmask g \<noteq> 0 \<and>
    geo_bytes (g\<lparr>cs1_row := if csmask g = 3 then cs1_row g else 13\<rparr>) = geo_bytes g"
proof -
  have ok: "geo_ok g" using assms by (simp add: detectable_def)
  then have "csmask g \<noteq> 0" using geo_okD(1) [of g] by auto
  moreover have "geo_ok (g\<lparr>cs1_row := if csmask g = 3 then cs1_row g else 13\<rparr>)"
    using geo_okD [OF ok] by (simp add: geo_ok_def)
  ultimately show ?thesis by (simp add: geo_bytes_def rank_bytes_def)
qed

section \<open>Properties\<close>

text \<open>C28: The size that the next stage decodes from the two registers written by encode_dram_size
  is the sum of the sizes of the ranks of both channels, limited to 0xf8000000 bytes, for every
  geometry that fits the fields, with one or two channels and one or two ranks in each.\<close>

theorem dram_size_roundtrip:
  assumes "csmask g0 = 0 \<or> geo_ok g0" "csmask g1 = 0 \<or> geo_ok g1" "csmask g0 \<noteq> 0 \<or> csmask g1 \<noteq> 0"
  shows "\<exists>osreg2 osreg3. encode_dram_size g0 g1 = Some (osreg2, osreg3) \<and>
    unat (dram_size osreg2 osreg3) = min 0xf8000000 (geo_bytes g0 + geo_bytes g1)"
  using assms by (rule dram_size_encoded)

definition sample_geo :: sdram_geometry where
  "sample_geo = \<lparr>csmask = 3, width = 2, col = 10, bank = 3, cs0_row = 15, cs1_row = 14\<rparr>"

definition no_geo :: sdram_geometry where
  "no_geo = \<lparr>csmask = 0, width = 1, col = 0, bank = 0, cs0_row = 0, cs1_row = 0\<rparr>"

theorem dram_size_roundtrip_witness:
  "(csmask sample_geo = 0 \<or> geo_ok sample_geo) \<and> (\<exists>osreg2 osreg3. encode_dram_size sample_geo no_geo = Some (osreg2, osreg3) \<and>
    unat (dram_size osreg2 osreg3) = 2 ^ 30 + 2 ^ 29)"
  using dram_size_roundtrip [of sample_geo no_geo]
  by (simp add: sample_geo_def no_geo_def geo_ok_def geo_bytes_def rank_bytes_def)

text \<open>C9: The detection finds the geometry: when the memory controller maps address bits to columns,
  banks and rows as configured and each chip ignores the bits it does not have, channel_post_init
  returns for both channels, the geometry found is that of the chips, the scheduler is told the sizes
  of the ranks, and the size decoded by the next stage is the size of the memory.\<close>

theorem dram_detected_size:
  assumes "chip_decodes dec0 g0" "detectable g0" "csmask geo0 = csmask g0" "width geo0 = width g0"
    and "chip_decodes dec1 g1" "detectable g1" "csmask geo1 = csmask g1" "width geo1 = width g1"
  shows "\<exists>h0 s0' h1 s1' osreg2 osreg3.
    channel_post_init dec0 cfg geo0 s0 = Some (h0, s0') \<and> h0 = g0\<lparr>cs1_row := if csmask g0 = 3 then cs1_row g0 else 13\<rparr> \<and>
    channel_post_init dec1 cfg geo1 s1 = Some (h1, s1') \<and> h1 = g1\<lparr>cs1_row := if csmask g1 = 3 then cs1_row g1 else 13\<rparr> \<and>
    msch s0' MSCH_DDRSIZE = msch_sizes g0 \<and> msch s1' MSCH_DDRSIZE = msch_sizes g1 \<and>
    encode_dram_size h0 h1 = Some (osreg2, osreg3) \<and>
    unat (dram_size osreg2 osreg3) = min 0xf8000000 (geo_bytes g0 + geo_bytes g1)"
proof -
  let ?h0 = "g0\<lparr>cs1_row := if csmask g0 = 3 then cs1_row g0 else 13\<rparr>"
  let ?h1 = "g1\<lparr>cs1_row := if csmask g1 = 3 then cs1_row g1 else 13\<rparr>"
  have ok: "geo_ok ?h0" "geo_ok ?h1" "csmask ?h0 \<noteq> 0" "geo_bytes ?h0 = geo_bytes g0" "geo_bytes ?h1 = geo_bytes g1"
    using detected_geo [OF assms(2)] detected_geo [OF assms(6)] by simp_all
  then obtain osreg2 osreg3 where "encode_dram_size ?h0 ?h1 = Some (osreg2, osreg3)"
    "unat (dram_size osreg2 osreg3) = min 0xf8000000 (geo_bytes g0 + geo_bytes g1)"
    using dram_size_encoded [of ?h0 ?h1] by metis
  then show ?thesis
    using post_init_geometry [OF assms(1-4), of cfg s0] post_init_geometry [OF assms(5-8), of cfg s1] by blast
qed

text \<open>A memory that keeps exactly the address bits its chips have.\<close>

definition lines_mask :: "(nat \<Rightarrow> bool) \<Rightarrow> u32" where
  "lines_mask P = foldr (\<lambda>b w. if P b then set_bit b w else w) [0..<32] 0"

definition sample_decoder :: "sdram_geometry \<Rightarrow> decoder" where
  "sample_decoder g p m a =
    unat (a AND lines_mask (\<lambda>b. b < unat (width g) \<or>
       wired g (cfg_cols p) (cfg_banks p) (unat (if in_rank0 m a then cs0_row g else cs1_row g)) b))
    + (if in_rank0 m a then 0 else 2 ^ 32)"

lemma bit_lines_mask: "bit (lines_mask P) n \<longleftrightarrow> n < 32 \<and> P n"
proof -
  have "bit (foldr (\<lambda>b w. if P b then set_bit b w else w) bs 0 :: u32) n \<longleftrightarrow> n < 32 \<and> n \<in> set bs \<and> P n" for bs
    by (induction bs) (auto simp: bit_simps)
  then show ?thesis by (auto simp: lines_mask_def)
qed

lemma flip_masked:
  fixes a m :: u32
  assumes "b < 32"
  shows "(a XOR 2 ^ b) AND m = a AND m \<longleftrightarrow> \<not> bit m b"
proof
  assume "(a XOR 2 ^ b) AND m = a AND m"
  then have "bit ((a XOR 2 ^ b) AND m) b = bit (a AND m) b" by simp
  with assms show "\<not> bit m b" by (auto simp: bit_simps)
next
  assume "\<not> bit m b"
  then show "(a XOR 2 ^ b) AND m = a AND m" by (intro bit_word_eqI) (auto simp: bit_simps)
qed

lemma sample_decodes: "chip_decodes (sample_decoder g) g"
  unfolding chip_decodes_def sample_decoder_def
  by (auto simp: flip_masked bit_lines_mask unsigned_word_eqI simp flip: word_unat_eq_iff)

theorem dram_detected_size_witness:
  "chip_decodes (sample_decoder sample_geo) sample_geo \<and> detectable sample_geo \<and>
   (\<exists>h0 s0' h1 s1' osreg2 osreg3.
    channel_post_init (sample_decoder sample_geo) \<lparr>timing1 = 0, timing2 = 0, timing3 = 0, dev2dev = 0, ddrmode = 0\<rparr>
      (no_geo\<lparr>csmask := 3, width := 2\<rparr>) \<lparr>pctl = \<lambda>_. 0, pi_regs = \<lambda>_. 0, msch = \<lambda>_. 0, cells = \<lambda>_. 0\<rparr> = Some (h0, s0') \<and>
    h0 = sample_geo \<and> encode_dram_size h0 h1 = Some (osreg2, osreg3) \<and> unat (dram_size osreg2 osreg3) = 2 ^ 31 + 2 ^ 30)"
proof -
  have d: "detectable sample_geo"
    by (simp add: detectable_def geo_ok_def sample_geo_def row_base_def)
  have g: "csmask (no_geo\<lparr>csmask := 3, width := 2\<rparr>) = csmask sample_geo" "width (no_geo\<lparr>csmask := 3, width := 2\<rparr>) = width sample_geo"
    by (simp_all add: sample_geo_def)
  have b: "geo_bytes sample_geo = 2 ^ 30 + 2 ^ 29" "sample_geo\<lparr>cs1_row := if csmask sample_geo = 3 then cs1_row sample_geo else 13\<rparr> = sample_geo"
    by (simp_all add: geo_bytes_def rank_bytes_def sample_geo_def)
  show ?thesis
    using dram_detected_size [of "sample_decoder sample_geo" sample_geo "no_geo\<lparr>csmask := 3, width := 2\<rparr>"
        "sample_decoder sample_geo" sample_geo "no_geo\<lparr>csmask := 3, width := 2\<rparr>" "\<lparr>timing1 = 0, timing2 = 0, timing3 = 0, dev2dev = 0, ddrmode = 0\<rparr>"
        "\<lparr>pctl = \<lambda>_. 0, pi_regs = \<lambda>_. 0, msch = \<lambda>_. 0, cells = \<lambda>_. 0\<rparr>"
        "\<lparr>pctl = \<lambda>_. 0, pi_regs = \<lambda>_. 0, msch = \<lambda>_. 0, cells = \<lambda>_. 0\<rparr>",
        OF sample_decodes d g sample_decodes d g] d sample_decodes
    unfolding b by auto
qed

end
