(* ===== verification/Embedded_Dramstage.thy ===== *)
theory Embedded_Dramstage
  imports Lz4_Frame
begin

text \<open>
  Unpacking the embedded DRAM stage, sramstage/embedded\_dramstage.c: the LZ4 frame linked
  into the SRAM stage is decompressed to its load address, from which execution continues.
  The decoder state lies in otherwise unused memory after the output and is a separate
  value here; the jump to the unpacked code is not modelled.
\<close>

definition loadaddr :: nat where
  "loadaddr = 0x4000000"

definition sramstage_late :: "lz4_dec_state \<Rightarrow> nat \<Rightarrow> nat \<Rightarrow> mem \<Rightarrow> (lz4_dec_state \<times> mem) option" where
  "sramstage_late state start end_ptr m = do {
     (status, size) \<leftarrow> lz4_probe m start end_ptr;
     if status \<noteq> COMPR_PROBE_SIZE_KNOWN then None
     else do {
       size \<leftarrow> size;
       (p, state) \<leftarrow> lz4_init state m start end_ptr;
       let state = state\<lparr>d_window_start := loadaddr, d_out := loadaddr\<rparr>;
       let state = state\<lparr>d_out_end := loadaddr + unat size\<rparr>;
       decode_all state p end_ptr m
     }
   }"

text \<open>C12: for every LZ4 frame with a content size that the decompressor supports, unpacking
  the embedded stage runs to completion without a failing assert or a stray access, the load
  address then holds exactly the content of the frame, and no other memory than the output
  and its slack has changed.\<close>

theorem sramstage_late_unpacks:
  assumes holds: "mem_holds m start (enc_frame flags bd csize hc bs tail)"
    and hdr: "header_ok flags bd" "flags AND FCSIZE \<noteq> 0"
    and tail: "length tail = (if flags AND FCCHECKSUM \<noteq> 0 then 4 else 0)"
    and blocks: "frame_ok (header_max_block bd) (flags AND FBINDEP \<noteq> 0) [] bs"
    and csize: "unat csize = length (frame_out (flags AND FBINDEP \<noteq> 0) [] bs)"
    and end_ptr: "end_ptr = start + length (enc_frame flags bd csize hc bs tail)"
    and mapped: "mapped m start (end_ptr + LZCOMMON_BLOCK - start)"
      "mapped m loadaddr (unat csize + LZCOMMON_BLOCK)"
    and disjoint: "end_ptr \<le> loadaddr \<or> loadaddr + unat csize + LZCOMMON_BLOCK \<le> start"
  shows "\<exists>state' m'. sramstage_late state start end_ptr m = Some (state', m') \<and>
    bytes_at m' loadaddr (unat csize) = frame_out (flags AND FBINDEP \<noteq> 0) [] bs \<and>
    d_out state' = loadaddr + unat csize \<and>
    only_within m m' loadaddr (loadaddr + unat csize + LZCOMMON_BLOCK)"
proof -
  let ?p = "start + header_len flags"
  let ?st = "state\<lparr>l_flags := flags, max_block_size := header_max_block bd, l_decode := Decode_Block,
    d_window_start := loadaddr, d_out := loadaddr, d_out_end := loadaddr + unat csize\<rparr>"
  have e: "end_ptr = ?p + length (enc_body bs tail)" "?p \<le> end_ptr"
    using end_ptr by (simp_all add: length_enc_frame)
  have "dec_geom m end_ptr start (loadaddr + unat csize) loadaddr loadaddr"
    using mapped disjoint end_ptr by (auto simp: dec_geom_def)
  then have g: "dec_geom m end_ptr ?p (loadaddr + unat csize) loadaddr loadaddr"
    by (rule dec_geom_step [OF _ only_within_refl]) (use e in auto)
  have "\<exists>st' m'. decode_all ?st ?p end_ptr m = Some (st', m') \<and> d_out st' = loadaddr + unat csize \<and>
      bytes_at m' loadaddr (unat csize) = frame_out (flags AND FBINDEP \<noteq> 0) [] bs \<and>
      only_within m m' loadaddr (loadaddr + unat csize + 8)"
    using decode_all_body [of m end_ptr ?p ?st bs tail "[]"] g e(1) enc_frame_holds(5) [OF holds] hdr tail blocks
      csize header_max_block_less [of bd] by (simp add: header_ok_def)
  moreover have "sramstage_late state start end_ptr m = decode_all ?st ?p end_ptr m"
    using lz4_probe_frame [OF holds hdr(1) e(2)] lz4_init_frame [OF holds e(2), of state] hdr(2)
    by (simp add: sramstage_late_def Let_def)
  ultimately show ?thesis
    by (auto simp: LZCOMMON_BLOCK_def)
qed

text \<open>A frame with one stored and one compressed block.\<close>

definition sample_blocks :: "lz4_blk list" where
  "sample_blocks = [Raw [1, 2, 3], Comp [Lz4_Seq [7] 1 12] [1, 2, 3, 4, 5]]"

definition sample_frame :: "u8 list" where
  "sample_frame = enc_frame 0x68 0x40 21 0 sample_blocks []"

definition sample_mem :: mem where
  "sample_mem = (\<lambda>x. if 0x1000 \<le> x \<and> x < 0x1000 + length sample_frame then Some (sample_frame ! (x - 0x1000))
     else if x < 0x5000000 then Some 0 else None)"

definition state0 :: lz4_dec_state where
  "state0 = \<lparr>d_window_start = 0, d_out = 0, d_out_end = 0, l_decode = Decode_Null, max_block_size = 0, l_flags = 0\<rparr>"

theorem sramstage_late_unpacks_witness:
  "\<exists>state' m'. sramstage_late state0 0x1000 (0x1000 + length sample_frame) sample_mem = Some (state', m') \<and>
    bytes_at m' 0x4000000 21 = [1, 2, 3, 7, 7, 7, 7, 7, 7, 7, 7, 7, 7, 7, 7, 7, 1, 2, 3, 4, 5]"
proof -
  have fo: "frame_out True [] sample_blocks =
      [1, 2, 3, 7, 7, 7, 7, 7, 7, 7, 7, 7, 7, 7, 7, 7, 1, 2, 3, 4, 5]"
    by code_simp
  have c: "header_ok 0x68 0x40" "0x68 AND FCSIZE \<noteq> 0" "0x68 AND FCCHECKSUM = 0" "0x68 AND FBINDEP \<noteq> 0"
    by code_simp+
  have mb: "header_max_block 0x40 = 65536"
    by (simp add: header_max_block_def)
  have ex: "blk_expand [] (Comp [Lz4_Seq [7] 1 12] [1, 2, 3, 4, 5]) = replicate 13 7 @ [1, 2, 3, 4, 5]"
    "length (enc_block [Lz4_Seq [7] 1 12] [1, 2, 3, 4, 5]) = 10"
    by code_simp+
  have l: "length sample_frame < 100"
    using ex(2) by (simp add: sample_frame_def length_enc_frame header_len_def enc_body_def enc_blk_def
        sample_blocks_def)
  have ok: "frame_ok (header_max_block 0x40) True [] sample_blocks"
    unfolding sample_blocks_def frame_ok.simps blk_ok_def mb if_True ex
    using ex(2) by (auto simp: block_ok_def)
  have h: "mem_holds sample_mem 0x1000 (enc_frame 0x68 0x40 21 0 sample_blocks [])"
    unfolding sample_frame_def [symmetric] by (simp add: mem_holds_nth sample_mem_def)
  have mp: "mapped sample_mem a n" if "a + n \<le> 0x5000000" for a n
    using that by (auto simp: mapped_def sample_mem_def)
  have "\<exists>state' m'. sramstage_late state0 0x1000 (0x1000 + length sample_frame) sample_mem = Some (state', m') \<and>
      bytes_at m' loadaddr (unat (21 :: u64)) = frame_out (0x68 AND FBINDEP \<noteq> 0) [] sample_blocks \<and>
      d_out state' = loadaddr + unat (21 :: u64) \<and>
      only_within sample_mem m' loadaddr (loadaddr + unat (21 :: u64) + LZCOMMON_BLOCK)"
    by (rule sramstage_late_unpacks [OF h])
      (use c ok fo l mp in \<open>auto simp: sample_frame_def [symmetric] loadaddr_def LZCOMMON_BLOCK_def\<close>)
  then show ?thesis
    using c(4) fo by (auto simp: loadaddr_def)
qed

end
