(* ===== verification/Huffman.thy ===== *)
theory Huffman
  imports Decompressor "HOL-Library.Product_Lexorder"
begin

text \<open>
  The checksum and the Huffman tables of compression/inflate.c: crc32\_byte and the
  table-driven update, construct\_codes and construct\_dectable.  A code is kept with its first
  bit in bit 0.
\<close>

section \<open>Checksum\<close>

definition crc32_bit :: "u32 \<Rightarrow> u32 \<Rightarrow> u32" where
  "crc32_bit poly x = drop_bit 1 x XOR (if bit x 0 then poly else 0)"

definition crc32_byte :: "u32 \<Rightarrow> u32 \<Rightarrow> u32" where
  "crc32_byte input poly = (crc32_bit poly ^^ 8) input"

definition CRC_POLY :: u32 where "CRC_POLY = 0xedb88320"

definition crc_table :: "u32 list" where
  "crc_table = map (\<lambda>i. crc32_byte (of_nat i) CRC_POLY) [0..<256]"

definition crc_update :: "u32 list \<Rightarrow> u32 \<Rightarrow> u8 \<Rightarrow> u32" where
  "crc_update table crc c = drop_bit 8 crc XOR table ! unat ((ucast crc :: u8) XOR c)"

lemma crc32_bit_xor: "crc32_bit poly (x XOR y) = crc32_bit poly x XOR crc32_bit poly y"
  by (auto simp: crc32_bit_def bit_xor_iff drop_bit_xor ac_simps)

lemma crc32_iter_xor: "(crc32_bit poly ^^ n) (x XOR y) = (crc32_bit poly ^^ n) x XOR (crc32_bit poly ^^ n) y"
  by (induction n) (simp_all add: crc32_bit_xor)

lemma crc32_iter_drop:
  assumes "\<And>i. i < n \<Longrightarrow> \<not> bit x i"
  shows "(crc32_bit poly ^^ n) x = drop_bit n x"
  using assms
proof (induction n)
  case (Suc n)
  then have "(crc32_bit poly ^^ n) x = drop_bit n x" "\<not> bit x n" by auto
  moreover from this have "crc32_bit poly (drop_bit n x) = drop_bit (Suc n) x"
    by (simp add: crc32_bit_def bit_drop_bit_eq drop_bit_drop_bit)
  ultimately show ?case by simp
qed simp

text \<open>C30: the table-driven checksum of a message is the checksum computed bit by bit from the
  polynomial.\<close>

theorem crc_table_correct:
  "foldl (crc_update crc_table) crc bs = foldl (\<lambda>crc b. (crc32_bit CRC_POLY ^^ 8) (crc XOR ucast b)) crc bs"
proof -
  have "crc_update crc_table crc b = (crc32_bit CRC_POLY ^^ 8) (crc XOR ucast b)" for crc b
  proof -
    define x where "x = crc XOR ucast b"
    define y where "y = drop_bit 8 x"
    have xy: "x = push_bit 8 y XOR take_bit 8 x"
      unfolding y_def by (rule bit_word_eqI) (auto simp: bit_xor_iff bit_push_bit_iff bit_drop_bit_eq bit_take_bit_iff)
    have "(crc32_bit CRC_POLY ^^ 8) (push_bit 8 y) = drop_bit 8 (push_bit 8 y)"
      by (rule crc32_iter_drop) (simp add: bit_push_bit_iff)
    also have "\<dots> = drop_bit 8 crc"
      unfolding y_def x_def
      by (rule bit_word_eqI) (auto simp: bit_drop_bit_eq bit_push_bit_iff bit_xor_iff bit_ucast_iff dest: bit_imp_le_length)
    finally have hi: "(crc32_bit CRC_POLY ^^ 8) (push_bit 8 y) = drop_bit 8 crc" .
    have "take_bit 8 x = ucast ((ucast crc :: u8) XOR b)"
      unfolding x_def by (rule bit_word_eqI) (auto simp: bit_take_bit_iff bit_xor_iff bit_ucast_iff dest: bit_imp_le_length)
    then have "of_nat (unat ((ucast crc :: u8) XOR b)) = take_bit 8 x"
      by simp
    moreover have "unat ((ucast crc :: u8) XOR b) < 256"
      using unsigned_less [of "(ucast crc :: u8) XOR b", where 'a = nat] by simp
    ultimately have "crc_table ! unat ((ucast crc :: u8) XOR b) = (crc32_bit CRC_POLY ^^ 8) (take_bit 8 x)"
      by (simp add: crc_table_def crc32_byte_def)
    then have "crc_update crc_table crc b = (crc32_bit CRC_POLY ^^ 8) (push_bit 8 y XOR take_bit 8 x)"
      by (simp add: crc_update_def crc32_iter_xor hi)
    then show ?thesis
      using xy x_def by simp
  qed
  then have "crc_update crc_table = (\<lambda>crc b. (crc32_bit CRC_POLY ^^ 8) (crc XOR ucast b))"
    by (intro ext)
  then show ?thesis by simp
qed

section \<open>Codes\<close>

text \<open>
  The next code of length pos + 1: an increment with the carry running to lower bits, which
  ends when it carries out of bit 0.
\<close>

fun inc_code :: "nat \<Rightarrow> u16 \<Rightarrow> u16 \<times> bool" where
  "inc_code pos code =
    (if bit code pos then
       let code = unset_bit pos code in if pos = 0 then (code, True) else inc_code (pos - 1) code
     else (set_bit pos code, False))"

declare inc_code.simps [simp del]

text \<open>The symbols in the order of the two loops, with their lengths.\<close>

definition code_order :: "nat \<Rightarrow> nat list \<Rightarrow> (nat \<times> nat) list" where
  "code_order num_symbols lengths =
    concat (map (\<lambda>len. map (Pair len) (filter (\<lambda>sy. lengths ! sy = len) [0..<num_symbols])) [1..<16])"

fun assign_codes :: "(nat \<times> nat) list \<Rightarrow> u16 \<Rightarrow> u16 list \<Rightarrow> nat \<Rightarrow> u16 list \<times> nat" where
  "assign_codes [] code codes n = (codes, n)"
| "assign_codes ((len, sy) # xs) code codes n =
    (let codes = codes[sy := code]; n = n + 1; (code, ended) = inc_code (len - 1) code
     in if ended then (codes, n) else assign_codes xs code codes n)"

definition construct_codes :: "nat \<Rightarrow> nat list \<Rightarrow> u16 list \<Rightarrow> u16 list option" where
  "construct_codes num_symbols lengths codes =
    (if length lengths < num_symbols \<or> length codes < num_symbols then None else
     let active_syms = length (filter (\<lambda>sy. lengths ! sy \<noteq> 0) [0..<num_symbols]);
         codes = map (\<lambda>(sy, c). if sy < num_symbols \<and> lengths ! sy = 0 then 0 else c) (enumerate 0 codes);
         (codes, codes_allocated) = assign_codes (code_order num_symbols lengths) 0 codes 0
     in if active_syms = codes_allocated then Some codes else None)"

section \<open>The value of a code\<close>

text \<open>The code as a binary fraction of 15 digits, its first bit being the first digit.\<close>

definition frac :: "u16 \<Rightarrow> nat" where
  "frac c = (\<Sum>i<15. if bit c i then 2 ^ (14 - i) else 0)"

lemma frac_set:
  assumes "i < 15" "\<not> bit c i"
  shows "frac (set_bit i c) = frac c + 2 ^ (14 - i)"
proof -
  have "frac (set_bit i c) = (\<Sum>j<15. (if bit c j then 2 ^ (14 - j) else 0) + (if j = i then 2 ^ (14 - i) else 0))"
    unfolding frac_def using assms by (intro sum.cong) (auto simp: bit_set_bit_iff)
  then show ?thesis
    using assms(1) by (simp add: frac_def sum.distrib)
qed

lemma frac_unset:
  assumes "i < 15" "bit c i"
  shows "frac c = frac (unset_bit i c) + 2 ^ (14 - i)"
proof -
  have "set_bit i (unset_bit i c) = c"
    using assms(2) by (intro bit_word_eqI) (auto simp: bit_set_bit_iff bit_unset_bit_iff)
  then show ?thesis
    using frac_set [OF assms(1), of "unset_bit i c"] by (simp add: bit_unset_bit_iff)
qed

lemma sum_digits: "k \<le> 15 \<Longrightarrow> (\<Sum>i = 15 - k..<15. 2 ^ (14 - i)) < (2 :: nat) ^ k"
proof (induction k)
  case (Suc k)
  have "{15 - Suc k..<15} = insert (15 - Suc k) {15 - k..<15}" using Suc.prems by auto
  moreover have "14 - (15 - Suc k) = k" using Suc.prems by simp
  ultimately show ?case using Suc by simp
qed simp

lemma frac_take:
  assumes "n \<le> 15"
  shows "frac (take_bit n c) \<le> frac c" "frac c < frac (take_bit n c) + 2 ^ (15 - n)"
proof -
  let ?f = "\<lambda>i. if bit c i then 2 ^ (14 - i) else (0 :: nat)"
  have "frac (take_bit n c) = (\<Sum>i<15. if i < n then ?f i else 0)"
    unfolding frac_def by (rule sum.cong) (auto simp: bit_take_bit_iff)
  also have "\<dots> = (\<Sum>i\<in>{..<15} \<inter> {..<n}. ?f i)"
    by (subst sum.inter_restrict) auto
  also have "{..<15} \<inter> {..<n} = {..<n}" using assms by auto
  finally have t: "frac (take_bit n c) = (\<Sum>i<n. ?f i)" .
  have "{..<15} = {..<n} \<union> {n..<15}" using assms by auto
  then have "frac c = (\<Sum>i<n. ?f i) + (\<Sum>i = n..<15. ?f i)"
    unfolding frac_def by (simp add: sum.union_disjoint ivl_disj_int)
  then have f: "frac c = frac (take_bit n c) + (\<Sum>i = n..<15. ?f i)" by (simp only: t)
  have "(\<Sum>i = n..<15. ?f i) \<le> (\<Sum>i = n..<15. 2 ^ (14 - i))" by (rule sum_mono) simp
  also have "\<dots> < 2 ^ (15 - n)" using sum_digits [of "15 - n"] assms by simp
  finally show "frac (take_bit n c) \<le> frac c" "frac c < frac (take_bit n c) + 2 ^ (15 - n)"
    using f by simp_all
qed

lemma inc_code_frac:
  assumes "pos < 15"
  shows "case inc_code pos c of (c', ended) \<Rightarrow>
    (if ended then (\<forall>i \<le> pos. bit c i) else frac c' = frac c + 2 ^ (14 - pos) \<and> (\<forall>i > pos. bit c' i = bit c i))"
  using assms
proof (induction pos c rule: inc_code.induct)
  case (1 pos c)
  show ?case
  proof (cases "bit c pos")
    case False
    then show ?thesis
      using 1(2) by (simp add: inc_code.simps [of pos c] frac_set bit_set_bit_iff)
  next
    case True
    show ?thesis
    proof (cases pos)
      case 0
      then have "inc_code pos c = (unset_bit pos c, True)" using True by (subst inc_code.simps) simp
      then show ?thesis using True 0 by simp
    next
      case (Suc p)
      let ?u = "unset_bit pos c"
      have "case inc_code p ?u of (c', ended) \<Rightarrow>
          (if ended then (\<forall>i \<le> p. bit ?u i) else frac c' = frac ?u + 2 ^ (14 - p) \<and> (\<forall>i > p. bit c' i = bit ?u i))"
        using 1(1) [OF True refl, unfolded Suc diff_Suc_1] Suc 1(2) by (auto split: prod.splits)
      moreover have "inc_code pos c = inc_code p ?u"
        using True Suc by (subst inc_code.simps) simp
      moreover have "2 ^ (14 - p) = 2 * (2 :: nat) ^ (14 - pos)"
        using Suc 1(2) by (simp add: Suc_diff_Suc power_Suc [symmetric] del: power_Suc)
      ultimately show ?thesis
        using frac_unset [OF 1(2) True] True Suc
        by (auto simp: bit_unset_bit_iff le_Suc_eq split: prod.splits if_splits)
    qed
  qed
qed

text \<open>The codes are dealt out without gaps; the share of a symbol with a code of length len is 2 ^ (15 - len).\<close>

definition share :: "nat \<times> nat \<Rightarrow> nat" where
  "share = (\<lambda>(len, sy). 2 ^ (15 - len))"

definition kraft :: "(nat \<times> nat) list \<Rightarrow> nat" where
  "kraft xs = sum_list (map share xs)"

lemma kraft_simps [simp]: "kraft [] = 0" "kraft (x # xs) = share x + kraft xs" "kraft (xs @ ys) = kraft xs + kraft ys"
  by (simp_all add: kraft_def)

definition order_ok :: "nat \<Rightarrow> (nat \<times> nat) list \<Rightarrow> bool" where
  "order_ok n xs \<longleftrightarrow> sorted (map fst xs) \<and> distinct (map snd xs) \<and> (\<forall>(len, sy) \<in> set xs. 1 \<le> len \<and> len \<le> 15 \<and> sy < n)"

lemma frac_bits: "frac c = 0 \<longleftrightarrow> (\<forall>i < 15. \<not> bit c i)"
  by (auto simp: frac_def)

lemma frac_ones:
  assumes "\<And>i. i < n \<Longrightarrow> bit c i" "n \<le> 15"
  shows "2 ^ 15 - 2 ^ (15 - n) \<le> frac c"
  using assms
proof (induction n arbitrary: c)
  case (Suc n)
  let ?u = "unset_bit n c"
  have "2 ^ 15 - 2 ^ (15 - n) \<le> frac ?u"
    using Suc.prems by (intro Suc.IH) (auto simp: bit_unset_bit_iff)
  moreover have "frac c = frac ?u + 2 ^ (14 - n)"
    using Suc.prems by (intro frac_unset) auto
  moreover have "15 - n = Suc (14 - n)" "15 - Suc n = 14 - n" using Suc.prems(2) by simp_all
  moreover have "(2 :: nat) ^ (15 - n) \<le> 2 ^ 15" by (rule power_increasing) simp_all
  ultimately show ?case by simp
qed simp

lemma sum_leading: "n \<le> 15 \<Longrightarrow> (\<Sum>i<n. 2 ^ (14 - i)) + 2 ^ (15 - n) = (2 :: nat) ^ 15"
proof (induction n)
  case (Suc n)
  then have "15 - n = Suc (14 - n)" "15 - Suc n = 14 - n" by simp_all
  then show ?case using Suc by simp
qed simp

lemma frac_upper:
  assumes "\<And>i. bit c i \<Longrightarrow> i < n" "n \<le> 15"
  shows "frac c + 2 ^ (15 - n) \<le> 2 ^ 15"
proof -
  have "frac c \<le> (\<Sum>i<15. if i < n then 2 ^ (14 - i) else 0)"
    unfolding frac_def using assms(1) by (intro sum_mono) auto
  also have "\<dots> = (\<Sum>i\<in>{..<15} \<inter> {..<n}. 2 ^ (14 - i))"
    by (subst sum.inter_restrict) auto
  also have "{..<15} \<inter> {..<n} = {..<n}" using assms by auto
  finally show ?thesis using sum_leading [OF assms(2)] by simp
qed

lemma kraft_pos: "0 < kraft xs \<longleftrightarrow> xs \<noteq> []"
  by (cases xs) (auto simp: share_def)

text \<open>
  While the shares do not exceed the whole, every symbol gets the code that starts where the
  symbols before it end; otherwise some symbol gets none.
\<close>

lemma assign_codes_correct:
  assumes "order_ok n xs" "length codes = n" "\<And>i. bit code i \<Longrightarrow> xs \<noteq> [] \<Longrightarrow> i < fst (hd xs)"
  shows "if frac code + kraft xs \<le> 2 ^ 15
    then \<exists>codes'. assign_codes xs code codes k = (codes', k + length xs) \<and> length codes' = n \<and>
      (\<forall>i < length xs. frac (codes' ! snd (xs ! i)) = frac code + kraft (take i xs) \<and>
         (\<forall>j. bit (codes' ! snd (xs ! i)) j \<longrightarrow> j < fst (xs ! i))) \<and>
      (\<forall>sy < n. sy \<notin> snd ` set xs \<longrightarrow> codes' ! sy = codes ! sy)
    else xs \<noteq> [] \<longrightarrow> snd (assign_codes xs code codes k) < k + length xs"
  using assms
proof (induction xs arbitrary: code codes k)
  case (Cons x xs)
  obtain len sy where x: "x = (len, sy)" by fastforce
  have len: "1 \<le> len" "len \<le> 15" "sy < n" "sy \<notin> snd ` set xs" "\<And>y. y \<in> set xs \<Longrightarrow> len \<le> fst y"
    and ok: "order_ok n xs"
    using Cons.prems(1) unfolding order_ok_def x by (auto simp: comp_def)
  have low: "\<And>i. bit code i \<Longrightarrow> i < len" using Cons.prems(3) x by simp
  obtain c' ended where c': "inc_code (len - 1) code = (c', ended)" by fastforce
  note inc = inc_code_frac [of "len - 1" code, unfolded c']
  have pow: "(2 :: nat) ^ (14 - (len - 1)) = share x" using len(1) x by (simp add: share_def)
  show ?case
  proof (cases ended)
    case True
    then have "\<And>i. i < len \<Longrightarrow> bit code i" using inc len by auto
    then have "2 ^ 15 - share x \<le> frac code" using frac_ones [of len code] len(2) x by (simp add: share_def)
    moreover have "frac code + share x \<le> 2 ^ 15" using frac_upper [OF low len(2)] x by (simp add: share_def)
    ultimately have "frac code + share x = 2 ^ 15" by simp
    then show ?thesis
      using True c' x kraft_pos [of xs] low len(3) Cons.prems(2) by (cases "xs = []") (auto simp: nth_list_update)
  next
    case False
    have fr: "frac c' = frac code + share x" using inc False len pow by auto
    have "\<And>i. i > len - 1 \<Longrightarrow> bit c' i = bit code i" using inc False len by auto
    then have "\<And>i. bit c' i \<Longrightarrow> i < len"
      using low len(1) by (metis Suc_pred' not_less_eq less_eq_Suc_le One_nat_def)
    then have low': "\<And>i. bit c' i \<Longrightarrow> xs \<noteq> [] \<Longrightarrow> i < fst (hd xs)"
      using len(5) by (metis hd_in_set le_trans linorder_not_le)
    have as: "assign_codes (x # xs) code codes k = assign_codes xs c' (codes[sy := code]) (k + 1)"
      using x c' False by simp
    note IH = Cons.IH [where code = c' and codes = "codes[sy := code]" and k = "k + 1", OF ok _ low', unfolded fr]
    show ?thesis
    proof (cases "frac code + kraft (x # xs) \<le> 2 ^ 15")
      case True
      then obtain codes' where r: "assign_codes xs c' (codes[sy := code]) (k + 1) = (codes', k + 1 + length xs)"
        "length codes' = n"
        "\<And>i. i < length xs \<Longrightarrow> frac (codes' ! snd (xs ! i)) = frac code + share x + kraft (take i xs) \<and>
            (\<forall>j. bit (codes' ! snd (xs ! i)) j \<longrightarrow> j < fst (xs ! i))"
        "\<And>sy'. sy' < n \<Longrightarrow> sy' \<notin> snd ` set xs \<Longrightarrow> codes' ! sy' = codes[sy := code] ! sy'"
        using IH Cons.prems(2) by auto
      have "codes' ! sy = code" using r(4) [OF len(3,4)] len(3) Cons.prems(2) by simp
      then show ?thesis
        using True as r x low by (auto simp: nth_Cons' take_Cons' gr0_conv_Suc)
    next
      case False
      moreover have "xs \<noteq> []" using False frac_upper [OF low len(2)] x by (auto simp: share_def)
      ultimately show ?thesis using IH as Cons.prems(2) by auto
    qed
  qed
qed simp

section \<open>Canonical codes\<close>

text \<open>
  The code of a symbol after RFC 1951, as a binary fraction of 15 digits: the shares of all
  symbols that come before it, by length and then by number.
\<close>

definition before :: "nat list \<Rightarrow> nat \<Rightarrow> nat \<Rightarrow> bool" where
  "before lengths a b \<longleftrightarrow> lengths ! a \<noteq> 0 \<and> (lengths ! a < lengths ! b \<or> lengths ! a = lengths ! b \<and> a < b)"

definition canonical :: "nat \<Rightarrow> nat list \<Rightarrow> nat \<Rightarrow> nat" where
  "canonical n lengths sy = (\<Sum>a \<leftarrow> filter (\<lambda>a. before lengths a sy) [0..<n]. 2 ^ (15 - lengths ! a))"

definition kraft_sum :: "nat \<Rightarrow> nat list \<Rightarrow> nat" where
  "kraft_sum n lengths = (\<Sum>a \<leftarrow> filter (\<lambda>a. lengths ! a \<noteq> 0) [0..<n]. 2 ^ (15 - lengths ! a))"

lemma set_code_order:
  "set (code_order n lengths) = {(lengths ! sy, sy) | sy. sy < n \<and> 1 \<le> lengths ! sy \<and> lengths ! sy < 16}"
  by (auto simp: code_order_def)

lemma sorted_code_order: "sorted_wrt (<) (code_order n lengths)"
proof -
  have "sorted_wrt (<) (concat (map (\<lambda>len. map (Pair len) (filter (\<lambda>sy. lengths ! sy = len) [0..<n])) [1..<k]))" for k
  proof (induction k)
    case (Suc k)
    have "sorted_wrt (<) (map (Pair k) (filter (\<lambda>sy. lengths ! sy = k) [0..<n]))"
      by (auto simp: sorted_wrt_map intro!: sorted_wrt_filter sorted_wrt_mono_rel [OF _ sorted_wrt_upt])
    then show ?case using Suc by (auto simp: sorted_wrt_append)
  qed simp
  then show ?thesis by (simp add: code_order_def)
qed

lemma take_code_order:
  assumes "i < length xs" "sorted_wrt (<) (xs :: (nat \<times> nat) list)"
  shows "set (take i xs) = {y \<in> set xs. y < xs ! i}"
proof -
  have k: "xs ! k < xs ! i \<longleftrightarrow> k < i" if "k < length xs" for k
    using that assms(1) sorted_wrt_nth_less [OF assms(2), of k i] sorted_wrt_nth_less [OF assms(2), of i k]
    by (cases k i rule: linorder_cases) auto
  show ?thesis
  proof (rule set_eqI)
    fix y
    have "y \<in> set (take i xs) \<longleftrightarrow> (\<exists>k < i. y = xs ! k)"
      using assms(1) by (auto simp: in_set_conv_nth)
    also have "\<dots> \<longleftrightarrow> (\<exists>k < length xs. y = xs ! k \<and> xs ! k < xs ! i)"
      using k order_less_trans [OF _ assms(1)] by blast
    also have "\<dots> \<longleftrightarrow> y \<in> {y \<in> set xs. y < xs ! i}"
      by (auto simp: in_set_conv_nth)
    finally show "y \<in> set (take i xs) \<longleftrightarrow> y \<in> {y \<in> set xs. y < xs ! i}" .
  qed
qed

lemma kraft_set: "sorted_wrt (<) xs \<Longrightarrow> kraft xs = sum share (set xs)"
  unfolding kraft_def by (metis strict_sorted_iff sum_list_distinct_conv_sum_set)

lemma order_ok_code_order: "n \<le> k \<Longrightarrow> order_ok k (code_order n lengths)"
proof -
  assume n: "n \<le> k"
  have s: "sorted_wrt (<) (code_order n lengths)" by (rule sorted_code_order)
  have "sorted (map fst (code_order n lengths))"
    unfolding sorted_map by (rule sorted_wrt_mono_rel [OF _ s]) auto
  moreover have "inj_on snd (set (code_order n lengths))"
    by (auto simp: set_code_order inj_on_def)
  then have "distinct (map snd (code_order n lengths))"
    using s by (simp add: distinct_map strict_sorted_iff)
  ultimately show ?thesis
    using n by (auto simp: order_ok_def set_code_order)
qed

lemma kraft_code_order:
  assumes "\<And>sy. sy < n \<Longrightarrow> lengths ! sy \<le> 15"
  shows "kraft (code_order n lengths) = kraft_sum n lengths"
    "length (code_order n lengths) = length (filter (\<lambda>sy. lengths ! sy \<noteq> 0) [0..<n])"
    "i < length (code_order n lengths) \<Longrightarrow>
     kraft (take i (code_order n lengths)) = canonical n lengths (snd (code_order n lengths ! i))"
proof -
  let ?xs = "code_order n lengths" and ?f = "\<lambda>sy. (lengths ! sy, sy)"
  have s: "sorted_wrt (<) ?xs" by (rule sorted_code_order)
  have set: "set ?xs = ?f ` set (filter (\<lambda>sy. lengths ! sy \<noteq> 0) [0..<n])"
    using assms by (fastforce simp: set_code_order)
  have inj: "inj_on ?f A" for A by (auto simp: inj_on_def)
  have sum: "sum share (?f ` set (filter P [0..<n])) = (\<Sum>a \<leftarrow> filter P [0..<n]. 2 ^ (15 - lengths ! a))" for P
    by (subst sum.reindex [OF inj]) (simp add: comp_def share_def sum_list_distinct_conv_sum_set)
  show "kraft ?xs = kraft_sum n lengths"
    using kraft_set [OF s] sum unfolding set kraft_sum_def by simp
  show "length ?xs = length (filter (\<lambda>sy. lengths ! sy \<noteq> 0) [0..<n])"
    using s distinct_card [of ?xs] distinct_card [of "filter (\<lambda>sy. lengths ! sy \<noteq> 0) [0..<n]"]
    by (simp add: strict_sorted_iff set card_image [OF inj] del: set_filter)
  assume i: "i < length ?xs"
  have "?xs ! i \<in> set ?xs" using i by simp
  then obtain sy where sy: "?xs ! i = (lengths ! sy, sy)" unfolding set by auto
  have "set (take i ?xs) = ?f ` set (filter (\<lambda>a. before lengths a sy) [0..<n])"
    unfolding take_code_order [OF i s] sy unfolding set by (auto simp: before_def)
  moreover have "sorted_wrt (<) (take i ?xs)" using s by (rule sorted_wrt_take)
  ultimately show "kraft (take i ?xs) = canonical n lengths (snd (?xs ! i))"
    using kraft_set [of "take i ?xs"] sum by (simp add: canonical_def sy del: set_filter)
qed

lemma canonical_set: "canonical n lengths sy = (\<Sum>a \<in> {a. a < n \<and> before lengths a sy}. 2 ^ (15 - lengths ! a))"
  by (simp add: canonical_def sum_list_distinct_conv_sum_set Collect_conj_eq lessThan_def atLeast0LessThan Int_commute)

lemma canonical_before:
  assumes "a < n" "before lengths a b"
  shows "canonical n lengths a + 2 ^ (15 - lengths ! a) \<le> canonical n lengths b"
proof -
  let ?S = "\<lambda>sy. {a. a < n \<and> before lengths a sy}"
  have "canonical n lengths a + 2 ^ (15 - lengths ! a) = (\<Sum>c \<in> insert a (?S a). 2 ^ (15 - lengths ! c))"
    unfolding canonical_set by (subst sum.insert) (auto simp: before_def)
  also have "\<dots> \<le> (\<Sum>c \<in> ?S b. 2 ^ (15 - lengths ! c))"
    using assms by (intro sum_mono2) (auto simp: before_def)
  finally show ?thesis by (simp add: canonical_set)
qed

text \<open>What the tables are built from: every symbol in use has its canonical code.\<close>

definition codes_ok :: "nat \<Rightarrow> nat list \<Rightarrow> u16 list \<Rightarrow> bool" where
  "codes_ok n lengths codes \<longleftrightarrow> n \<le> length codes \<and> n \<le> length lengths \<and>
     (\<forall>sy < n. lengths ! sy \<le> 15 \<and> (lengths ! sy \<noteq> 0 \<longrightarrow>
        frac (codes ! sy) = canonical n lengths sy \<and> (\<forall>j. bit (codes ! sy) j \<longrightarrow> j < lengths ! sy)))"

lemma codes_unique:
  assumes "codes_ok n lengths codes" "a < n" "b < n" "lengths ! a \<noteq> 0" "lengths ! b \<noteq> 0"
    and "take_bit (lengths ! a) w = codes ! a" "take_bit (lengths ! b) w = codes ! b"
  shows "a = b"
proof (rule ccontr)
  assume "a \<noteq> b"
  then have ab: "before lengths a b \<or> before lengths b a" using assms(4,5) by (auto simp: before_def)
  have "lengths ! a \<le> 15" "lengths ! b \<le> 15" using assms(1-3) by (auto simp: codes_ok_def)
  then have "frac (codes ! a) \<le> frac w" "frac w < frac (codes ! a) + 2 ^ (15 - lengths ! a)"
    "frac (codes ! b) \<le> frac w" "frac w < frac (codes ! b) + 2 ^ (15 - lengths ! b)"
    using frac_take [of _ w] assms(6,7) by metis+
  moreover have "frac (codes ! a) = canonical n lengths a" "frac (codes ! b) = canonical n lengths b"
    using assms(1-5) by (auto simp: codes_ok_def)
  ultimately show False
    using ab canonical_before [of a n lengths b] canonical_before [of b n lengths a] assms(2,3) by fastforce
qed

lemma construct_codes_ok:
  assumes l: "\<And>sy. sy < n \<Longrightarrow> lengths ! sy \<le> 15" and n: "n \<le> length lengths" "n \<le> length codes"
  shows "if kraft_sum n lengths \<le> 2 ^ 15
    then \<exists>codes'. construct_codes n lengths codes = Some codes' \<and> codes_ok n lengths codes' \<and>
      length codes' = length codes \<and> (\<forall>sy < n. lengths ! sy = 0 \<longrightarrow> codes' ! sy = 0)
    else construct_codes n lengths codes = None"
proof -
  let ?xs = "code_order n lengths"
  define cs where "cs = map (\<lambda>(sy, c). if sy < n \<and> lengths ! sy = 0 then 0 else c) (enumerate 0 codes)"
  have cs: "length cs = length codes" "\<And>sy. sy < length codes \<Longrightarrow> sy < n \<Longrightarrow> lengths ! sy = 0 \<Longrightarrow> cs ! sy = 0"
    by (simp_all add: cs_def nth_enumerate_eq)
  have f0: "frac 0 = 0" by (simp add: frac_def)
  note k = kraft_code_order [of n lengths, OF l, simplified]
  note A = assign_codes_correct [OF order_ok_code_order [OF n(2)] cs(1), of 0 lengths 0, unfolded f0 k(1) add_0, simplified]
  show ?thesis
  proof (cases "kraft_sum n lengths \<le> 2 ^ 15")
    case True
    then obtain codes' where c: "assign_codes ?xs 0 cs 0 = (codes', length ?xs)" "length codes' = length codes"
      "\<And>i. i < length ?xs \<Longrightarrow> frac (codes' ! snd (?xs ! i)) = kraft (take i ?xs) \<and>
         (\<forall>j. bit (codes' ! snd (?xs ! i)) j \<longrightarrow> j < fst (?xs ! i))"
      "\<And>sy. sy < length codes \<Longrightarrow> sy \<notin> snd ` set ?xs \<Longrightarrow> codes' ! sy = cs ! sy"
      using A by auto
    have "frac (codes' ! sy) = canonical n lengths sy \<and> (\<forall>j. bit (codes' ! sy) j \<longrightarrow> j < lengths ! sy)"
      if "sy < n" "lengths ! sy \<noteq> 0" for sy
    proof -
      have "(lengths ! sy, sy) \<in> set ?xs" using that l [of sy] by (auto simp: set_code_order)
      then obtain i where "i < length ?xs" "?xs ! i = (lengths ! sy, sy)" by (auto simp: in_set_conv_nth)
      then show ?thesis using c(3) [of i] kraft_code_order(3) [of n lengths i, OF l] by simp
    qed
    moreover have "codes' ! sy = 0" if "sy < n" "lengths ! sy = 0" for sy
    proof -
      have "sy \<notin> snd ` set ?xs" using that by (auto simp: set_code_order)
      then show ?thesis using c(4) [of sy] cs(2) [of sy] that n(2) by auto
    qed
    ultimately show ?thesis
      using True c(1,2) n l k(2) by (auto simp: construct_codes_def Let_def codes_ok_def cs_def [symmetric])
  next
    case False
    then have "?xs \<noteq> []" using k(1) by auto
    then have "snd (assign_codes ?xs 0 cs 0) < length ?xs" using A False by auto
    then show ?thesis
      using False n k(2) by (auto simp: construct_codes_def Let_def cs_def [symmetric] split: prod.splits)
  qed
qed

section \<open>Decoding tables\<close>

text \<open>
  The table of 2048 entries, indexed by the next 11 bits: length and symbol of a code of up to
  11 bits, 12 for the beginning of a longer code, 10 where no code is assigned.
\<close>

definition dec_entry :: "nat \<Rightarrow> nat \<Rightarrow> u16" where
  "dec_entry len sy = of_nat len OR push_bit 4 (of_nat sy)"

definition dectable_symbol :: "nat list \<Rightarrow> u16 list \<Rightarrow> nat \<Rightarrow> u16 list \<times> nat list \<Rightarrow> (u16 list \<times> nat list) option" where
  "dectable_symbol lengths codes sy = (\<lambda>(dectable, overlength_count). do {
     len \<leftarrow> get_at sy lengths;
     if len = 0 then Some (dectable, overlength_count)
     else do {
       code \<leftarrow> get_at sy codes;
       if len \<le> 11 then do {
         dectable \<leftarrow> mfold (\<lambda>i. upd_at (push_bit len i OR unat code) (dec_entry len sy)) [0..<drop_bit len 2048] dectable;
         Some (dectable, overlength_count)
       }
       else if len \<le> 15 then do {
         dectable \<leftarrow> upd_at (unat (code AND 0x7ff)) 12 dectable;
         Some (dectable, overlength_count[len - 12 := overlength_count ! (len - 12) + 1])
       }
       else None
     }
   })"

fun running_offsets :: "nat \<Rightarrow> nat list \<Rightarrow> nat list" where
  "running_offsets off [] = [off]"
| "running_offsets off (c # cs) = off # running_offsets (off + c) cs"

definition overlength_entry :: "u16 list \<Rightarrow> nat \<Rightarrow> u32" where
  "overlength_entry codes sy = of_nat sy OR push_bit 9 (ucast (codes ! sy))"

definition overlength_symbol :: "nat list \<Rightarrow> u16 list \<Rightarrow> nat list \<Rightarrow> nat \<Rightarrow> nat list \<times> u32 list \<Rightarrow> (nat list \<times> u32 list) option" where
  "overlength_symbol lengths codes overlength_offsets sy = (\<lambda>(overlength_count, overlength_symbols).
     let len = lengths ! sy
     in if len < 12 then Some (overlength_count, overlength_symbols)
        else do {
          let idx = overlength_count ! (len - 12) + overlength_offsets ! (len - 12);
          if idx < overlength_offsets ! (len - 11) then do {
            overlength_symbols \<leftarrow> upd_at idx (overlength_entry codes sy) overlength_symbols;
            Some (overlength_count[len - 12 := overlength_count ! (len - 12) + 1], overlength_symbols)
          } else None
        })"

definition construct_dectable :: "nat \<Rightarrow> nat list \<Rightarrow> u16 list \<Rightarrow> u32 list \<Rightarrow> (u16 list \<times> nat list \<times> u32 list) option" where
  "construct_dectable num_symbols lengths codes overlength_symbols = do {
     (dectable, overlength_count) \<leftarrow>
       mfold (dectable_symbol lengths codes) [0..<num_symbols] (replicate 2048 10, [0, 0, 0, 0]);
     let overlength_offsets = running_offsets 0 overlength_count;
     (overlength_count, overlength_symbols) \<leftarrow>
       mfold (overlength_symbol lengths codes overlength_offsets) [0..<num_symbols] ([0, 0, 0, 0], overlength_symbols);
     if (\<forall>len < 4. overlength_offsets ! len + overlength_count ! len = overlength_offsets ! (len + 1))
     then Some (dectable, overlength_offsets, overlength_symbols)
     else None
   }"

text \<open>
  The lookup of huff\_block: bits whose entry says 12 are compared with the codes of 12 bits, then
  with those of 13 and so on.  The loop is left when the bits run out, on a match, or when the
  length becomes 4, which it never does; past 15 bits it reads behind the array of offsets.
\<close>

datatype huff_sym = Huff_Sym nat nat | Huff_Data | Huff_Err

fun overlength_find :: "u32 list \<Rightarrow> u32 \<Rightarrow> nat list \<Rightarrow> nat option option" where
  "overlength_find overlength suffix [] = Some None"
| "overlength_find overlength suffix (i # is) = do {
     x \<leftarrow> get_at i overlength;
     if drop_bit 9 x = suffix then Some (Some (unat (x AND 0x1ff))) else overlength_find overlength suffix is
   }"

function overlength_search :: "nat list \<Rightarrow> u32 list \<Rightarrow> u32 \<Rightarrow> nat \<Rightarrow> nat \<Rightarrow> huff_sym option" where
  "overlength_search oloff overlength bits num_bits len =
    (if num_bits < len then Some Huff_Data
     else do {
       let suffix = take_bit len bits;
       a \<leftarrow> get_at (len - 12) oloff;
       b \<leftarrow> get_at (len - 11) oloff;
       r \<leftarrow> overlength_find overlength suffix [a..<b];
       case r of
         Some sy \<Rightarrow> Some (Huff_Sym sy len)
       | None \<Rightarrow> if len + 1 = 4 then Some Huff_Err else overlength_search oloff overlength bits num_bits (len + 1)
     })"
  by pat_completeness auto
termination
  by (relation "measure (\<lambda>(_, _, _, num_bits, len). Suc num_bits - len)") auto

declare overlength_search.simps [simp del]

definition huff_lookup :: "u16 list \<Rightarrow> nat list \<Rightarrow> u32 list \<Rightarrow> u32 \<Rightarrow> nat \<Rightarrow> huff_sym option" where
  "huff_lookup dectable oloff overlength bits num_bits = do {
     val \<leftarrow> get_at (unat (bits AND 0x7ff)) dectable;
     let len = unat (val AND 0xf);
     if 11 < len then overlength_search oloff overlength bits num_bits 12
     else if num_bits < len then Some Huff_Data
     else Some (Huff_Sym (unat (drop_bit 4 val)) len)
   }"

section \<open>Correctness of the tables\<close>

text \<open>The code of the symbol sy is a prefix of the bits x.\<close>

definition code_matches :: "nat list \<Rightarrow> u16 list \<Rightarrow> nat \<Rightarrow> nat \<Rightarrow> bool" where
  "code_matches lengths codes sy x \<longleftrightarrow> lengths ! sy \<noteq> 0 \<and> x mod 2 ^ (lengths ! sy) = unat (codes ! sy)"

lemma code_matches_unique:
  assumes "codes_ok n lengths codes" "a < n" "b < n" "code_matches lengths codes a x" "code_matches lengths codes b x"
  shows "a = b"
proof -
  have t: "take_bit (lengths ! c) (of_nat x :: u16) = codes ! c" if "c < n" "code_matches lengths codes c x" for c
  proof -
    have "lengths ! c \<le> 15" using assms(1) that by (simp add: codes_ok_def)
    then have "x mod 2 ^ 16 mod 2 ^ (lengths ! c) = x mod 2 ^ (lengths ! c)"
      by (intro mod_mod_cancel le_imp_power_dvd) simp
    moreover have "unat (take_bit (lengths ! c) (of_nat x :: u16)) = take_bit (lengths ! c) (take_bit 16 x)"
      by (simp add: unsigned_take_bit_eq unsigned_of_nat)
    ultimately have "unat (take_bit (lengths ! c) (of_nat x :: u16)) = unat (codes ! c)"
      using that by (simp add: code_matches_def take_bit_eq_mod)
    then show ?thesis by (simp only: word_unat_eq_iff)
  qed
  then show ?thesis
    using codes_unique [OF assms(1-3) _ _ t [OF assms(2,4)] t [OF assms(3,5)]] assms(4,5)
    by (auto simp: code_matches_def)
qed

lemma codes_less:
  assumes "codes_ok n lengths codes" "sy < n" "lengths ! sy \<noteq> 0"
  shows "unat (codes ! sy) < 2 ^ (lengths ! sy)" "lengths ! sy \<le> 15" "sy < length lengths" "sy < length codes"
proof -
  have c: "\<And>j. bit (codes ! sy) j \<Longrightarrow> j < lengths ! sy" "lengths ! sy \<le> 15"
    using assms by (auto simp: codes_ok_def)
  then have "take_bit (lengths ! sy) (codes ! sy) = codes ! sy"
    by (intro bit_word_eqI) (auto simp: bit_take_bit_iff)
  then have "take_bit (lengths ! sy) (unat (codes ! sy)) = unat (codes ! sy)"
    by (metis unsigned_take_bit_eq)
  then show "unat (codes ! sy) < 2 ^ (lengths ! sy)"
    by (rule take_bit_nat_eq_self_iff [THEN iffD1])
  show "lengths ! sy \<le> 15" "sy < length lengths" "sy < length codes" using assms by (simp_all add: codes_ok_def)
qed

lemma push_or_nat:
  assumes "c < 2 ^ len"
  shows "push_bit len i OR c = i * 2 ^ len + (c :: nat)"
proof -
  have "take_bit len c = c" using assms by (simp add: take_bit_nat_eq_self_iff)
  then have "\<And>j. bit c j \<Longrightarrow> j < len" by (metis bit_take_bit_iff)
  then have "push_bit len i + c = push_bit len i OR c"
    by (intro disjunctive_add) (meson bit_push_bit_iff linorder_not_less)
  then show ?thesis by (simp add: push_bit_eq_mult)
qed

lemma fill_entries:
  assumes "length tab = 2048" "c < 2 ^ len" "len \<le> 11"
  shows "\<exists>tab'. mfold (\<lambda>i. upd_at (push_bit len i OR c) v) [0..<drop_bit len 2048] tab = Some tab' \<and>
    length tab' = 2048 \<and> (\<forall>w < 2048. tab' ! w = (if w mod 2 ^ len = c then v else tab ! w))"
proof -
  let ?I = "\<lambda>k t. length t = 2048 \<and> (\<forall>w < 2048. t ! w = (if w mod 2 ^ len = c \<and> w div 2 ^ len < k then v else tab ! w))"
  have b: "drop_bit len 2048 * 2 ^ len = (2048 :: nat)"
  proof -
    have "(2 :: nat) ^ len dvd 2 ^ 11" using assms(3) by (intro le_imp_power_dvd)
    then show ?thesis by (simp add: drop_bit_eq_div)
  qed
  have "\<exists>t. mfold (\<lambda>i. upd_at (push_bit len i OR c) v) [0..<drop_bit len 2048] tab = Some t \<and> ?I (drop_bit len 2048) t"
  proof (rule mfold_upt)
    fix k t assume k: "k < drop_bit len 2048" and I: "?I k t"
    have "Suc k * 2 ^ len \<le> drop_bit len 2048 * 2 ^ len" using k by (intro mult_le_mono1) simp
    then have lt: "k * 2 ^ len + c < 2048" using assms(2) b by simp
    have "w = k * 2 ^ len + c \<longleftrightarrow> w mod 2 ^ len = c \<and> w div 2 ^ len = k" for w
      using assms(2) div_mult_mod_eq [of w "2 ^ len"] by fastforce
    then have "w mod 2 ^ len = c \<and> w div 2 ^ len < Suc k \<longleftrightarrow> w = k * 2 ^ len + c \<or> w mod 2 ^ len = c \<and> w div 2 ^ len < k" for w
      using less_Suc_eq by blast
    then show "\<exists>s'. upd_at (push_bit len k OR c) v t = Some s' \<and> ?I (Suc k) s'"
      using I lt assms(2) by (auto simp: push_or_nat nth_list_update)
  qed (use assms in auto)
  moreover have "w div 2 ^ len < drop_bit len 2048" if "w < 2048" for w :: nat
    using that b by (subst div_less_iff_less_mult) simp_all
  ultimately show ?thesis by force
qed

text \<open>The table after the symbols below k, and the number of codes of each length above 11.\<close>

definition dec_inv :: "nat list \<Rightarrow> u16 list \<Rightarrow> nat \<Rightarrow> u16 list \<Rightarrow> bool" where
  "dec_inv lengths codes k tab \<longleftrightarrow> length tab = 2048 \<and> (\<forall>w < 2048.
     (\<forall>sy < k. lengths ! sy \<le> 11 \<longrightarrow> code_matches lengths codes sy w \<longrightarrow> tab ! w = dec_entry (lengths ! sy) sy) \<and>
     (\<forall>sy < k. 12 \<le> lengths ! sy \<longrightarrow> unat (codes ! sy) mod 2048 = w \<longrightarrow> tab ! w = 12) \<and>
     ((\<forall>sy < k. if lengths ! sy \<le> 11 then \<not> code_matches lengths codes sy w else unat (codes ! sy) mod 2048 \<noteq> w) \<longrightarrow> tab ! w = 10))"

definition len_count :: "nat list \<Rightarrow> nat \<Rightarrow> nat \<Rightarrow> nat" where
  "len_count lengths k l = length (filter (\<lambda>sy. lengths ! sy = l) [0..<k])"

definition len_counts :: "nat list \<Rightarrow> nat \<Rightarrow> nat list" where
  "len_counts lengths k = map (\<lambda>j. len_count lengths k (12 + j)) [0..<4]"

lemma len_counts_Suc:
  "lengths ! k < 12 \<Longrightarrow> len_counts lengths (Suc k) = len_counts lengths k"
  "12 \<le> lengths ! k \<Longrightarrow> lengths ! k \<le> 15 \<Longrightarrow>
   (len_counts lengths k)[lengths ! k - 12 := Suc (len_counts lengths k ! (lengths ! k - 12))] = len_counts lengths (Suc k)"
  by (auto simp: len_counts_def len_count_def intro!: nth_equalityI simp: nth_list_update)

lemma code_matches_prefix:
  assumes "codes_ok n lengths codes" "a < n" "b < n" "lengths ! a \<le> 11" "12 \<le> lengths ! b"
  shows "\<not> code_matches lengths codes a (unat (codes ! b) mod 2048)"
proof
  assume a: "code_matches lengths codes a (unat (codes ! b) mod 2048)"
  have "unat (codes ! b) mod 2 ^ 11 mod 2 ^ (lengths ! a) = unat (codes ! b) mod 2 ^ (lengths ! a)"
    using assms(4) by (intro mod_mod_cancel le_imp_power_dvd)
  then have "code_matches lengths codes a (unat (codes ! b))"
    using a by (simp add: code_matches_def)
  moreover have "code_matches lengths codes b (unat (codes ! b))"
    using assms codes_less [OF assms(1,3)] by (simp add: code_matches_def)
  ultimately have "a = b" by (rule code_matches_unique [OF assms(1-3)])
  then show False using assms(4,5) by simp
qed

lemma dec_inv_short:
  assumes "codes_ok n lengths codes" "k < n" "lengths ! k \<noteq> 0" "lengths ! k \<le> 11" "dec_inv lengths codes k tab"
    and "length tab' = 2048"
      "\<forall>w < 2048. tab' ! w = (if w mod 2 ^ (lengths ! k) = unat (codes ! k) then dec_entry (lengths ! k) k else tab ! w)"
  shows "dec_inv lengths codes (Suc k) tab'"
proof -
  have u: "\<not> code_matches lengths codes sy w" if "sy < k" "code_matches lengths codes k w" for sy w
    using code_matches_unique [OF assms(1) _ assms(2), of sy w] that assms(2) by auto
  have v: "\<not> code_matches lengths codes k (unat (codes ! sy) mod 2048)" if "sy < k" "12 \<le> lengths ! sy" for sy
    using code_matches_prefix [OF assms(1,2) _ assms(4), of sy] that assms(2) by simp
  have t: "tab' ! w = (if code_matches lengths codes k w then dec_entry (lengths ! k) k else tab ! w)" if "w < 2048" for w
    using assms(3,7) that by (simp add: code_matches_def)
  show ?thesis
    using assms(4,5,6) u v unfolding dec_inv_def by (auto simp: less_Suc_eq t)
qed

lemma dec_inv_long:
  assumes "codes_ok n lengths codes" "k < n" "12 \<le> lengths ! k" "dec_inv lengths codes k tab"
  shows "dec_inv lengths codes (Suc k) (tab[unat (codes ! k) mod 2048 := 12])"
proof -
  have v: "\<not> code_matches lengths codes sy (unat (codes ! k) mod 2048)" if "sy < k" "lengths ! sy \<le> 11" for sy
    using code_matches_prefix [OF assms(1) _ assms(2) _ assms(3), of sy] that assms(2) by simp
  show ?thesis
    using assms(3,4) v unfolding dec_inv_def by (auto simp: less_Suc_eq nth_list_update)
qed

lemma dectable_entries:
  assumes "codes_ok n lengths codes"
  shows "\<exists>tab. mfold (dectable_symbol lengths codes) [0..<n] (replicate 2048 10, [0, 0, 0, 0]) =
      Some (tab, len_counts lengths n) \<and> dec_inv lengths codes n tab"
proof -
  let ?I = "\<lambda>k (tab, cnt). cnt = len_counts lengths k \<and> dec_inv lengths codes k tab"
  have "\<exists>s. mfold (dectable_symbol lengths codes) [0..<n] (replicate 2048 10, [0, 0, 0, 0]) = Some s \<and> ?I n s"
  proof (rule mfold_upt)
    show "?I 0 (replicate 2048 10, [0, 0, 0, 0])"
      by (simp add: dec_inv_def len_counts_def len_count_def upt_rec)
    fix k s assume k: "k < n" and I: "?I k s"
    obtain tab cnt where s: "s = (tab, cnt)" by fastforce
    then have I: "cnt = len_counts lengths k" "dec_inv lengths codes k tab" using I by simp_all
    have l: "lengths ! k \<le> 15" "k < length lengths" "k < length codes" "length tab = 2048"
      using assms k I(2) by (simp_all add: codes_ok_def dec_inv_def)
    consider "lengths ! k = 0" | "lengths ! k \<noteq> 0" "lengths ! k \<le> 11" | "12 \<le> lengths ! k" by linarith
    then show "\<exists>s'. dectable_symbol lengths codes k s = Some s' \<and> ?I (Suc k) s'"
    proof cases
      case 1
      then have "dec_inv lengths codes (Suc k) tab"
        using I(2) by (auto simp: dec_inv_def less_Suc_eq code_matches_def)
      then show ?thesis using 1 s I l by (simp add: dectable_symbol_def len_counts_Suc)
    next
      case 2
      obtain tab' where "mfold (\<lambda>i. upd_at (push_bit (lengths ! k) i OR unat (codes ! k)) (dec_entry (lengths ! k) k))
          [0..<drop_bit (lengths ! k) 2048] tab = Some tab'" "length tab' = 2048"
        "\<forall>w < 2048. tab' ! w = (if w mod 2 ^ (lengths ! k) = unat (codes ! k) then dec_entry (lengths ! k) k else tab ! w)"
        using fill_entries [OF l(4) codes_less(1) [OF assms k 2(1)] 2(2)] by blast
      moreover from dec_inv_short [OF assms k 2 I(2) this(2,3)] have "dec_inv lengths codes (Suc k) tab'" .
      ultimately show ?thesis using 2 s I l by (simp add: dectable_symbol_def len_counts_Suc)
    next
      case 3
      have "unat (codes ! k AND 0x7ff) = unat (codes ! k) mod 2048"
        using unat_and_mask [of "codes ! k" 11] by (simp add: mask_eq_exp_minus_1)
      then show ?thesis
        using 3 s I l dec_inv_long [OF assms k 3 I(2)] by (simp add: dectable_symbol_def len_counts_Suc)
    qed
  qed simp
  then show ?thesis by auto
qed

text \<open>The overlong codes are listed by length and, within a length, by symbol.\<close>

definition ol_off :: "nat list \<Rightarrow> nat \<Rightarrow> nat \<Rightarrow> nat" where
  "ol_off lengths n j = (\<Sum>i<j. len_count lengths n (12 + i))"

definition syms_of :: "nat list \<Rightarrow> nat \<Rightarrow> nat \<Rightarrow> nat list" where
  "syms_of lengths k l = filter (\<lambda>sy. lengths ! sy = l) [0..<k]"

definition ol_inv :: "nat list \<Rightarrow> u16 list \<Rightarrow> nat \<Rightarrow> nat \<Rightarrow> u32 list \<Rightarrow> bool" where
  "ol_inv lengths codes n k os \<longleftrightarrow> (\<forall>j < 4. \<forall>t < len_count lengths k (12 + j).
     os ! (ol_off lengths n j + t) = overlength_entry codes (syms_of lengths k (12 + j) ! t))"

lemma len_count_mono: "k \<le> n \<Longrightarrow> len_count lengths k l \<le> len_count lengths n l"
  using upt_add_eq_append [of 0 k "n - k"] by (simp add: len_count_def)

lemma len_count_Suc: "len_count lengths (Suc k) l = len_count lengths k l + (if lengths ! k = l then 1 else 0)"
  by (simp add: len_count_def)

lemma ol_off_Suc: "ol_off lengths n (Suc j) = ol_off lengths n j + len_count lengths n (12 + j)"
  by (simp add: ol_off_def)

lemma ol_off_mono: "i \<le> j \<Longrightarrow> ol_off lengths n i \<le> ol_off lengths n j"
  unfolding ol_off_def by (rule sum_mono2) auto

lemma ol_off_le: "ol_off lengths n 4 \<le> n"
proof (induction n)
  case (Suc n)
  have "ol_off lengths (Suc n) 4 = ol_off lengths n 4 + (\<Sum>i<4. if lengths ! n = 12 + i then 1 else 0)"
    unfolding ol_off_def len_count_Suc sum.distrib ..
  also have "(\<Sum>i<4. if lengths ! n = 12 + i then 1 else 0) \<le> (\<Sum>i<4. if lengths ! n - 12 = i then 1 else (0 :: nat))"
    by (rule sum_mono) auto
  also have "\<dots> \<le> 1" by simp
  finally show ?case using Suc by simp
qed (simp add: ol_off_def len_count_def)

lemma running_offsets_counts: "running_offsets 0 (len_counts lengths n) = map (ol_off lengths n) [0..<5]"
  by (simp add: len_counts_def upt_rec ol_off_def lessThan_Suc eval_nat_numeral)

lemma nth_offsets: "j \<le> 4 \<Longrightarrow> map (ol_off lengths n) [0..<5] ! j = ol_off lengths n j"
  by simp

lemma nth_len_counts: "j < 4 \<Longrightarrow> len_counts lengths k ! j = len_count lengths k (12 + j)"
  by (simp add: len_counts_def)

lemma ol_inv_step:
  assumes "ol_inv lengths codes n k os" "k < n" "lengths ! k = 12 + j" "j < 4" "ol_off lengths n 4 \<le> length os"
  shows "ol_inv lengths codes n (Suc k)
    (os[ol_off lengths n j + len_count lengths k (12 + j) := overlength_entry codes k])"
proof -
  have lt: "len_count lengths k l < len_count lengths n l \<or> lengths ! k \<noteq> l" for l
    using len_count_mono [of "Suc k" n lengths l] assms(2) by (auto simp: len_count_Suc split: if_splits)
  have idx: "ol_off lengths n j + len_count lengths k (12 + j) < length os"
    using lt [of "12 + j"] ol_off_Suc [of lengths n j] ol_off_mono [of "Suc j" 4 lengths n] assms by simp
  have ne: "ol_off lengths n i + t \<noteq> ol_off lengths n j + len_count lengths k (12 + j)"
    if "i < 4" "t < len_count lengths k (12 + i)" "i \<noteq> j" for i t
  proof (cases "i < j")
    case True
    then show ?thesis
      using ol_off_mono [of "Suc i" j lengths n] ol_off_Suc [of lengths n i] len_count_mono [of k n lengths "12 + i"] that assms(2) by simp
  next
    case False
    then show ?thesis
      using ol_off_mono [of "Suc j" i lengths n] ol_off_Suc [of lengths n j] lt [of "12 + j"] that assms(3) by simp
  qed
  have f: "syms_of lengths (Suc k) l = syms_of lengths k l @ (if lengths ! k = l then [k] else [])"
    "length (syms_of lengths k l) = len_count lengths k l" for l
    by (simp_all add: syms_of_def len_count_def)
  show ?thesis
    unfolding ol_inv_def
  proof (intro allI impI)
    fix i t assume i: "i < 4" and t: "t < len_count lengths (Suc k) (12 + i)"
    show "os[ol_off lengths n j + len_count lengths k (12 + j) := overlength_entry codes k] ! (ol_off lengths n i + t) =
      overlength_entry codes (syms_of lengths (Suc k) (12 + i) ! t)"
    proof (cases "i = j \<and> t = len_count lengths k (12 + j)")
      case True
      then show ?thesis using idx assms(3) by (simp add: f nth_append)
    next
      case False
      then have "t < len_count lengths k (12 + i)"
        using t assms(3) by (auto simp: len_count_Suc split: if_splits)
      moreover from this False have "ol_off lengths n i + t \<noteq> ol_off lengths n j + len_count lengths k (12 + j)"
        using ne [OF i] by (cases "i = j") auto
      ultimately show ?thesis
        using assms(1) i by (simp add: ol_inv_def f nth_append)
    qed
  qed
qed

lemma construct_dectable_ok:
  assumes "codes_ok n lengths codes" "n \<le> length os"
  shows "\<exists>tab os'. construct_dectable n lengths codes os = Some (tab, map (ol_off lengths n) [0..<5], os') \<and>
    dec_inv lengths codes n tab \<and> ol_inv lengths codes n n os' \<and> length os' = length os"
proof -
  obtain tab where tab: "mfold (dectable_symbol lengths codes) [0..<n] (replicate 2048 10, [0, 0, 0, 0]) =
      Some (tab, len_counts lengths n)" "dec_inv lengths codes n tab"
    using dectable_entries [OF assms(1)] by blast
  let ?off = "map (ol_off lengths n) [0..<5]"
  let ?I = "\<lambda>k (cnt, os'). cnt = len_counts lengths k \<and> length os' = length os \<and> ol_inv lengths codes n k os'"
  have "\<exists>s. mfold (overlength_symbol lengths codes ?off) [0..<n] ([0, 0, 0, 0], os) = Some s \<and> ?I n s"
  proof (rule mfold_upt [where I = ?I])
    show "?I 0 ([0, 0, 0, 0], os)"
      by (simp add: ol_inv_def len_counts_def len_count_def upt_rec)
    fix k s assume k: "k < n" and I: "?I k s"
    obtain cnt os' where s: "s = (cnt, os')" by fastforce
    have l: "lengths ! k \<le> 15" using assms(1) k by (simp add: codes_ok_def)
    show "\<exists>s'. overlength_symbol lengths codes ?off k s = Some s' \<and> ?I (Suc k) s'"
    proof (cases "lengths ! k < 12")
      case True
      then have "ol_inv lengths codes n (Suc k) os'"
        using I s by (simp add: ol_inv_def len_count_Suc syms_of_def)
      then show ?thesis using I s True by (simp add: overlength_symbol_def len_counts_Suc)
    next
      case False
      then obtain j where j1: "lengths ! k = 12 + j" using le_Suc_ex [of 12 "lengths ! k"] by auto
      then have j: "lengths ! k = 12 + j" "j < 4" using l by simp_all
      have lt: "len_count lengths k (12 + j) < len_count lengths n (12 + j)"
        using len_count_mono [of "Suc k" n lengths "12 + j"] k j(1) by (simp add: len_count_Suc)
      then have idx: "ol_off lengths n j + len_count lengths k (12 + j) < ol_off lengths n (Suc j)"
        by (simp add: ol_off_Suc)
      moreover have "ol_off lengths n (Suc j) \<le> length os"
        using ol_off_mono [of "Suc j" 4 lengths n] ol_off_le [of lengths n] assms(2) j(2) by simp
      moreover have "ol_inv lengths codes n (Suc k) (os'[ol_off lengths n j + len_count lengths k (12 + j) := overlength_entry codes k])"
        using ol_inv_step [OF _ k j, of codes os'] I s ol_off_le [of lengths n] assms(2) by auto
      moreover have "12 + j - 11 = Suc j" by simp
      ultimately show ?thesis
        using I s j False len_counts_Suc(2) [of lengths k] l
        by (simp add: overlength_symbol_def nth_offsets nth_len_counts Let_def add.commute del: nth_map)
    qed
  qed simp
  then obtain os' where os': "mfold (overlength_symbol lengths codes ?off) [0..<n] ([0, 0, 0, 0], os) =
      Some (len_counts lengths n, os')" "length os' = length os" "ol_inv lengths codes n n os'"
    by auto
  have "\<forall>len < 4. ?off ! len + len_counts lengths n ! len = ?off ! (len + 1)"
    using ol_off_Suc [of lengths n] by (simp add: nth_len_counts)
  then show ?thesis
    using tab os' by (simp add: construct_dectable_def running_offsets_counts)
qed

section \<open>Correctness of the lookup\<close>

lemma unat_or_push:
  assumes "a < 2 ^ k" "k + l \<le> LENGTH('a)" "b < 2 ^ l"
  shows "drop_bit k (of_nat a OR push_bit k (of_nat b) :: 'a::len word) = of_nat b"
    "take_bit k (of_nat a OR push_bit k (of_nat b) :: 'a::len word) = of_nat a"
proof -
  have "take_bit k a = a" "take_bit l b = b" using assms by (simp_all add: take_bit_nat_eq_self_iff)
  then have "\<And>i. bit a i \<Longrightarrow> i < k" "\<And>i. bit b i \<Longrightarrow> i < l" by (metis bit_take_bit_iff)+
  then show "drop_bit k (of_nat a OR push_bit k (of_nat b) :: 'a::len word) = of_nat b"
    "take_bit k (of_nat a OR push_bit k (of_nat b) :: 'a::len word) = of_nat a"
    using assms(2)
    by (auto intro!: bit_word_eqI simp: bit_simps) (meson not_add_less1 not_less_iff_gr_or_eq add_less_cancel_left le_add1 less_le_trans | fastforce)+
qed

lemma dec_entry_fields:
  assumes "len \<le> 15" "sy < 4096"
  shows "unat (dec_entry len sy AND 0xf) = len" "unat (drop_bit 4 (dec_entry len sy)) = sy"
proof -
  have "dec_entry len sy AND 0xf = of_nat len" "drop_bit 4 (dec_entry len sy) = of_nat sy"
    using unat_or_push [of len 4 12 sy, where 'a = 16] assms
    by (simp_all add: dec_entry_def take_bit_eq_mask mask_eq_exp_minus_1)
  then show "unat (dec_entry len sy AND 0xf) = len" "unat (drop_bit 4 (dec_entry len sy)) = sy"
    using assms by (simp_all add: unat_of_nat)
qed

lemma overlength_entry_fields:
  assumes "sy < 512" "unat (codes ! sy) < 2 ^ 15"
  shows "drop_bit 9 (overlength_entry codes sy) = ucast (codes ! sy)" "unat (overlength_entry codes sy AND 0x1ff) = sy"
proof -
  have u: "(ucast (codes ! sy) :: u32) = of_nat (unat (codes ! sy))" by simp
  have "overlength_entry codes sy AND 0x1ff = of_nat sy" "drop_bit 9 (overlength_entry codes sy) = of_nat (unat (codes ! sy))"
    using unat_or_push [of sy 9 15 "unat (codes ! sy)", where 'a = 32] assms
    unfolding overlength_entry_def u by (simp_all add: take_bit_eq_mask mask_eq_exp_minus_1 del: of_nat_unat)
  then show "drop_bit 9 (overlength_entry codes sy) = ucast (codes ! sy)" "unat (overlength_entry codes sy AND 0x1ff) = sy"
    using assms by (simp_all add: unat_of_nat)
qed

lemma overlength_find_list:
  assumes "\<And>t. t < length xs \<Longrightarrow> os ! (a + t) = overlength_entry codes (xs ! t)" "a + length xs \<le> length os"
    "\<And>sy. sy \<in> set xs \<Longrightarrow> sy < 512 \<and> unat (codes ! sy) < 2 ^ 15"
  shows "overlength_find os suffix [a..<a + length xs] = Some (find (\<lambda>sy. ucast (codes ! sy) = suffix) xs)"
  using assms
proof (induction xs arbitrary: a)
  case (Cons x xs)
  have "os ! a = overlength_entry codes x" using Cons.prems(1) [of 0] by simp
  moreover have "overlength_find os suffix [Suc a..<Suc a + length xs] = Some (find (\<lambda>sy. ucast (codes ! sy) = suffix) xs)"
    using Cons.prems by (intro Cons.IH) force+
  moreover have "[a..<a + length (x # xs)] = a # [Suc a..<Suc a + length xs]"
    by (subst upt_conv_Cons) simp_all
  ultimately show ?case
    using Cons.prems(2) Cons.prems(3) [of x] overlength_entry_fields [of x codes] by simp
qed simp

lemma take_bit_code:
  "(ucast (c :: u16) :: u32) = take_bit len bits \<longleftrightarrow> unat bits mod 2 ^ len = unat c"
proof -
  have "unat (ucast c :: u32) = unat c"
    using unsigned_less [of c, where 'a = nat] by (simp add: unsigned_ucast_eq unsigned_take_bit_eq take_bit_nat_eq_self_iff)
  moreover have "unat (take_bit len bits) = unat bits mod 2 ^ len" 
    by (simp add: unsigned_take_bit_eq) (simp add: take_bit_eq_mod)
  ultimately show ?thesis by (metis word_unat_eq_iff)
qed

lemma overlength_find_length:
  assumes "codes_ok n lengths codes" "ol_inv lengths codes n n os" "n \<le> 512" "ol_off lengths n 4 \<le> length os" "j < 4"
  shows "overlength_find os (take_bit (12 + j) bits) [ol_off lengths n j..<ol_off lengths n (Suc j)] =
    Some (find (\<lambda>sy. code_matches lengths codes sy (unat bits)) (syms_of lengths n (12 + j)))"
proof -
  let ?xs = "syms_of lengths n (12 + j)"
  have s: "set ?xs = {sy. sy < n \<and> lengths ! sy = 12 + j}" "length ?xs = len_count lengths n (12 + j)"
    by (auto simp: syms_of_def len_count_def)
  have "overlength_find os (take_bit (12 + j) bits) [ol_off lengths n j..<ol_off lengths n j + length ?xs] =
    Some (find (\<lambda>sy. ucast (codes ! sy) = take_bit (12 + j) bits) ?xs)"
  proof (rule overlength_find_list)
    show "os ! (ol_off lengths n j + t) = overlength_entry codes (?xs ! t)" if "t < length ?xs" for t
      using assms(2,5) that by (simp add: ol_inv_def s)
    show "ol_off lengths n j + length ?xs \<le> length os"
      using assms(4,5) ol_off_mono [of "Suc j" 4 lengths n] ol_off_Suc [of lengths n j] by (simp add: s)
    show "sy < 512 \<and> unat (codes ! sy) < 2 ^ 15" if "sy \<in> set ?xs" for sy
    proof -
      have "unat (codes ! sy) < 2 ^ (12 + j)" using codes_less(1) [OF assms(1), of sy] that s by auto
      also have "\<dots> \<le> 2 ^ 15" using assms(5) by (intro power_increasing) simp_all
      finally show ?thesis using that s assms(3) by auto
    qed
  qed
  moreover have "find (\<lambda>sy. ucast (codes ! sy) = take_bit (12 + j) bits) ?xs = find (\<lambda>sy. code_matches lengths codes sy (unat bits)) ?xs"
    by (rule find_cong) (auto simp: s take_bit_code code_matches_def)
  ultimately show ?thesis by (simp add: s ol_off_Suc)
qed

lemma find_SomeD: "find P xs = Some x \<Longrightarrow> x \<in> set xs \<and> P x"
  by (auto simp: find_Some_iff)

lemma overlength_search_code:
  assumes "codes_ok n lengths codes" "ol_inv lengths codes n n os" "n \<le> 512" "ol_off lengths n 4 \<le> length os"
    and sy: "sy < n" "code_matches lengths codes sy (unat bits)" and len: "12 \<le> len" "len \<le> lengths ! sy"
  shows "overlength_search (map (ol_off lengths n) [0..<5]) os bits num_bits len =
    Some (if num_bits < lengths ! sy then Huff_Data else Huff_Sym sy (lengths ! sy))"
  using len
proof (induction "lengths ! sy - len" arbitrary: len)
  case (0 len)
  then have L: "lengths ! sy = len" by simp
  obtain j where j: "len = 12 + j" using 0 le_Suc_ex by blast
  have "j < 4" using codes_less(2) [OF assms(1) sy(1)] L j by simp
  have "find (\<lambda>sy. code_matches lengths codes sy (unat bits)) (syms_of lengths n (12 + j)) = Some sy"
  proof -
    obtain r where "find (\<lambda>sy. code_matches lengths codes sy (unat bits)) (syms_of lengths n (12 + j)) = Some r"
      using sy L j by (cases "find (\<lambda>sy. code_matches lengths codes sy (unat bits)) (syms_of lengths n (12 + j))")
        (auto simp: find_None_iff syms_of_def)
    moreover from this have "r < n" "code_matches lengths codes r (unat bits)"
      using find_SomeD [of _ "syms_of lengths n (12 + j)" r] by (auto simp: syms_of_def)
    ultimately show ?thesis using code_matches_unique [OF assms(1) _ sy(1) _ sy(2)] by blast
  qed
  then show ?case
    using L j \<open>j < 4\<close> overlength_find_length [OF assms(1-4) \<open>j < 4\<close>, of bits]
    by (subst overlength_search.simps) simp
next
  case (Suc x len)
  then have L: "len < lengths ! sy" by simp
  obtain j where j: "len = 12 + j" using Suc le_Suc_ex by blast
  have "j < 4" using codes_less(2) [OF assms(1) sy(1)] L j by simp
  have "find (\<lambda>sy. code_matches lengths codes sy (unat bits)) (syms_of lengths n (12 + j)) = None"
    unfolding find_None_iff using code_matches_unique [OF assms(1) _ sy(1) _ sy(2)] L j by (auto simp: syms_of_def)
  moreover have "overlength_search (map (ol_off lengths n) [0..<5]) os bits num_bits (Suc len) =
    Some (if num_bits < lengths ! sy then Huff_Data else Huff_Sym sy (lengths ! sy))"
    using Suc by (intro Suc.hyps(1)) simp_all
  ultimately show ?case
    using L j \<open>j < 4\<close> overlength_find_length [OF assms(1-4) \<open>j < 4\<close>, of bits]
    by (subst overlength_search.simps) simp
qed

lemma huff_lookup_code:
  assumes "codes_ok n lengths codes" "dec_inv lengths codes n tab" "ol_inv lengths codes n n os" "n \<le> 512" "n \<le> length os"
    and sy: "sy < n" "code_matches lengths codes sy (unat bits)"
  shows "huff_lookup tab (map (ol_off lengths n) [0..<5]) os bits num_bits =
    Some (if num_bits < lengths ! sy then Huff_Data else Huff_Sym sy (lengths ! sy))"
proof -
  have w: "unat (bits AND 0x7ff) = unat bits mod 2048"
    using unat_and_mask [of bits 11] by (simp add: mask_eq_exp_minus_1)
  have tab: "length tab = 2048" using assms(2) by (simp add: dec_inv_def)
  have L: "lengths ! sy \<le> 15" "lengths ! sy \<noteq> 0"
    using codes_less(2) [OF assms(1) sy(1)] sy(2) by (simp_all add: code_matches_def)
  show ?thesis
  proof (cases "lengths ! sy \<le> 11")
    case True
    have "unat bits mod 2 ^ 11 mod 2 ^ (lengths ! sy) = unat bits mod 2 ^ (lengths ! sy)"
      using True by (intro mod_mod_cancel le_imp_power_dvd)
    then have "code_matches lengths codes sy (unat bits mod 2048)"
      using sy(2) by (simp add: code_matches_def)
    then have "tab ! (unat bits mod 2048) = dec_entry (lengths ! sy) sy"
      using assms(2) True sy(1) by (simp add: dec_inv_def)
    then show ?thesis
      using dec_entry_fields [of "lengths ! sy" sy] L True sy(1) assms(4) tab by (simp add: huff_lookup_def w)
  next
    case False
    have "unat bits mod 2 ^ (lengths ! sy) mod 2 ^ 11 = unat bits mod 2 ^ 11"
      using False by (intro mod_mod_cancel le_imp_power_dvd) simp
    then have "unat (codes ! sy) mod 2048 = unat bits mod 2048"
      using sy(2) by (simp add: code_matches_def)
    then have "tab ! (unat bits mod 2048) = 12"
      using assms(2) False sy(1) by (simp add: dec_inv_def)
    then show ?thesis
      using overlength_search_code [OF assms(1,3,4) _ sy, of 12 num_bits] False ol_off_le [of lengths n] assms(5) tab
      by (simp add: huff_lookup_def w)
  qed
qed

text \<open>
  Bits that start with no code: an entry that says 10 passes as symbol 0 with a code of 10 bits;
  behind the beginning of an overlong code the search leaves the array of offsets.
\<close>

lemma overlength_search_none:
  assumes "codes_ok n lengths codes" "ol_inv lengths codes n n os" "n \<le> 512" "ol_off lengths n 4 \<le> length os"
    and none: "\<And>sy. sy < n \<Longrightarrow> \<not> code_matches lengths codes sy (unat bits)" and len: "12 \<le> len" "len \<le> 16" "16 \<le> num_bits"
  shows "overlength_search (map (ol_off lengths n) [0..<5]) os bits num_bits len = None"
  using len(1,2)
proof (induction "16 - len" arbitrary: len)
  case (0 len)
  then have "get_at (len - 11) (map (ol_off lengths n) [0..<5]) = None" by (simp add: get_at_def)
  then show ?case using 0 len(3) by (subst overlength_search.simps) (simp split: bind_splits)
next
  case (Suc x len)
  obtain j where j: "len = 12 + j" using Suc le_Suc_ex by blast
  have "j < 4" using Suc(2) j by simp
  have "find (\<lambda>sy. code_matches lengths codes sy (unat bits)) (syms_of lengths n (12 + j)) = None"
    unfolding find_None_iff using none by (auto simp: syms_of_def)
  moreover have "overlength_search (map (ol_off lengths n) [0..<5]) os bits num_bits (Suc len) = None"
    using Suc by (intro Suc.hyps(1)) simp_all
  ultimately show ?case
    using j \<open>j < 4\<close> len(3) overlength_find_length [OF assms(1-4) \<open>j < 4\<close>, of bits]
    by (subst overlength_search.simps) simp
qed

lemma huff_lookup_none:
  assumes "codes_ok n lengths codes" "dec_inv lengths codes n tab" "ol_inv lengths codes n n os" "n \<le> 512" "n \<le> length os"
    and none: "\<And>sy. sy < n \<Longrightarrow> \<not> code_matches lengths codes sy (unat bits)" and "16 \<le> num_bits"
  shows "huff_lookup tab (map (ol_off lengths n) [0..<5]) os bits num_bits =
    (if \<exists>sy < n. 12 \<le> lengths ! sy \<and> unat (codes ! sy) mod 2048 = unat bits mod 2048 then None
     else Some (Huff_Sym 0 10))"
proof -
  have w: "unat (bits AND 0x7ff) = unat bits mod 2048"
    using unat_and_mask [of bits 11] by (simp add: mask_eq_exp_minus_1)
  have tab: "length tab = 2048" using assms(2) by (simp add: dec_inv_def)
  show ?thesis
  proof (cases "\<exists>sy < n. 12 \<le> lengths ! sy \<and> unat (codes ! sy) mod 2048 = unat bits mod 2048")
    case True
    then have "tab ! (unat bits mod 2048) = 12" using assms(2) by (auto simp: dec_inv_def)
    then show ?thesis
      using overlength_search_none [OF assms(1,3,4) _ none, of 12 num_bits] True ol_off_le [of lengths n] assms(5,7) tab
      by (simp add: huff_lookup_def w)
  next
    case False
    have "\<not> code_matches lengths codes sy (unat bits mod 2048)" if "sy < n" "lengths ! sy \<le> 11" for sy
    proof -
      have "unat bits mod 2 ^ 11 mod 2 ^ (lengths ! sy) = unat bits mod 2 ^ (lengths ! sy)"
        using that(2) by (intro mod_mod_cancel le_imp_power_dvd)
      then show ?thesis using none [OF that(1)] by (simp add: code_matches_def)
    qed
    then have "tab ! (unat bits mod 2048) = 10" using assms(2) False by (auto simp: dec_inv_def)
    then show ?thesis using False assms(7) tab by (simp add: huff_lookup_def w)
  qed
qed

section \<open>Properties\<close>

text \<open>C17: construct\_codes succeeds exactly on lengths that are not over-subscribed (the Kraft sum is at
  most 1), and then gives every used symbol the canonical code of RFC 1951: the shares of the symbols
  before it, in the order of length and number, without bits beyond its length.  No code is then a
  prefix of another one.\<close>

theorem construct_codes_canonical:
  assumes "\<forall>sy < n. lengths ! sy \<le> 15" "n \<le> length lengths" "n \<le> length codes"
  shows "(construct_codes n lengths codes = None \<longleftrightarrow> 2 ^ 15 < kraft_sum n lengths) \<and>
    (\<forall>codes'. construct_codes n lengths codes = Some codes' \<longrightarrow>
      (\<forall>sy < n. lengths ! sy \<noteq> 0 \<longrightarrow> frac (codes' ! sy) = canonical n lengths sy \<and> unat (codes' ! sy) < 2 ^ (lengths ! sy)) \<and>
      (\<forall>a < n. \<forall>b < n. \<forall>x. code_matches lengths codes' a x \<longrightarrow> code_matches lengths codes' b x \<longrightarrow> a = b))"
proof -
  have ok: "codes_ok n lengths codes'" if "construct_codes n lengths codes = Some codes'" for codes'
    using construct_codes_ok [of n lengths codes] assms that by (auto split: if_splits)
  have "construct_codes n lengths codes = None \<longleftrightarrow> 2 ^ 15 < kraft_sum n lengths"
    using construct_codes_ok [of n lengths codes] assms by (auto split: if_splits)
  moreover have "frac (codes' ! sy) = canonical n lengths sy \<and> unat (codes' ! sy) < 2 ^ (lengths ! sy)"
    if "construct_codes n lengths codes = Some codes'" "sy < n" "lengths ! sy \<noteq> 0" for codes' sy
    using ok [OF that(1)] codes_less(1) [OF ok [OF that(1)] that(2,3)] that by (simp add: codes_ok_def)
  ultimately show ?thesis using code_matches_unique [OF ok] by blast
qed

lemma sample_codes: "construct_codes 3 [2, 1, 2] [0, 0, 0] = Some [1, 0, 3]" "construct_codes 2 [1, 0] [0, 0] = Some [0, 0]"
  by code_simp+

theorem construct_codes_canonical_witness:
  "construct_codes 3 [1, 1, 1] [0, 0, 0] = None \<and> construct_codes 3 [2, 1, 2] [0, 0, 0] = Some [1, 0, 3] \<and>
   frac 3 = canonical 3 [2, 1, 2] 2"
proof -
  have l: "\<forall>sy < 3. [1, 1, 1 :: nat] ! sy \<le> 15" "\<forall>sy < 3. [2, 1, 2 :: nat] ! sy \<le> 15"
    by (auto simp: less_Suc_eq numeral_3_eq_3)
  have "kraft_sum 3 [1, 1, 1] = 3 * 2 ^ 14" by (simp add: kraft_sum_def upt_rec)
  then have "construct_codes 3 [1, 1, 1] [0, 0, 0] = None"
    using construct_codes_canonical [OF l(1), of "[0, 0, 0]", THEN conjunct1] by simp
  moreover have "frac ([1, 0, 3] ! 2) = canonical 3 [2, 1, 2] 2"
    using construct_codes_canonical [OF l(2), of "[0, 0, 0]", THEN conjunct2, rule_format, OF _ _ sample_codes(1), THEN conjunct1, rule_format, of 2]
    by simp
  ultimately show ?thesis using sample_codes(1) by simp
qed

text \<open>C18: The decoding tables built from these codes decode every code: on bits that start with the code
  of a symbol the lookup of huff\_block yields that symbol and its length, whether the code fits the
  table or is searched among the overlong ones, and asks for more data exactly when the code is not
  yet complete.\<close>

theorem huff_lookup_correct:
  assumes "\<forall>sy < n. lengths ! sy \<le> 15" "n \<le> length lengths" "n \<le> length codes" "n \<le> length os" "n \<le> 512"
    and "kraft_sum n lengths \<le> 2 ^ 15"
  shows "\<exists>codes' tab off os'. construct_codes n lengths codes = Some codes' \<and>
    construct_dectable n lengths codes' os = Some (tab, off, os') \<and>
    (\<forall>sy < n. \<forall>bits num_bits. code_matches lengths codes' sy (unat bits) \<longrightarrow>
       huff_lookup tab off os' bits num_bits =
         Some (if num_bits < lengths ! sy then Huff_Data else Huff_Sym sy (lengths ! sy)))"
proof -
  obtain codes' where c: "construct_codes n lengths codes = Some codes'" "codes_ok n lengths codes'"
    using construct_codes_ok [of n lengths codes] assms by auto
  obtain tab os' where d: "construct_dectable n lengths codes' os = Some (tab, map (ol_off lengths n) [0..<5], os')"
    "dec_inv lengths codes' n tab" "ol_inv lengths codes' n n os'" "length os' = length os"
    using construct_dectable_ok [OF c(2) assms(4)] by blast
  then show ?thesis
    using c huff_lookup_code [OF c(2) d(2,3) assms(5)] assms(4) by (intro exI conjI) auto
qed

theorem huff_lookup_correct_witness:
  "\<exists>tab off os'. construct_dectable 3 [2, 1, 2] [1, 0, 3] [0, 0, 0] = Some (tab, off, os') \<and>
    huff_lookup tab off os' 5 3 = Some (Huff_Sym 0 2) \<and> huff_lookup tab off os' 1 1 = Some Huff_Data"
proof -
  have l: "\<forall>sy < 3. [2, 1, 2 :: nat] ! sy \<le> 15" by (auto simp: less_Suc_eq numeral_3_eq_3)
  have k: "kraft_sum 3 [2, 1, 2] \<le> 2 ^ 15" by (simp add: kraft_sum_def upt_rec)
  have m: "code_matches [2, 1, 2] [1, 0, 3] 0 (unat (5 :: u32))" "code_matches [2, 1, 2] [1, 0, 3] 0 (unat (1 :: u32))"
    by (simp_all add: code_matches_def)
  obtain tab off os' where t: "construct_dectable 3 [2, 1, 2] [1, 0, 3] [0, 0, 0] = Some (tab, off, os')"
    "\<forall>sy < 3. \<forall>bits num_bits. code_matches [2, 1, 2] [1, 0, 3] sy (unat bits) \<longrightarrow>
       huff_lookup tab off os' bits num_bits =
         Some (if num_bits < [2, 1, 2] ! sy then Huff_Data else Huff_Sym sy ([2, 1, 2] ! sy))"
    using huff_lookup_correct [OF l _ _ _ _ k, of "[0, 0, 0]" "[0, 0, 0]"] sample_codes(1) by auto
  then show ?thesis
    using t(2) [rule_format, OF _ m(1), of 3] t(2) [rule_format, OF _ m(2), of 1] by auto
qed

text \<open>C37: On 16 bits that start with no code the lookup never reports an error: it either takes 10 bits as
  symbol 0, or, when the first 11 bits begin an overlong code, runs past the end of the array of
  offsets.\<close>

theorem huff_lookup_unassigned:
  assumes "\<forall>sy < n. lengths ! sy \<le> 15" "n \<le> length lengths" "n \<le> length codes" "n \<le> length os" "n \<le> 512"
    and "construct_codes n lengths codes = Some codes'" "construct_dectable n lengths codes' os = Some (tab, off, os')"
    and "\<forall>sy < n. \<not> code_matches lengths codes' sy (unat bits)" "16 \<le> num_bits"
  shows "huff_lookup tab off os' bits num_bits =
    (if \<exists>sy < n. 12 \<le> lengths ! sy \<and> unat (codes' ! sy) mod 2048 = unat bits mod 2048 then None
     else Some (Huff_Sym 0 10))"
proof -
  have c: "codes_ok n lengths codes'"
    using construct_codes_ok [of n lengths codes] assms by (auto split: if_splits)
  then show ?thesis
    using huff_lookup_none [OF c, of tab os' bits num_bits] construct_dectable_ok [OF c assms(4)] assms by auto
qed

theorem huff_lookup_unassigned_witness:
  "\<exists>tab off os'. construct_dectable 2 [1, 0] [0, 0] [0, 0] = Some (tab, off, os') \<and>
    huff_lookup tab off os' 1 16 = Some (Huff_Sym 0 10)"
proof -
  have l: "\<forall>sy < 2. [1, 0 :: nat] ! sy \<le> 15" by (auto simp: less_Suc_eq numeral_2_eq_2)
  have "codes_ok 2 [1, 0] [0, 0]"
    using construct_codes_ok [of 2 "[1, 0]" "[0, 0]"] l sample_codes(2) by (auto split: if_splits)
  from construct_dectable_ok [OF this, of "[0, 0]"] obtain tab off os' where
    t: "construct_dectable 2 [1, 0] [0, 0] [0, 0] = Some (tab, off, os')" by auto
  have "huff_lookup tab off os' 1 16 = Some (Huff_Sym 0 10)"
    using huff_lookup_unassigned [OF l _ _ _ _ sample_codes(2) t, of 1 16]
    by (auto simp: code_matches_def less_Suc_eq numeral_2_eq_2 split: if_splits)
  then show ?thesis using t by blast
qed

end
