(* ===== verification/Inflate.thy ===== *)
theory Inflate
  imports Huffman
begin

text \<open>
  The gzip decompressor of compression/inflate.c: probe and init for the header, block\_start
  for block headers with the fixed and dynamic tables, raw\_block and huff\_block for the data and
  trailer for checksum and size.  Pointers are addresses, the 32-bit container of bits is a word
  with the number of valid bits beside it.  REFILL is the version with the unaligned load, which
  the target uses.  Messages are left out.
\<close>

section \<open>Container of bits\<close>

type_synonym bitbuf = "nat \<times> u32 \<times> nat"

function refill_loop :: "mem \<Rightarrow> nat \<Rightarrow> nat \<Rightarrow> u32 \<Rightarrow> nat \<Rightarrow> bitbuf option" where
  "refill_loop m end_ptr ptr bits num_bits =
    (if num_bits < 25 \<and> ptr < end_ptr then do {
       b \<leftarrow> load8 m ptr;
       refill_loop m end_ptr (ptr + 1) (bits OR push_bit num_bits (ucast b)) (num_bits + 8)
     } else Some (ptr, bits, num_bits))"
  by pat_completeness auto
termination
  by (relation "measure (\<lambda>(_, end_ptr, ptr, _, _). end_ptr - ptr)") auto

declare refill_loop.simps [simp del]

definition refill_bits :: "mem \<Rightarrow> nat \<Rightarrow> nat \<Rightarrow> u32 \<Rightarrow> nat \<Rightarrow> bitbuf option" where
  "refill_bits m end_ptr ptr bits num_bits =
    (let read_bytes = (32 - num_bits) div 8
     in if ptr = end_ptr then Some (ptr, bits, num_bits)
        else do {
          let read_bytes = (if read_bytes \<le> end_ptr - ptr then read_bytes else end_ptr - ptr);
          let num_bits = num_bits + 8 * read_bytes;
          let ptr = ptr + read_bytes;
          bits \<leftarrow> load_le 4 m (ptr - 4);
          Some (ptr, drop_bit (32 - num_bits) bits, num_bits)
        })"

section \<open>Code lengths of dynamic blocks\<close>

record huffman_state =
  h_ptr :: nat
  h_bits :: u32
  h_val :: nat
  h_num_bits :: nat

definition NO_ERROR :: nat where "NO_ERROR = 0"
definition ERR_OUT_OF_DATA :: nat where "ERR_OUT_OF_DATA = 1"
definition ERR_FIRST_REP :: nat where "ERR_FIRST_REP = 2"
definition ERR_REP_TOO_LONG :: nat where "ERR_REP_TOO_LONG = 3"
definition ERR_FILL_TOO_LONG :: nat where "ERR_FILL_TOO_LONG = 4"

definition out_of_data :: "huffman_state \<Rightarrow> huffman_state" where
  "out_of_data huff = huff\<lparr>h_ptr := 0, h_val := ERR_OUT_OF_DATA\<rparr>"

definition consume_byte :: "mem \<Rightarrow> huffman_state \<Rightarrow> huffman_state option" where
  "consume_byte m huff = do {
     b \<leftarrow> load8 m (h_ptr huff);
     Some (huff\<lparr>h_ptr := h_ptr huff + 1, h_bits := h_bits huff OR push_bit (h_num_bits huff) (ucast b),
       h_num_bits := h_num_bits huff + 8\<rparr>)
   }"

lemma consume_byte_ptr: "consume_byte m huff = Some huff' \<Longrightarrow> h_ptr huff' = Suc (h_ptr huff)"
  by (auto simp: consume_byte_def split: bind_splits)

definition shift_bits :: "nat \<Rightarrow> huffman_state \<Rightarrow> huffman_state" where
  "shift_bits n huff = huff\<lparr>h_bits := drop_bit n (h_bits huff), h_num_bits := h_num_bits huff - n\<rparr>"

text \<open>The first loop: bytes are taken until the code that the table sees is complete.\<close>

function code_loop :: "mem \<Rightarrow> nat \<Rightarrow> u16 list \<Rightarrow> huffman_state \<Rightarrow> (huffman_state + u16 \<times> huffman_state) option" where
  "code_loop m end_ptr dectable huff = do {
     val \<leftarrow> get_at (unat (h_bits huff AND 0x7ff)) dectable;
     if h_num_bits huff < unat (val AND 0xf) then
       (if end_ptr \<le> h_ptr huff then Some (Inl (out_of_data huff))
        else (case consume_byte m huff of None \<Rightarrow> None | Some huff \<Rightarrow> code_loop m end_ptr dectable huff))
     else Some (Inr (val, huff))
   }"
  by pat_completeness auto
termination
  by (relation "measure (\<lambda>(_, end_ptr, _, huff). end_ptr - h_ptr huff)") (auto dest: consume_byte_ptr)

declare code_loop.simps [simp del]

function extra_loop :: "mem \<Rightarrow> nat \<Rightarrow> nat \<Rightarrow> huffman_state \<Rightarrow> (huffman_state + huffman_state) option" where
  "extra_loop m end_ptr extra huff =
    (if h_num_bits huff < extra then
       (if end_ptr \<le> h_ptr huff then Some (Inl (out_of_data huff))
        else (case consume_byte m huff of None \<Rightarrow> None | Some huff \<Rightarrow> extra_loop m end_ptr extra huff))
     else Some (Inr huff))"
  by pat_completeness auto
termination
  by (relation "measure (\<lambda>(_, end_ptr, _, huff). end_ptr - h_ptr huff)") (auto dest: consume_byte_ptr)

declare extra_loop.simps [simp del]

text \<open>
  Both callers pass null pointers for the tables of overlong codes, so that a table entry above
  11 is an access through a null pointer.
\<close>

definition huff_with_extra :: "mem \<Rightarrow> nat \<Rightarrow> u16 list \<Rightarrow> nat list \<Rightarrow> nat list \<Rightarrow> huffman_state \<Rightarrow> huffman_state option" where
  "huff_with_extra m end_ptr dectable extra_bit_table baseline_table huff = do {
     r \<leftarrow> code_loop m end_ptr dectable huff;
     case r of
       Inl huff \<Rightarrow> Some huff
     | Inr (val, huff) \<Rightarrow> do {
         let len = unat (val AND 0xf);
         if 12 \<le> len then None
         else do {
           let huff = shift_bits len huff;
           let sy = unat (drop_bit 4 val);
           if sy < h_val huff then Some (huff\<lparr>h_val := sy\<rparr>)
           else do {
             let idx = sy - h_val huff;
             extra \<leftarrow> get_at idx extra_bit_table;
             base \<leftarrow> get_at idx baseline_table;
             r \<leftarrow> extra_loop m end_ptr extra huff;
             case r of
               Inl huff \<Rightarrow> Some huff
             | Inr huff \<Rightarrow>
                 Some (shift_bits extra (huff\<lparr>h_val := h_val huff + base + unat (take_bit extra (h_bits huff))\<rparr>))
           }
         }
       }
   }"

definition clength_extra :: "nat list" where "clength_extra = [2, 3, 7]"
definition clength_base :: "nat list" where "clength_base = [0, 4, 12]"
definition REP_BASE :: nat where "REP_BASE = 16"
definition FILL_BASE :: nat where "FILL_BASE = 20"

text \<open>lengths[sym] = lengths[sym - 1] for each sym from a to below b.\<close>

definition repeat_length :: "nat \<Rightarrow> nat \<Rightarrow> nat list \<Rightarrow> nat list option" where
  "repeat_length a b = mfold (\<lambda>sy lengths. do { l \<leftarrow> get_at (sy - 1) lengths; upd_at sy l lengths }) [a..<b]"

definition fill_zero :: "nat \<Rightarrow> nat \<Rightarrow> nat list \<Rightarrow> nat list option" where
  "fill_zero a b = mfold (\<lambda>sy. upd_at sy 0) [a..<b]"

function length_loop :: "mem \<Rightarrow> nat \<Rightarrow> u16 list \<Rightarrow> nat \<Rightarrow> nat \<Rightarrow> huffman_state \<Rightarrow> nat list \<Rightarrow>
    (huffman_state \<times> nat list) option" where
  "length_loop m end_ptr dectable num_symbols sy huff lengths =
    (if sy < num_symbols then
       (case huff_with_extra m end_ptr dectable clength_extra clength_base (huff\<lparr>h_val := REP_BASE\<rparr>) of
          None \<Rightarrow> None
        | Some huff \<Rightarrow>
            if h_ptr huff = 0 then Some (huff, lengths)
            else if h_val huff < REP_BASE then
              (case upd_at sy (h_val huff) lengths of
                 None \<Rightarrow> None
               | Some lengths \<Rightarrow> length_loop m end_ptr dectable num_symbols (sy + 1) huff lengths)
            else if h_val huff < FILL_BASE then
              (if sy = 0 then Some (huff\<lparr>h_val := ERR_FIRST_REP\<rparr>, lengths)
               else let e = sy + (h_val huff - REP_BASE + 3)
                    in if num_symbols < e then Some (huff\<lparr>h_val := ERR_REP_TOO_LONG\<rparr>, lengths)
                       else (case repeat_length sy e lengths of
                               None \<Rightarrow> None
                             | Some lengths \<Rightarrow> length_loop m end_ptr dectable num_symbols e huff lengths))
            else
              (let e = sy + (h_val huff - FILL_BASE + 3)
               in if num_symbols < e then Some (huff\<lparr>h_val := ERR_FILL_TOO_LONG\<rparr>, lengths)
                  else (case fill_zero sy e lengths of
                          None \<Rightarrow> None
                        | Some lengths \<Rightarrow> length_loop m end_ptr dectable num_symbols e huff lengths)))
     else Some (huff\<lparr>h_val := NO_ERROR\<rparr>, lengths))"
  by pat_completeness auto
termination
  by (relation "measure (\<lambda>(_, _, _, num_symbols, sy, _, _). num_symbols - sy)") auto

declare length_loop.simps [simp del]

definition decode_lengths :: "mem \<Rightarrow> nat \<Rightarrow> u16 list \<Rightarrow> huffman_state \<Rightarrow> nat list \<Rightarrow> (huffman_state \<times> nat list) option" where
  "decode_lengths m end_ptr dectable huff lengths =
    length_loop m end_ptr dectable (h_val huff) 0 huff lengths"

section \<open>State\<close>

definition lit_extra :: "nat list" where
  "lit_extra = [1, 1, 1, 1, 2, 2, 2, 2, 3, 3, 3, 3, 4, 4, 4, 4, 5, 5, 5, 5, 0]"

definition dist_extra :: "nat list" where
  "dist_extra = [1, 1, 2, 2, 3, 3, 4, 4, 5, 5, 6, 6, 7, 7, 8, 8, 9, 9, 10, 10, 11, 11, 12, 12, 13, 13]"

definition FTEXT :: u8 where "FTEXT = 1"
definition FHCRC :: u8 where "FHCRC = 2"
definition FEXTRA :: u8 where "FEXTRA = 4"
definition FNAME :: u8 where "FNAME = 8"
definition FCOMMENT :: u8 where "FCOMMENT = 16"
definition FRESERVED_MASK :: u8 where "FRESERVED_MASK = 0xe0"

datatype gzip_decode_ptr = Gzip_Null | Block_Start | Raw_Block | Huff_Block | Trailer

record gzip_dec_state = decompressor_state +
  g_decode :: gzip_decode_ptr
  g_crc_table :: "u32 list"
  g_crc :: u32
  g_isize :: u32
  skip_bits :: nat
  last_block :: bool
  lit_lengths :: "nat list"
  dist_lengths :: "nat list"
  lit_codes :: "u16 list"
  dist_codes :: "u16 list"
  lit_overlength :: "u32 list"
  dist_overlength :: "u32 list"
  lit_oloff :: "nat list"
  dist_oloff :: "nat list"
  lit_base :: "nat list"
  dist_base :: "nat list"
  dectable_dist :: "u16 list"
  dectable_lit :: "u16 list"

section \<open>Header\<close>

text \<open>strnlen; a null byte outside the mapped memory is a fault.\<close>

fun strnlen :: "mem \<Rightarrow> nat \<Rightarrow> nat \<Rightarrow> nat option" where
  "strnlen m s 0 = Some 0"
| "strnlen m s (Suc n) = do {
     c \<leftarrow> load8 m s;
     if c = 0 then Some 0 else do { k \<leftarrow> strnlen m (s + 1) n; Some (k + 1) }
   }"

definition probe_string :: "mem \<Rightarrow> nat \<Rightarrow> nat \<Rightarrow> nat option option" where
  "probe_string m content end_ptr = do {
     n \<leftarrow> strnlen m content (end_ptr - content);
     if end_ptr \<le> content + n then Some None else Some (Some (content + n + 1))
   }"

definition gzip_probe :: "mem \<Rightarrow> nat \<Rightarrow> nat \<Rightarrow> (compr_probe_status \<times> u64 option) option" where
  "gzip_probe m inp end_ptr =
    (if end_ptr - inp < 2 then Some (COMPR_PROBE_NOT_ENOUGH_DATA, None)
     else do {
       b0 \<leftarrow> load8 m inp;
       b1 \<leftarrow> load8 m (inp + 1);
       if b0 \<noteq> 31 \<or> b1 \<noteq> 139 then Some (COMPR_PROBE_WRONG_MAGIC, None)
       else if end_ptr - inp < 18 then Some (COMPR_PROBE_NOT_ENOUGH_DATA, None)
       else do {
         b2 \<leftarrow> load8 m (inp + 2);
         if b2 \<noteq> 8 then Some (COMPR_PROBE_RESERVED_FEATURE, None)
         else do {
           flags \<leftarrow> load8 m (inp + 3);
           let content = inp + 10;
           if flags AND FRESERVED_MASK \<noteq> 0 then Some (COMPR_PROBE_RESERVED_FEATURE, None)
           else do {
             c \<leftarrow> (if flags AND FEXTRA \<noteq> 0 then do {
                 extra \<leftarrow> load_le 2 m content;
                 let content = content + 2;
                 Some (if end_ptr < content + unat (extra :: u16) then None else Some (content + unat extra))
               } else Some (Some content));
             c \<leftarrow> (case c of
                 Some content \<Rightarrow> if flags AND FNAME \<noteq> 0 then probe_string m content end_ptr else Some (Some content)
               | None \<Rightarrow> Some None);
             c \<leftarrow> (case c of
                 Some content \<Rightarrow> if flags AND FCOMMENT \<noteq> 0 then probe_string m content end_ptr else Some (Some content)
               | None \<Rightarrow> Some None);
             Some (case c of
                 None \<Rightarrow> (COMPR_PROBE_NOT_ENOUGH_DATA, None)
               | Some content \<Rightarrow>
                   if flags AND FHCRC \<noteq> 0 \<and> end_ptr < content + 2 then (COMPR_PROBE_NOT_ENOUGH_DATA, None)
                   else (COMPR_PROBE_SIZE_UNKNOWN, None))
           }
         }
       }
     })"

fun run_base :: "nat \<Rightarrow> nat list \<Rightarrow> nat list" where
  "run_base base [] = []"
| "run_base base (e # es) = base # run_base (base + 2 ^ e) es"

text \<open>
  The skipping of a string in init.  When the pointer is already behind the end, the limit of
  strnlen is a negative number turned unsigned; the assertion behind it fails whatever is read.
\<close>

definition init_string :: "mem \<Rightarrow> nat \<Rightarrow> nat \<Rightarrow> nat option" where
  "init_string m content end_ptr =
    (if end_ptr < content then None
     else do {
       n \<leftarrow> strnlen m content (end_ptr - content);
       if content + n < end_ptr then Some (content + n + 1) else None
     })"

definition crc_bytes :: "u32 list \<Rightarrow> u32 \<Rightarrow> u8 list \<Rightarrow> u32" where
  "crc_bytes tab = foldl (crc_update tab)"

definition gzip_init :: "gzip_dec_state \<Rightarrow> mem \<Rightarrow> nat \<Rightarrow> nat \<Rightarrow> (nat option \<times> gzip_dec_state) option" where
  "gzip_init st m inp end_ptr =
    (if end_ptr < inp + 18 then None
     else do {
       let st = st\<lparr>g_crc_table := crc_table\<rparr>;
       flags \<leftarrow> load8 m (inp + 3);
       let content = inp + 10;
       content \<leftarrow> (if flags AND FEXTRA \<noteq> 0 then do {
           extra \<leftarrow> load_le 2 m content;
           let content = content + 2;
           if end_ptr \<le> content + unat (extra :: u16) then Some (content + unat extra) else None
         } else Some content);
       content \<leftarrow> (if flags AND FNAME \<noteq> 0 then init_string m content end_ptr else Some content);
       content \<leftarrow> (if flags AND FCOMMENT \<noteq> 0 then init_string m content end_ptr else Some content);
       content \<leftarrow> (if flags AND FHCRC \<noteq> 0 then
           (if end_ptr < content + 2 then Some None
            else do {
              hcrc \<leftarrow> load_le 2 m content;
              header \<leftarrow> load_bytes m inp (content - inp);
              let hcrc_comp = crc_bytes (g_crc_table st) 0xffffffff header;
              if (ucast hcrc_comp :: u16) = hcrc then Some (Some (content + 2)) else Some None
            })
         else Some (Some content));
       case content of
         None \<Rightarrow> Some (None, st)
       | Some content \<Rightarrow>
           if end_ptr \<le> content + 8 then Some (None, st)
           else Some (Some content, st\<lparr>lit_base := run_base 11 lit_extra, dist_base := run_base 5 dist_extra,
             skip_bits := 0, last_block := False, g_isize := 0, g_crc := 0xffffffff, g_decode := Block_Start\<rparr>)
     })"

section \<open>Trailer and stored blocks\<close>

definition trailer :: "gzip_dec_state \<Rightarrow> nat \<Rightarrow> nat \<Rightarrow> mem \<Rightarrow> (nat \<times> gzip_dec_state \<times> mem) option" where
  "trailer st in_start end_ptr m =
    (if end_ptr = in_start then Some (DECODE_NEED_MORE_DATA, st, m)
     else do {
       let inp = (if skip_bits st \<noteq> 0 then in_start + 1 else in_start);
       if end_ptr < inp + 8 then Some (DECODE_NEED_MORE_DATA, st, m)
       else do {
         crc_read \<leftarrow> load_le 4 m inp;
         let crc = g_crc st XOR 0xffffffff;
         if crc_read \<noteq> crc then Some (0, st, m)
         else do {
           isize \<leftarrow> load_le 4 m (inp + 4);
           if g_isize st \<noteq> isize then Some (0, st, m)
           else Some (NUM_DECODE_STATUS + (inp + 8 - in_start), st\<lparr>g_decode := Gzip_Null\<rparr>, m)
         }
       }
     })"

text \<open>The copy loop of raw\_block with the running checksum.\<close>

fun raw_copy :: "u32 list \<Rightarrow> nat \<Rightarrow> nat \<Rightarrow> nat \<Rightarrow> u32 \<Rightarrow> mem \<Rightarrow> (u32 \<times> mem) option" where
  "raw_copy tab 0 inp out crc m = Some (crc, m)"
| "raw_copy tab (Suc n) inp out crc m = do {
     c \<leftarrow> load8 m inp;
     m \<leftarrow> store_bytes m out [c];
     raw_copy tab n (inp + 1) (out + 1) (crc_update tab crc c) m
   }"

definition raw_block :: "gzip_dec_state \<Rightarrow> nat \<Rightarrow> nat \<Rightarrow> mem \<Rightarrow> (nat \<times> gzip_dec_state \<times> mem) option" where
  "raw_block st inp end_ptr m =
    (if end_ptr < inp + 4 then Some (DECODE_NEED_MORE_DATA, st, m)
     else do {
       len \<leftarrow> load_le 2 m inp;
       nlen \<leftarrow> load_le 2 m (inp + 2);
       if len XOR NOT nlen \<noteq> (0 :: u16) then Some (0, st, m)
       else do {
         let inp = inp + 4;
         if end_ptr < inp + unat len then Some (DECODE_NEED_MORE_DATA, st, m)
         else if d_out_end st < d_out st + unat len then Some (DECODE_NEED_MORE_SPACE, st, m)
         else do {
           (crc, m) \<leftarrow> raw_copy (g_crc_table st) (unat len) inp (d_out st) (g_crc st) m;
           Some (NUM_DECODE_STATUS + 4 + unat len,
             st\<lparr>g_decode := (if \<not> last_block st then Block_Start else Trailer), d_out := d_out st + unat len,
               g_crc := crc, g_isize := g_isize st + ucast len\<rparr>, m)
         }
       }
     })"

section \<open>Compressed blocks\<close>

text \<open>
  What a part of the decoding loop does: it goes on, jumps to the label interrupted with a status,
  or returns DECODE\_ERR at once.
\<close>

datatype 'a huff_res = Go 'a | Interrupted nat | Fail

definition huff_symbol :: "u16 list \<Rightarrow> nat list \<Rightarrow> u32 list \<Rightarrow> u32 \<Rightarrow> nat \<Rightarrow> (nat \<times> u32 \<times> nat) huff_res option" where
  "huff_symbol dectable oloff overlength bits num_bits = do {
     r \<leftarrow> huff_lookup dectable oloff overlength bits num_bits;
     Some (case r of
         Huff_Sym sy len \<Rightarrow> Go (sy, drop_bit len bits, num_bits - len)
       | Huff_Data \<Rightarrow> Interrupted DECODE_NEED_MORE_DATA
       | Huff_Err \<Rightarrow> Fail)
   }"

text \<open>The length of a match, and its distance.\<close>

definition match_length :: "gzip_dec_state \<Rightarrow> nat \<Rightarrow> u32 \<Rightarrow> nat \<Rightarrow> (nat \<times> u32 \<times> nat) huff_res option" where
  "match_length st lit bits num_bits =
    (let len = lit - 257 + 3
     in if 11 \<le> len then do {
          num_extra \<leftarrow> get_at (len - 11) lit_extra;
          base \<leftarrow> get_at (len - 11) (lit_base st);
          if num_bits < num_extra then Some (Interrupted DECODE_NEED_MORE_DATA)
          else Some (Go (base + unat (take_bit num_extra bits), drop_bit num_extra bits, num_bits - num_extra))
        } else Some (Go (len, bits, num_bits)))"

definition match_dist :: "gzip_dec_state \<Rightarrow> mem \<Rightarrow> nat \<Rightarrow> nat \<Rightarrow> nat \<Rightarrow> u32 \<Rightarrow> nat \<Rightarrow> (nat \<times> nat \<times> u32 \<times> nat) huff_res option" where
  "match_dist st m end_ptr sy ptr bits num_bits =
    (let dist = sy + 1
     in if 5 \<le> dist then do {
          num_extra \<leftarrow> get_at (dist - 5) dist_extra;
          base \<leftarrow> get_at (dist - 5) (dist_base st);
          (ptr, bits, num_bits) \<leftarrow> refill_bits m end_ptr ptr bits num_bits;
          if num_bits < num_extra then Some (Interrupted DECODE_NEED_MORE_DATA)
          else Some (Go (base + unat (take_bit num_extra bits), ptr, drop_bit num_extra bits, num_bits - num_extra))
        } else Some (Go (dist, ptr, bits, num_bits)))"

text \<open>The copy loop of a match; its length is at least 3.\<close>

fun huff_copy :: "u32 list \<Rightarrow> nat \<Rightarrow> nat \<Rightarrow> nat \<Rightarrow> u32 \<Rightarrow> mem \<Rightarrow> (nat \<times> u32 \<times> mem) option" where
  "huff_copy tab dist 0 out crc m = Some (out, crc, m)"
| "huff_copy tab dist (Suc n) out crc m = do {
     c \<leftarrow> load8 m (out - dist);
     m \<leftarrow> store_bytes m out [c];
     huff_copy tab dist n (out + 1) (crc_update tab crc c) m
   }"

text \<open>The loop state: input pointer, container, number of bits, output pointer, checksum, memory.\<close>

type_synonym huff_loop = "nat \<times> u32 \<times> nat \<times> nat \<times> u32 \<times> mem"

text \<open>A match, after its length has been decoded.\<close>

definition huff_match :: "gzip_dec_state \<Rightarrow> nat \<Rightarrow> nat \<Rightarrow> huff_loop \<Rightarrow> huff_loop huff_res option" where
  "huff_match st end_ptr len = (\<lambda>(ptr, bits, num_bits, out, crc, m). do {
     (ptr, bits, num_bits) \<leftarrow> refill_bits m end_ptr ptr bits num_bits;
     r \<leftarrow> huff_symbol (dectable_dist st) (dist_oloff st) (dist_overlength st) bits num_bits;
     case r of
       Interrupted res \<Rightarrow> Some (Interrupted res)
     | Fail \<Rightarrow> Some Fail
     | Go (sy, bits, num_bits) \<Rightarrow> do {
         r \<leftarrow> match_dist st m end_ptr sy ptr bits num_bits;
         case r of
           Interrupted res \<Rightarrow> Some (Interrupted res)
         | Fail \<Rightarrow> Some Fail
         | Go (dist, ptr, bits, num_bits) \<Rightarrow>
             if out < d_window_start st + dist then Some Fail
             else if len = 258 then Some Fail
             else do {
               let len = (if 258 \<le> len then 258 else len);
               if d_out_end st < out + len then Some (Interrupted DECODE_NEED_MORE_SPACE)
               else do {
                 (out, crc, m) \<leftarrow> huff_copy (g_crc_table st) dist len out crc m;
                 Some (Go (ptr, bits, num_bits, out, crc, m))
               }
             }
       }
   })"

text \<open>
  One round of the loop.  The end of the loop carries the status of an interruption, or None for
  the end of the block, and the loop state; after an interruption the input is that at the
  beginning of the round.
\<close>

datatype huff_exit = Huff_Return mem | Huff_Exit "nat option" huff_loop

definition huff_round :: "gzip_dec_state \<Rightarrow> nat \<Rightarrow> huff_loop \<Rightarrow> (huff_loop + huff_exit) option" where
  "huff_round st end_ptr = (\<lambda>(ptr, bits, num_bits, out, crc, m). do {
     let stop = (\<lambda>res. Some (Inr (Huff_Exit (Some res) (ptr, bits, num_bits, out, crc, m))));
     let next = (\<lambda>(ptr, bits, num_bits, out, crc, m). do {
       (ptr, bits, num_bits) \<leftarrow> refill_bits m end_ptr ptr bits num_bits;
       Some (Inl (ptr, bits, num_bits, out, crc, m))
     });
     r \<leftarrow> huff_symbol (dectable_lit st) (lit_oloff st) (lit_overlength st) bits num_bits;
     case r of
       Interrupted res \<Rightarrow> stop res
     | Fail \<Rightarrow> Some (Inr (Huff_Return m))
     | Go (lit, bits, num_bits) \<Rightarrow>
         if lit < 256 then
           (if d_out_end st \<le> out then stop DECODE_NEED_MORE_SPACE
            else do {
              m \<leftarrow> store_bytes m out [of_nat lit];
              next (ptr, bits, num_bits, out + 1, crc_update (g_crc_table st) crc (of_nat lit), m)
            })
         else if 256 < lit then do {
           r \<leftarrow> match_length st lit bits num_bits;
           case r of
             Interrupted res \<Rightarrow> stop res
           | Fail \<Rightarrow> Some (Inr (Huff_Return m))
           | Go (len, bits, num_bits) \<Rightarrow> do {
               r \<leftarrow> huff_match st end_ptr len (ptr, bits, num_bits, out, crc, m);
               case r of
                 Interrupted res \<Rightarrow> stop res
               | Fail \<Rightarrow> Some (Inr (Huff_Return m))
               | Go s \<Rightarrow> next s
             }
         }
         else Some (Inr (Huff_Exit None (ptr, bits, num_bits, out, crc, m)))
   })"

definition bits_to_skip :: "nat \<Rightarrow> nat" where
  "bits_to_skip num_bits = (2 ^ 32 + 8 - num_bits) mod 8"

definition huff_block :: "gzip_dec_state \<Rightarrow> nat \<Rightarrow> nat \<Rightarrow> mem \<Rightarrow> (nat \<times> gzip_dec_state \<times> mem) option" where
  "huff_block st inp end_ptr m =
    (if end_ptr < inp + 4 then Some (DECODE_NEED_MORE_DATA, st, m)
     else do {
       (ptr, bits, num_bits) \<leftarrow> refill_loop m end_ptr inp 0 0;
       r \<leftarrow> iterate (huff_round st end_ptr)
         (ptr, drop_bit (skip_bits st) bits, num_bits - skip_bits st, d_out st, g_crc st, m);
       case r of
         Huff_Return m \<Rightarrow> Some (0, st, m)
       | Huff_Exit status (ptr, bits, num_bits, out, crc, m) \<Rightarrow> do {
           let consumed = NUM_DECODE_STATUS + (ptr - inp - (num_bits + 7) div 8);
           let res = (case status of
               None \<Rightarrow> consumed
             | Some res \<Rightarrow> if d_out st < out then consumed else res);
           let st = (if status = None then st\<lparr>g_decode := (if \<not> last_block st then Block_Start else Trailer)\<rparr> else st);
           let st = st\<lparr>skip_bits := bits_to_skip num_bits, g_isize := g_isize st + of_nat (out - d_out st), d_out := out, g_crc := crc\<rparr>;
           Some (res, if 32768 < out - d_window_start st then st\<lparr>d_window_start := out - 32768\<rparr> else st, m)
         }
     })"

section \<open>Block headers\<close>

definition bitrev_nibble :: "nat list" where
  "bitrev_nibble = [0x0, 0x8, 0x4, 0xc, 0x2, 0xa, 0x6, 0xe, 0x1, 0x9, 0x5, 0xd, 0x3, 0xb, 0x7, 0xf]"

text \<open>Entries of the tables for fixed codes; i has 9 respectively 5 significant bits.\<close>

definition fixed_lit_rev :: "nat \<Rightarrow> u16" where
  "fixed_lit_rev i = of_nat (push_bit 8 i AND 0x100 OR push_bit 4 (bitrev_nibble ! (drop_bit 1 i AND 15)) OR
     bitrev_nibble ! (drop_bit 5 i AND 15))"

definition fixed_lit_val :: "u16 \<Rightarrow> u16" where
  "fixed_lit_val rv =
    (if rv < 0x5f then push_bit 4 (drop_bit 2 rv + 256) OR 7
     else if rv < 0x17f then push_bit 4 (drop_bit 1 rv - 0x30) OR 8
     else if rv < 0x18b then push_bit 4 (drop_bit 1 rv - 0xc0 + 280) OR 8
     else if rv < 0x18f then 10
     else push_bit 4 (rv - 0x190 + 144) OR 9)"

definition fixed_dist_rev :: "nat \<Rightarrow> u16" where
  "fixed_dist_rev i = of_nat (push_bit 4 i AND 0x10 OR bitrev_nibble ! (drop_bit 1 i AND 15))"

definition fixed_dist_val :: "u16 \<Rightarrow> u16" where
  "fixed_dist_val rv = (if rv < 30 then push_bit 4 rv OR 5 else 10)"

definition fixed_lit_table :: "u16 list" where
  "fixed_lit_table = concat (replicate 4 (map (\<lambda>i. fixed_lit_val (fixed_lit_rev i)) [0..<512]))"

definition fixed_dist_table :: "u16 list" where
  "fixed_dist_table = concat (replicate 4 (map (\<lambda>i. fixed_dist_val (fixed_dist_rev i)) [0..<512]))"

definition fixed_block :: "gzip_dec_state \<Rightarrow> gzip_dec_state option" where
  "fixed_block st =
    (if fixed_lit_table ! 0 = 0x1007 \<and> fixed_lit_table ! 0xc = 0x8 \<and> fixed_lit_table ! 3 = push_bit 4 280 OR 8 \<and>
        fixed_lit_table ! 0x13 = 0x909
     then Some (st\<lparr>dectable_lit := fixed_lit_table, lit_oloff := [0, 0, 0, 0, 0],
       dectable_dist := fixed_dist_table, dist_oloff := [0, 0, 0, 0, 0]\<rparr>)
     else None)"

definition hclen_order :: "nat list" where
  "hclen_order = [16, 17, 18, 0, 8, 7, 9, 6, 10, 5, 11, 4, 12, 3, 13, 2, 14, 1, 15]"

text \<open>The lengths of the length codes, None when the input ends.\<close>

fun clen_loop :: "mem \<Rightarrow> nat \<Rightarrow> nat list \<Rightarrow> bitbuf \<Rightarrow> nat list \<Rightarrow> (bitbuf \<times> nat list) option option" where
  "clen_loop m end_ptr [] buf lengths2 = Some (Some (buf, lengths2))"
| "clen_loop m end_ptr (sy # is) (ptr, bits, num_bits) lengths2 = do {
     (ptr, bits, num_bits) \<leftarrow> refill_bits m end_ptr ptr bits num_bits;
     if num_bits < 3 then Some None
     else do {
       lengths2 \<leftarrow> upd_at sy (unat (bits AND 7)) lengths2;
       clen_loop m end_ptr is (ptr, drop_bit 3 bits, num_bits - 3) lengths2
     }
   }"

text \<open>The tables of a dynamic block from its code lengths.\<close>

definition dynamic_tables :: "gzip_dec_state \<Rightarrow> gzip_dec_state option" where
  "dynamic_tables st = do {
     codes \<leftarrow> construct_codes 286 (lit_lengths st) (lit_codes st);
     let st = st\<lparr>lit_codes := codes\<rparr>;
     (tab, oloff, ol) \<leftarrow> construct_dectable 286 (lit_lengths st) (lit_codes st) (lit_overlength st);
     let st = st\<lparr>dectable_lit := tab, lit_oloff := oloff, lit_overlength := ol\<rparr>;
     codes \<leftarrow> construct_codes 30 (dist_lengths st) (dist_codes st);
     let st = st\<lparr>dist_codes := codes\<rparr>;
     (tab, oloff, ol) \<leftarrow> construct_dectable 30 (dist_lengths st) (dist_codes st) (dist_overlength st);
     Some (st\<lparr>dectable_dist := tab, dist_oloff := oloff, dist_overlength := ol\<rparr>)
   }"

text \<open>
  A dynamic block: None when the function is left with a status, which is the first component;
  otherwise the input behind the code lengths.
\<close>

definition dynamic_block :: "gzip_dec_state \<Rightarrow> mem \<Rightarrow> nat \<Rightarrow> bitbuf \<Rightarrow> (nat \<times> bitbuf option \<times> gzip_dec_state) option" where
  "dynamic_block st m end_ptr = (\<lambda>(ptr, bits, num_bits). do {
     (ptr, bits, num_bits) \<leftarrow> refill_bits m end_ptr ptr bits num_bits;
     if num_bits < 14 then Some (DECODE_NEED_MORE_DATA, None, st)
     else do {
       let hlit = unat (bits AND 31) + 257;
       let hdist = unat (drop_bit 5 bits AND 31) + 1;
       let hclen = unat (drop_bit 10 bits AND 15) + 4;
       if 286 < hlit then Some (0, None, st)
       else if 30 < hdist then Some (0, None, st)
       else do {
         r \<leftarrow> clen_loop m end_ptr (take hclen hclen_order) (ptr, drop_bit 14 bits, num_bits - 14) (replicate 19 0);
         case r of
           None \<Rightarrow> Some (DECODE_NEED_MORE_DATA, None, st)
         | Some ((ptr, bits, num_bits), lengths2) \<Rightarrow> do {
             length_codes \<leftarrow> construct_codes 19 lengths2 (replicate 19 0);
             (tab, oloff, ol) \<leftarrow> construct_dectable 19 lengths2 length_codes (dist_overlength st);
             let st = st\<lparr>dectable_dist := tab, dist_oloff := oloff, dist_overlength := ol\<rparr>;
             let huff = \<lparr>h_ptr = ptr, h_bits = bits, h_val = hlit, h_num_bits = num_bits\<rparr>;
             (huff, ls) \<leftarrow> decode_lengths m end_ptr (dectable_dist st) huff (lit_lengths st);
             let st = st\<lparr>lit_lengths := ls\<rparr>;
             if h_ptr huff = 0 then Some (DECODE_NEED_MORE_DATA, None, st)
             else if h_val huff \<noteq> NO_ERROR then Some (0, None, st)
             else do {
               ls \<leftarrow> fill_zero hlit 286 (lit_lengths st);
               let st = st\<lparr>lit_lengths := ls\<rparr>;
               (huff, ls) \<leftarrow> decode_lengths m end_ptr (dectable_dist st) (huff\<lparr>h_val := hdist\<rparr>) (dist_lengths st);
               let st = st\<lparr>dist_lengths := ls\<rparr>;
               if h_ptr huff = 0 then Some (DECODE_NEED_MORE_DATA, None, st)
               else if h_val huff \<noteq> NO_ERROR then Some (0, None, st)
               else do {
                 ls \<leftarrow> fill_zero hdist 30 (dist_lengths st);
                 st \<leftarrow> dynamic_tables (st\<lparr>dist_lengths := ls\<rparr>);
                 Some (0, Some (h_ptr huff, h_bits huff, h_num_bits huff), st)
               }
             }
           }
       }
     }
   })"

definition block_start :: "gzip_dec_state \<Rightarrow> nat \<Rightarrow> nat \<Rightarrow> mem \<Rightarrow> (nat \<times> gzip_dec_state \<times> mem) option" where
  "block_start st inp end_ptr m =
    (if end_ptr < inp + 4 then Some (DECODE_NEED_MORE_DATA, st, m)
     else do {
       (ptr, bits, num_bits) \<leftarrow> refill_loop m end_ptr inp 0 0;
       let bits = drop_bit (skip_bits st) bits;
       let num_bits = num_bits - skip_bits st;
       if num_bits < 3 then Some (DECODE_NEED_MORE_DATA, st, m)
       else do {
         let block_header = unat (bits AND 7);
         let bits = drop_bit 3 bits;
         let num_bits = num_bits - 3;
         let st = st\<lparr>last_block := odd block_header\<rparr>;
         if block_header div 2 = 0 then
           Some (NUM_DECODE_STATUS + (ptr - inp - num_bits div 8), st\<lparr>g_decode := Raw_Block, skip_bits := 0\<rparr>, m)
         else if 2 < block_header div 2 then Some (0, st, m)
         else do {
           (res, buf, st) \<leftarrow> (if block_header div 2 = 2 then dynamic_block st m end_ptr (ptr, bits, num_bits)
             else do { st \<leftarrow> fixed_block st; Some (0, Some (ptr, bits, num_bits), st) });
           case buf of
             None \<Rightarrow> Some (res, st, m)
           | Some (ptr, bits, num_bits) \<Rightarrow>
               Some (NUM_DECODE_STATUS + (ptr - inp - (num_bits + 7) div 8),
                 st\<lparr>g_decode := Huff_Block, skip_bits := bits_to_skip num_bits\<rparr>, m)
         }
       }
     })"

text \<open>The call through the decode pointer.\<close>

definition gzip_decode :: "gzip_dec_state \<Rightarrow> nat \<Rightarrow> nat \<Rightarrow> mem \<Rightarrow> (nat \<times> gzip_dec_state \<times> mem) option" where
  "gzip_decode st inp end_ptr m =
    (case g_decode st of
       Gzip_Null \<Rightarrow> None
     | Block_Start \<Rightarrow> block_start st inp end_ptr m
     | Raw_Block \<Rightarrow> raw_block st inp end_ptr m
     | Huff_Block \<Rightarrow> huff_block st inp end_ptr m
     | Trailer \<Rightarrow> trailer st inp end_ptr m)"

definition gzip_null :: "gzip_dec_state \<Rightarrow> bool" where
  "gzip_null st \<longleftrightarrow> g_decode st = Gzip_Null"

end
