(* ===== verification/Inflate_Bits.thy ===== *)
theory Inflate_Bits
  imports Inflate
begin

text \<open>
  The container of bits of compression/inflate.c as a window into the input: it holds the bits of
  the stream that end at the input pointer.  Refilling keeps that, in both versions of the macro,
  which are shown to be equivalent; taking bits off moves the window.
\<close>

section \<open>The window\<close>

text \<open>The bit of the input at the bit position p.\<close>

definition sbit :: "mem \<Rightarrow> nat \<Rightarrow> bool" where
  "sbit m p = bit (the (m (p div 8))) (p mod 8)"

definition window :: "mem \<Rightarrow> nat \<Rightarrow> u32 \<Rightarrow> nat \<Rightarrow> bool" where
  "window m ptr bits n \<longleftrightarrow> n \<le> 32 \<and> n \<le> 8 * ptr \<and> (\<forall>i. bit bits i \<longleftrightarrow> i < n \<and> sbit m (8 * ptr - n + i))"

text \<open>The position of the next bit.\<close>

definition bitpos :: "nat \<Rightarrow> nat \<Rightarrow> nat" where
  "bitpos ptr n = 8 * ptr - n"

lemma window_unique: "window m ptr bits n \<Longrightarrow> window m ptr bits' n \<Longrightarrow> bits = bits'"
  by (rule bit_word_eqI) (simp add: window_def)

lemma window_0: "window m ptr 0 0"
  by (simp add: window_def)

lemma windowI:
  "n \<le> 32 \<Longrightarrow> n \<le> 8 * ptr \<Longrightarrow> (\<And>i. bit bits i \<longleftrightarrow> i < n \<and> sbit m (8 * ptr - n + i)) \<Longrightarrow> window m ptr bits n"
  by (simp add: window_def)

lemma window_bit: "window m ptr bits n \<Longrightarrow> bit bits i \<longleftrightarrow> i < n \<and> sbit m (8 * ptr - n + i)"
  by (simp add: window_def)

lemma window_drop:
  assumes "window m ptr bits n" "k \<le> n"
  shows "window m ptr (drop_bit k bits) (n - k)"
proof -
  have n: "n \<le> 32" "n \<le> 8 * ptr" using assms(1) by (simp_all add: window_def)
  have "bit (drop_bit k bits) i \<longleftrightarrow> i < n - k \<and> sbit m (8 * ptr - (n - k) + i)" for i
  proof -
    have e: "8 * ptr - (n - k) + i = 8 * ptr - n + (k + i)" using n assms(2) by linarith
    have "bit (drop_bit k bits) i \<longleftrightarrow> bit bits (k + i)" by (simp add: bit_drop_bit_eq)
    also have "\<dots> \<longleftrightarrow> k + i < n \<and> sbit m (8 * ptr - n + (k + i))" by (rule window_bit [OF assms(1)])
    also have "k + i < n \<longleftrightarrow> i < n - k" by linarith
    finally show ?thesis unfolding e .
  qed
  then show ?thesis by (rule windowI [rotated 2]) (use n in simp_all)
qed

lemma window_byte:
  assumes "window m ptr bits n" "n \<le> 24" "m ptr = Some b"
  shows "window m (ptr + 1) (bits OR push_bit n (ucast b)) (n + 8)"
proof -
  have n: "n \<le> 8 * ptr" using assms(1) by (simp add: window_def)
  have "bit (bits OR push_bit n (ucast b)) i \<longleftrightarrow> i < n + 8 \<and> sbit m (8 * (ptr + 1) - (n + 8) + i)" for i
  proof (cases "i < n")
    case True
    then show ?thesis
      using window_bit [OF assms(1), of i] by (simp add: bit_or_iff bit_push_bit_iff)
  next
    case False
    then obtain j where j: "i = n + j" using le_Suc_ex not_less by blast
    have "\<not> bit bits i" using window_bit [OF assms(1), of i] False by simp
    then have "bit (bits OR push_bit n (ucast b)) i \<longleftrightarrow> bit b j"
      using j assms(2) bit_imp_le_length [of b j] by (auto simp: bit_or_iff bit_push_bit_iff bit_ucast_iff)
    also have "\<dots> \<longleftrightarrow> j < 8 \<and> sbit m (8 * ptr + j)"
      using assms(3) bit_imp_le_length [of b j] by (cases "j < 8") (auto simp: sbit_def)
    also have "8 * ptr + j = 8 * (ptr + 1) - (n + 8) + i" using n j by simp
    also have "j < 8 \<longleftrightarrow> i < n + 8" using j by simp
    finally show ?thesis .
  qed
  then show ?thesis by (rule windowI [rotated 2]) (use n assms(2) in simp_all)
qed

section \<open>Refilling\<close>

text \<open>The number of bytes read by a refill.\<close>

definition refill_bytes :: "nat \<Rightarrow> nat \<Rightarrow> nat \<Rightarrow> nat" where
  "refill_bytes end_ptr ptr n = min ((32 - n) div 8) (end_ptr - ptr)"

lemma refill_loop_window:
  assumes "window m ptr bits n" "ptr \<le> end_ptr" "mapped m ptr (end_ptr - ptr)"
  shows "\<exists>bits'. refill_loop m end_ptr ptr bits n =
      Some (ptr + refill_bytes end_ptr ptr n, bits', n + 8 * refill_bytes end_ptr ptr n) \<and>
    window m (ptr + refill_bytes end_ptr ptr n) bits' (n + 8 * refill_bytes end_ptr ptr n)"
  using assms
proof (induction m end_ptr ptr bits n rule: refill_loop.induct)
  case (1 m end_ptr ptr bits n)
  show ?case
  proof (cases "n < 25 \<and> ptr < end_ptr")
    case True
    obtain b where b: "m ptr = Some b" using mappedD [OF 1(4), of ptr] True by auto
    have k: "refill_bytes end_ptr ptr n = Suc (refill_bytes end_ptr (ptr + 1) (n + 8))"
    proof -
      have e: "32 - n = (32 - (n + 8)) + 8" using True by linarith
      have "(32 - n) div 8 = Suc ((32 - (n + 8)) div 8)" by (subst e) simp
      moreover have "end_ptr - ptr = Suc (end_ptr - (ptr + 1))" using True by auto
      ultimately show ?thesis by (simp add: refill_bytes_def)
    qed
    have "\<exists>bits'. refill_loop m end_ptr (ptr + 1) (bits OR push_bit n (ucast b)) (n + 8) =
      Some (ptr + 1 + refill_bytes end_ptr (ptr + 1) (n + 8), bits', n + 8 + 8 * refill_bytes end_ptr (ptr + 1) (n + 8)) \<and>
      window m (ptr + 1 + refill_bytes end_ptr (ptr + 1) (n + 8)) bits' (n + 8 + 8 * refill_bytes end_ptr (ptr + 1) (n + 8))"
      using window_byte [OF 1(2) _ b] True 1(4) b by (intro 1(1)) (auto intro: mapped_sub simp: load8_def)
    moreover have "refill_loop m end_ptr ptr bits n = refill_loop m end_ptr (ptr + 1) (bits OR push_bit n (ucast b)) (n + 8)"
      using True b by (subst refill_loop.simps) (simp add: load8_def)
    ultimately show ?thesis using k by (simp add: ac_simps)
  next
    case False
    then have "refill_bytes end_ptr ptr n = 0" by (auto simp: refill_bytes_def)
    then show ?thesis using False 1(2) by (subst refill_loop.simps) auto
  qed
qed

lemma load_window:
  assumes "4 \<le> ptr" "n \<le> 32" "mapped m (ptr - 4) 4"
  shows "\<exists>w. load_le 4 m (ptr - 4) = Some w \<and> window m ptr (drop_bit (32 - n) w) n"
proof -
  let ?bs = "bytes_at m (ptr - 4) 4"
  have ld: "load_le 4 m (ptr - 4) = Some (le_word ?bs :: u32)"
    using assms(3) by (simp add: load_le_def mem_simps)
  have "bit (le_word ?bs :: u32) i \<longleftrightarrow> i < 32 \<and> sbit m (8 * ptr - 32 + i)" for i
  proof (cases "i < 32")
    case True
    then have "i div 8 < 4" by simp
    moreover have "8 * ptr - 32 + i = 8 * (ptr - 4) + i" using assms(1) by simp
    then have "(8 * ptr - 32 + i) div 8 = ptr - 4 + i div 8" "(8 * ptr - 32 + i) mod 8 = i mod 8"
      by (simp_all only: div_mult_self2 mod_mult_self4)
    ultimately show ?thesis using True by (simp add: bit_le_word sbit_def)
  qed (auto simp: bit_le_word)
  then have "window m ptr (le_word ?bs) 32" using assms(1) by (simp add: window_def)
  from window_drop [OF this, of "32 - n"] show ?thesis using ld assms(2) by simp
qed

text \<open>The version of the target does the same as the loop.\<close>

lemma refill_eq_loop:
  assumes "window m ptr bits n" "ptr \<le> end_ptr" "mapped m ptr (end_ptr - ptr)"
    and "4 \<le> ptr" "mapped m (ptr - 4) 4"
  shows "refill_bits m end_ptr ptr bits n = refill_loop m end_ptr ptr bits n"
proof -
  let ?k = "refill_bytes end_ptr ptr n"
  obtain bits' where l: "refill_loop m end_ptr ptr bits n = Some (ptr + ?k, bits', n + 8 * ?k)"
    "window m (ptr + ?k) bits' (n + 8 * ?k)"
    using refill_loop_window [OF assms(1-3)] by blast
  show ?thesis
  proof (cases "ptr = end_ptr")
    case True
    then show ?thesis by (subst refill_loop.simps) (simp add: refill_bits_def)
  next
    case False
    have n: "n + 8 * ?k \<le> 32" using l(2) by (simp add: window_def)
    have "mapped m (ptr + ?k - 4) 4"
      unfolding mapped_def
    proof
      fix x assume "x \<in> {ptr + ?k - 4..<ptr + ?k - 4 + 4}"
      moreover have "?k \<le> end_ptr - ptr" by (simp add: refill_bytes_def)
      ultimately show "m x \<noteq> None"
        using mappedD [OF assms(3), of x] mappedD [OF assms(5), of x] assms(4) by (cases "ptr \<le> x") auto
    qed
    then obtain w where w: "load_le 4 m (ptr + ?k - 4) = Some w" "window m (ptr + ?k) (drop_bit (32 - (n + 8 * ?k)) w) (n + 8 * ?k)"
      using load_window [of "ptr + ?k" "n + 8 * ?k" m] n assms(4) by auto
    have "(if (32 - n) div 8 \<le> end_ptr - ptr then (32 - n) div 8 else end_ptr - ptr) = ?k"
      by (simp add: refill_bytes_def)
    then show ?thesis
      using False l(1) w(1) window_unique [OF l(2) w(2)] by (simp add: refill_bits_def Let_def)
  qed
qed

lemma refill_window:
  assumes "window m ptr bits n" "ptr \<le> end_ptr" "mapped m ptr (end_ptr - ptr)" "4 \<le> ptr" "mapped m (ptr - 4) 4"
  shows "\<exists>ptr' bits' n'. refill_bits m end_ptr ptr bits n = Some (ptr', bits', n') \<and> window m ptr' bits' n' \<and>
      8 * ptr' - n' = 8 * ptr - n \<and> ptr \<le> ptr' \<and> ptr' \<le> end_ptr \<and> (25 \<le> n' \<or> ptr' = end_ptr)"
proof -
  let ?k = "refill_bytes end_ptr ptr n"
  obtain bits' where l: "refill_loop m end_ptr ptr bits n = Some (ptr + ?k, bits', n + 8 * ?k)" "window m (ptr + ?k) bits' (n + 8 * ?k)"
    using refill_loop_window [OF assms(1-3)] by blast
  have "25 \<le> n + 8 * ?k \<or> ptr + ?k = end_ptr"
  proof (cases "(32 - n) div 8 \<le> end_ptr - ptr")
    case True
    then have "?k = (32 - n) div 8" by (simp add: refill_bytes_def)
    moreover have "32 - n < 8 * ((32 - n) div 8) + 8" by simp
    ultimately show ?thesis by linarith
  qed (use assms(2) in \<open>simp add: refill_bytes_def\<close>)
  moreover have "ptr + ?k \<le> end_ptr" "8 * (ptr + ?k) - (n + 8 * ?k) = 8 * ptr - n"
    using assms(2) by (simp_all add: refill_bytes_def)
  ultimately show ?thesis using l refill_eq_loop [OF assms] by auto
qed

text \<open>C29: The two versions of REFILL are equivalent: on a container that holds the bits before the input pointer, the
  version with one unaligned load does exactly what the byte loop does, and afterwards the container holds the
  same bits and at least 25 of them unless the input is used up.\<close>

theorem refill_equivalent:
  assumes "window m ptr bits n" "ptr \<le> end_ptr" "mapped m ptr (end_ptr - ptr)" "4 \<le> ptr" "mapped m (ptr - 4) 4"
  shows "refill_bits m end_ptr ptr bits n = refill_loop m end_ptr ptr bits n \<and>
    (\<exists>ptr' bits' n'. refill_bits m end_ptr ptr bits n = Some (ptr', bits', n') \<and> window m ptr' bits' n' \<and>
       8 * ptr' - n' = 8 * ptr - n \<and> ptr \<le> ptr' \<and> ptr' \<le> end_ptr \<and> (25 \<le> n' \<or> ptr' = end_ptr))"
  using refill_eq_loop [OF assms] refill_window [OF assms] by blast

definition ramp_input :: mem where
  "ramp_input = (\<lambda>x. if x < 64 then Some (of_nat x) else None)"

theorem refill_equivalent_witness:
  "refill_bits ramp_input 40 20 0 0 = refill_loop ramp_input 40 20 0 0 \<and> (\<exists>ptr bits n. refill_bits ramp_input 40 20 0 0 = Some (ptr, bits, n) \<and> 25 \<le> n)"
proof -
  have mp: "mapped ramp_input 20 (40 - 20)" "mapped ramp_input (20 - 4) 4"
    by (auto simp: mapped_def ramp_input_def)
  have "refill_loop ramp_input 40 20 0 0 = Some (ptr, bits, n) \<Longrightarrow> n = 32" for ptr bits n
    using refill_loop_window [OF window_0 _ mp(1)] by (auto simp: refill_bytes_def)
  then show ?thesis
    using refill_equivalent [OF window_0 _ mp(1) _ mp(2)] by fastforce
qed

end
