(* ===== verification/Inflate_Block.thy ===== *)
theory Inflate_Block
  imports Inflate_Bits
begin

text \<open>
  Decoding of a compressed block, huff\_block of compression/inflate.c, against the format of
  RFC 1951: a block is the sequence of the codes of its symbols with their extra bits, and its
  output is the expansion of the literals and matches.
\<close>

section \<open>The format\<close>

definition bits_at :: "mem \<Rightarrow> nat \<Rightarrow> bool list \<Rightarrow> bool" where
  "bits_at m p bs \<longleftrightarrow> (\<forall>i < length bs. sbit m (p + i) = bs ! i)"

definition code_bits :: "nat list \<Rightarrow> u16 list \<Rightarrow> nat \<Rightarrow> bool list" where
  "code_bits lengths codes sy = map (bit (codes ! sy)) [0..<lengths ! sy]"

definition val_bits :: "nat \<Rightarrow> nat \<Rightarrow> bool list" where
  "val_bits k v = map (bit v) [0..<k]"

text \<open>The tables of section 3.2.5 of the RFC, from symbol 257 and distance symbol 0 on.\<close>

definition rfc_len_base :: "nat list" where
  "rfc_len_base = [3, 4, 5, 6, 7, 8, 9, 10, 11, 13, 15, 17, 19, 23, 27, 31, 35, 43, 51, 59, 67, 83, 99, 115, 131, 163, 195, 227, 258]"

definition rfc_len_extra :: "nat list" where
  "rfc_len_extra = [0, 0, 0, 0, 0, 0, 0, 0, 1, 1, 1, 1, 2, 2, 2, 2, 3, 3, 3, 3, 4, 4, 4, 4, 5, 5, 5, 5, 0]"

definition rfc_dist_base :: "nat list" where
  "rfc_dist_base = [1, 2, 3, 4, 5, 7, 9, 13, 17, 25, 33, 49, 65, 97, 129, 193, 257, 385, 513, 769, 1025, 1537, 2049, 3073, 4097, 6145, 8193, 12289, 16385, 24577]"

definition rfc_dist_extra :: "nat list" where
  "rfc_dist_extra = [0, 0, 0, 0, 1, 1, 2, 2, 3, 3, 4, 4, 5, 5, 6, 6, 7, 7, 8, 8, 9, 9, 10, 10, 11, 11, 12, 12, 13, 13]"

text \<open>A literal, or a match given by length symbol, distance symbol and their extra bits.\<close>

datatype token = Tok_Lit u8 | Tok_Match nat nat nat nat

definition tok_len :: "nat \<Rightarrow> nat \<Rightarrow> nat" where
  "tok_len l x = rfc_len_base ! l + x"

definition tok_dist :: "nat \<Rightarrow> nat \<Rightarrow> nat" where
  "tok_dist d y = rfc_dist_base ! d + y"

text \<open>The output after a match: n times the byte at distance d from the end.\<close>

primrec lz_extend :: "nat \<Rightarrow> nat \<Rightarrow> u8 list \<Rightarrow> u8 list" where
  "lz_extend d 0 h = h"
| "lz_extend d (Suc n) h = lz_extend d n (h @ [h ! (length h - d)])"

fun tok_expand :: "u8 list \<Rightarrow> token \<Rightarrow> u8 list" where
  "tok_expand h (Tok_Lit b) = h @ [b]"
| "tok_expand h (Tok_Match l x d y) = lz_extend (tok_dist d y) (tok_len l x) h"

text \<open>
  A token that the format allows after the history h, with codes for its symbols.  Length symbol
  284 may not carry the extra value 31, which would be another code for 258.
\<close>

fun tok_ok :: "nat list \<Rightarrow> nat list \<Rightarrow> u8 list \<Rightarrow> token \<Rightarrow> bool" where
  "tok_ok ll dl h (Tok_Lit b) \<longleftrightarrow> ll ! unat b \<noteq> 0"
| "tok_ok ll dl h (Tok_Match l x d y) \<longleftrightarrow> l < 29 \<and> x < 2 ^ (rfc_len_extra ! l) \<and> \<not> (l = 27 \<and> x = 31) \<and>
     d < 30 \<and> y < 2 ^ (rfc_dist_extra ! d) \<and> tok_dist d y \<le> length h \<and> ll ! (257 + l) \<noteq> 0 \<and> dl ! d \<noteq> 0"

fun tok_bits :: "nat list \<Rightarrow> u16 list \<Rightarrow> nat list \<Rightarrow> u16 list \<Rightarrow> token \<Rightarrow> bool list" where
  "tok_bits ll lc dl dc (Tok_Lit b) = code_bits ll lc (unat b)"
| "tok_bits ll lc dl dc (Tok_Match l x d y) =
     code_bits ll lc (257 + l) @ val_bits (rfc_len_extra ! l) x @
     code_bits dl dc d @ val_bits (rfc_dist_extra ! d) y"

fun toks_ok :: "nat list \<Rightarrow> nat list \<Rightarrow> u8 list \<Rightarrow> token list \<Rightarrow> bool" where
  "toks_ok ll dl h [] \<longleftrightarrow> True"
| "toks_ok ll dl h (t # ts) \<longleftrightarrow> tok_ok ll dl h t \<and> toks_ok ll dl (tok_expand h t) ts"

definition toks_expand :: "u8 list \<Rightarrow> token list \<Rightarrow> u8 list" where
  "toks_expand = foldl tok_expand"

definition block_bits :: "nat list \<Rightarrow> u16 list \<Rightarrow> nat list \<Rightarrow> u16 list \<Rightarrow> token list \<Rightarrow> bool list" where
  "block_bits ll lc dl dc ts = concat (map (tok_bits ll lc dl dc) ts) @ code_bits ll lc 256"

section \<open>Symbols and extra bits\<close>

lemma bits_at_append: "bits_at m p (xs @ ys) \<longleftrightarrow> bits_at m p xs \<and> bits_at m (p + length xs) ys"
proof
  assume h: "bits_at m p (xs @ ys)"
  show "bits_at m p xs \<and> bits_at m (p + length xs) ys"
    unfolding bits_at_def
  proof (intro conjI allI impI)
    show "sbit m (p + i) = xs ! i" if "i < length xs" for i
      using h that by (auto simp: bits_at_def nth_append dest: spec [of _ i])
    show "sbit m (p + length xs + i) = ys ! i" if "i < length ys" for i
      using h that by (auto simp: bits_at_def nth_append add.assoc dest: spec [of _ "length xs + i"])
  qed
next
  assume h: "bits_at m p xs \<and> bits_at m (p + length xs) ys"
  show "bits_at m p (xs @ ys)"
    unfolding bits_at_def
  proof (intro allI impI)
    fix i assume i: "i < length (xs @ ys)"
    show "sbit m (p + i) = (xs @ ys) ! i"
    proof (cases "i < length xs")
      case False
      then obtain j where "i = length xs + j" using le_Suc_ex not_less by blast
      then show ?thesis using h i by (simp add: bits_at_def nth_append add.assoc)
    qed (use h in \<open>simp add: bits_at_def nth_append\<close>)
  qed
qed

text \<open>The container at the bit position p, and after a refill.\<close>

definition held :: "mem \<Rightarrow> nat \<Rightarrow> nat \<Rightarrow> nat \<Rightarrow> nat \<Rightarrow> u32 \<Rightarrow> nat \<Rightarrow> bool" where
  "held m inp end_ptr p ptr bits n \<longleftrightarrow> window m ptr bits n \<and> 8 * ptr = p + n \<and> inp + 4 \<le> ptr \<and> ptr \<le> end_ptr \<and> 8 * inp \<le> p"

definition ready :: "mem \<Rightarrow> nat \<Rightarrow> nat \<Rightarrow> nat \<Rightarrow> nat \<Rightarrow> u32 \<Rightarrow> nat \<Rightarrow> bool" where
  "ready m inp end_ptr p ptr bits n \<longleftrightarrow> held m inp end_ptr p ptr bits n \<and> (25 \<le> n \<or> ptr = end_ptr)"

lemma ready_enough: "ready m inp end_ptr p ptr bits n \<Longrightarrow> k \<le> 25 \<Longrightarrow> p + k \<le> 8 * end_ptr \<Longrightarrow> k \<le> n"
  by (auto simp: ready_def held_def)

lemma held_drop:
  "held m inp end_ptr p ptr bits n \<Longrightarrow> k \<le> n \<Longrightarrow> held m inp end_ptr (p + k) ptr (drop_bit k bits) (n - k)"
  by (auto simp: held_def window_drop)

lemma held_take:
  assumes "held m inp end_ptr p ptr bits n" "bits_at m p bs" "length bs \<le> n" "j < length bs"
  shows "bit bits j \<longleftrightarrow> bs ! j"
proof -
  have w: "window m ptr bits n" "8 * ptr - n = p" using assms(1) by (auto simp: held_def)
  show ?thesis using window_bit [OF w(1), of j] assms(2-4) by (simp add: w(2) bits_at_def)
qed

lemma refill_ready:
  assumes "held m inp end_ptr p ptr bits n" "mapped m inp (end_ptr - inp)"
  shows "\<exists>ptr' bits' n'. refill_bits m end_ptr ptr bits n = Some (ptr', bits', n') \<and> ready m inp end_ptr p ptr' bits' n'"
proof -
  have h: "window m ptr bits n" "8 * ptr = p + n" "inp + 4 \<le> ptr" "ptr \<le> end_ptr" "8 * inp \<le> p"
    using assms(1) by (auto simp: held_def)
  have mp: "mapped m ptr (end_ptr - ptr)" "mapped m (ptr - 4) 4"
    using h by (auto intro: mapped_sub [OF assms(2)])
  obtain ptr' bits' n' where r: "refill_bits m end_ptr ptr bits n = Some (ptr', bits', n')" "window m ptr' bits' n'"
    "8 * ptr' - n' = 8 * ptr - n" "ptr \<le> ptr'" "ptr' \<le> end_ptr" "25 \<le> n' \<or> ptr' = end_ptr"
    using refill_window [OF h(1,4) mp(1) _ mp(2)] h(3) by auto
  moreover have "n' \<le> 8 * ptr'" using r(2) by (simp add: window_def)
  then have "8 * ptr' = p + n'" using r(3) h(2) by linarith
  ultimately show ?thesis using h by (auto simp: ready_def held_def)
qed

text \<open>What the tables of a block are.\<close>

definition tables_ok :: "nat \<Rightarrow> nat list \<Rightarrow> u16 list \<Rightarrow> u16 list \<Rightarrow> nat list \<Rightarrow> u32 list \<Rightarrow> bool" where
  "tables_ok n lengths codes tab off os \<longleftrightarrow> codes_ok n lengths codes \<and> dec_inv lengths codes n tab \<and>
     ol_inv lengths codes n n os \<and> n \<le> 512 \<and> n \<le> length os \<and> off = map (ol_off lengths n) [0..<5]"

lemma length_code_bits [simp]: "length (code_bits lengths codes sy) = lengths ! sy"
  by (simp add: code_bits_def)

lemma length_val_bits [simp]: "length (val_bits k v) = k"
  by (simp add: val_bits_def)

lemma tables_len: "tables_ok n lengths codes tab off os \<Longrightarrow> sy < n \<Longrightarrow> lengths ! sy \<le> 15"
  by (simp add: tables_ok_def codes_ok_def)

lemma huff_symbol_code:
  assumes "tables_ok n lengths codes tab off os" "sy < n" "lengths ! sy \<noteq> 0"
    and "held m inp end_ptr p ptr bits nb" "bits_at m p (code_bits lengths codes sy)" "lengths ! sy \<le> nb"
  shows "huff_symbol tab off os bits nb = Some (Go (sy, drop_bit (lengths ! sy) bits, nb - lengths ! sy))"
proof -
  have c: "codes_ok n lengths codes" using assms(1) by (simp add: tables_ok_def)
  have "take_bit (lengths ! sy) bits = ucast (codes ! sy)"
  proof (rule bit_word_eqI)
    fix i assume i32: "i < LENGTH(32)"
    show "bit (take_bit (lengths ! sy) bits) i = bit (ucast (codes ! sy) :: u32) i"
    proof (cases "i < lengths ! sy")
      case True
      then show ?thesis
        using held_take [OF assms(4,5), of i] assms(6) i32
        by (simp add: code_bits_def bit_take_bit_iff bit_ucast_iff)
    next
      case False
      moreover have "\<not> bit (codes ! sy) i" using c assms(2,3) False by (auto simp: codes_ok_def)
      ultimately show ?thesis by (simp add: bit_take_bit_iff bit_ucast_iff)
    qed
  qed
  then have "code_matches lengths codes sy (unat bits)"
    using assms(3) take_bit_code [of "codes ! sy" "lengths ! sy" bits] by (auto simp: code_matches_def)
  then show ?thesis
    using huff_lookup_code [OF c, of tab os sy bits nb] assms(1,2,6) by (auto simp: huff_symbol_def tables_ok_def)
qed

lemma take_val_bits:
  assumes "held m inp end_ptr p ptr bits nb" "bits_at m p (val_bits k v)" "k \<le> nb" "v < 2 ^ k"
  shows "unat (take_bit k bits) = v"
proof -
  have nb: "nb \<le> 32" using assms(1) by (simp add: held_def window_def)
  have v: "take_bit k v = v" using assms(4) by (simp add: take_bit_nat_eq_self_iff)
  have "take_bit k bits = of_nat v"
  proof (rule bit_word_eqI)
    fix i assume i: "i < LENGTH(32)"
    have "bit v i \<longleftrightarrow> i < k \<and> bit v i" using v by (metis bit_take_bit_iff)
    then show "bit (take_bit k bits) i = bit (of_nat v :: u32) i"
      using held_take [OF assms(1,2), of i] assms(3) i by (auto simp: val_bits_def bit_take_bit_iff bit_simps)
  qed
  moreover have "v < 2 ^ 32" using assms(3,4) nb by (meson le_trans less_le_trans one_le_numeral power_increasing)
  ultimately show ?thesis by (simp add: unat_of_nat)
qed

section \<open>Lengths and distances\<close>

definition bases_ok :: "gzip_dec_state \<Rightarrow> bool" where
  "bases_ok st \<longleftrightarrow> lit_base st = run_base 11 lit_extra \<and> dist_base st = run_base 5 dist_extra"

lemma replicate_zeros: "replicate 8 0 = [0, 0, 0, 0, 0, 0, 0, 0 :: nat]" "replicate 4 0 = [0, 0, 0, 0 :: nat]"
  by (simp_all add: numeral_eq_Suc)

lemma len_tables:
  "rfc_len_extra = replicate 8 0 @ lit_extra" "rfc_dist_extra = replicate 4 0 @ dist_extra"
  "run_base 5 dist_extra = drop 4 rfc_dist_base" "take 4 rfc_dist_base = [1..<5]"
  "run_base 11 lit_extra = butlast (drop 8 rfc_len_base) @ [259]" "take 8 rfc_len_base = [3..<11]"
  "length lit_extra = 21" "length dist_extra = 26" "length rfc_len_base = 29" "length rfc_dist_base = 30"
  by (simp_all add: rfc_len_extra_def rfc_dist_extra_def rfc_len_base_def rfc_dist_base_def lit_extra_def dist_extra_def upt_rec replicate_zeros)

definition dec_len :: "nat \<Rightarrow> nat \<Rightarrow> nat" where
  "dec_len l x = (if l = 28 then 259 else tok_len l x)"

lemma short_len: "l < 8 \<Longrightarrow> rfc_len_base ! l = l + 3 \<and> rfc_len_extra ! l = 0"
proof -
  assume l: "l < 8"
  then have "rfc_len_base ! l = take 8 rfc_len_base ! l" by simp
  also have "\<dots> = l + 3" using l by (subst len_tables(6), subst nth_upt) simp_all
  finally show ?thesis using l by (simp add: len_tables(1) nth_append)
qed

lemma short_dist: "d < 4 \<Longrightarrow> rfc_dist_base ! d = d + 1 \<and> rfc_dist_extra ! d = 0"
proof -
  assume d: "d < 4"
  then have "rfc_dist_base ! d = take 4 rfc_dist_base ! d" by simp
  also have "\<dots> = d + 1" using d by (subst len_tables(4), subst nth_upt) simp_all
  finally show ?thesis using d by (simp add: len_tables(2) nth_append)
qed

lemma long_len:
  assumes "8 \<le> l" "l < 29"
  shows "lit_extra ! (l - 8) = rfc_len_extra ! l" "run_base 11 lit_extra ! (l - 8) = (if l = 28 then 259 else rfc_len_base ! l)"
    "l - 8 < length lit_extra" "l - 8 < length (run_base 11 lit_extra)"
  using assms by (auto simp: len_tables(1,5,7,9) nth_append nth_butlast)

lemma long_dist:
  assumes "4 \<le> d" "d < 30"
  shows "dist_extra ! (d - 4) = rfc_dist_extra ! d" "run_base 5 dist_extra ! (d - 4) = rfc_dist_base ! d"
    "d - 4 < length dist_extra" "d - 4 < length (run_base 5 dist_extra)"
  using assms by (auto simp: len_tables(2,3,8,10) nth_append)

lemma match_length_ok:
  assumes "bases_ok st" "l < 29" "x < 2 ^ (rfc_len_extra ! l)" "held m inp end_ptr p ptr bits nb"
    and "bits_at m p (val_bits (rfc_len_extra ! l) x)" "rfc_len_extra ! l \<le> nb"
  shows "match_length st (257 + l) bits nb =
    Some (Go (dec_len l x, drop_bit (rfc_len_extra ! l) bits, nb - rfc_len_extra ! l))"
proof (cases "l < 8")
  case True
  then show ?thesis using short_len [OF True] assms(3) by (simp add: match_length_def dec_len_def tok_len_def)
next
  case False
  have l: "257 + l - 257 + 3 = l + 3" "l + 3 - 11 = l - 8" "11 \<le> l + 3" using False by simp_all
  have t: "unat (take_bit (rfc_len_extra ! l) bits) = x" by (rule take_val_bits [OF assms(4-6,3)])
  have "x = 0" if "l = 28" using assms(3) that by (simp add: rfc_len_extra_def)
  then show ?thesis
    using long_len [of l] False assms(1,2,6) t unfolding match_length_def Let_def l
    by (auto simp: bases_ok_def dec_len_def tok_len_def)
qed

lemma match_dist_ok:
  assumes "bases_ok st" "d < 30" "y < 2 ^ (rfc_dist_extra ! d)" "held m inp end_ptr p ptr bits nb"
    and "bits_at m p (val_bits (rfc_dist_extra ! d) y)" "p + rfc_dist_extra ! d \<le> 8 * end_ptr" "mapped m inp (end_ptr - inp)"
  shows "\<exists>ptr' bits' nb'. match_dist st m end_ptr d ptr bits nb = Some (Go (tok_dist d y, ptr', bits', nb')) \<and>
    held m inp end_ptr (p + rfc_dist_extra ! d) ptr' bits' nb'"
proof (cases "d < 4")
  case True
  then show ?thesis using short_dist [OF True] assms(3,4) by (simp add: match_dist_def tok_dist_def)
next
  case False
  have d: "d + 1 - 5 = d - 4" "5 \<le> d + 1" using False by simp_all
  obtain ptr' bits' nb' where r: "refill_bits m end_ptr ptr bits nb = Some (ptr', bits', nb')" "ready m inp end_ptr p ptr' bits' nb'"
    using refill_ready [OF assms(4,7)] by blast
  have h: "held m inp end_ptr p ptr' bits' nb'" using r(2) by (simp add: ready_def)
  have "rfc_dist_extra ! d \<le> 13"
  proof -
    have "\<forall>e \<in> set rfc_dist_extra. e \<le> 13" "length rfc_dist_extra = 30" by (simp_all add: rfc_dist_extra_def)
    then show ?thesis using assms(2) by simp
  qed
  then have e: "rfc_dist_extra ! d \<le> nb'" using ready_enough [OF r(2)] assms(6) by simp
  have t: "unat (take_bit (rfc_dist_extra ! d) bits') = y" by (rule take_val_bits [OF h assms(5) e assms(3)])
  show ?thesis
    using long_dist [of d] False assms(1,2) e t r(1) held_drop [OF h e] unfolding match_dist_def Let_def d
    by (auto simp: bases_ok_def tok_dist_def)
qed

section \<open>Output\<close>

lemma held_mem:
  assumes "held m inp end_ptr p ptr bits n" "only_within m m' a b" "end_ptr \<le> a \<or> b \<le> inp"
  shows "held m' inp end_ptr p ptr bits n"
proof -
  have h: "window m ptr bits n" "8 * ptr = p + n" "ptr \<le> end_ptr" "8 * inp \<le> p" "8 * ptr - n = p"
    using assms(1) by (auto simp: held_def)
  have "sbit m' (p + i) = sbit m (p + i)" if "i < n" for i
  proof -
    have "inp \<le> (p + i) div 8" "(p + i) div 8 < end_ptr" using that h by auto
    then show ?thesis using assms(2,3) by (auto simp: sbit_def only_within_def)
  qed
  then have "window m' ptr bits n" using h by (auto simp: window_def)
  then show ?thesis using assms(1) by (simp add: held_def)
qed

lemma bits_at_mem:
  assumes "bits_at m p bs" "8 * inp \<le> p" "p + length bs \<le> 8 * end_ptr" "only_within m m' a b" "end_ptr \<le> a \<or> b \<le> inp"
  shows "bits_at m' p bs"
  unfolding bits_at_def
proof (intro allI impI)
  fix i assume i: "i < length bs"
  have "inp \<le> (p + i) div 8" "(p + i) div 8 < end_ptr" using i assms(2,3) by auto
  then have "sbit m' (p + i) = sbit m (p + i)" using assms(4,5) by (auto simp: sbit_def only_within_def)
  then show "sbit m' (p + i) = bs ! i" using assms(1) i by (simp add: bits_at_def)
qed

lemma put_byte:
  assumes "mapped m ws (oe - ws)" "ws \<le> out" "out < oe" "bytes_at m ws (out - ws) = h"
  shows "\<exists>m'. store_bytes m out [c] = Some m' \<and> only_within m m' out (out + 1) \<and> bytes_at m' ws (out + 1 - ws) = h @ [c]"
proof -
  have mp: "mapped m out (length [c])" by (rule mapped_sub [OF assms(1)]) (use assms in auto)
  have ow: "only_within m (mem_write m out [c]) out (out + 1)"
    using dom_mem_write [OF mp] by (auto simp: only_within_def mem_write_def)
  have "bytes_at (mem_write m out [c]) ws (out + 1 - ws) =
    bytes_at (mem_write m out [c]) ws (out - ws) @ bytes_at (mem_write m out [c]) out 1"
    using bytes_at_append [of _ ws "out - ws" 1] assms(2) by (simp add: Suc_diff_le)
  also have "bytes_at (mem_write m out [c]) ws (out - ws) = h"
    using only_within_bytes [OF ow, of ws "out - ws"] assms(2,4) by simp
  also have "bytes_at (mem_write m out [c]) out 1 = [c]" by (simp add: bytes_at_def mem_write_def)
  finally show ?thesis using ow store_bytes_mapped [OF mp] by auto
qed

lemma length_lz_extend [simp]: "length (lz_extend d n h) = length h + n"
  by (induction n arbitrary: h) simp_all

lemma lz_extend_prefix: "take (length h) (lz_extend d n h) = h"
proof (induction n arbitrary: h)
  case (Suc n)
  have "take (length h) (take (Suc (length h)) (lz_extend d n (h @ [h ! (length h - d)]))) = h"
    using Suc [of "h @ [h ! (length h - d)]"] by simp
  then show ?case by (simp add: min_def)
qed simp

lemma huff_copy_ok:
  assumes "mapped m ws (oe - ws)" "ws \<le> out" "out + n \<le> oe" "bytes_at m ws (out - ws) = h" "0 < d" "d \<le> length h"
  shows "\<exists>m'. huff_copy tab d n out crc m = Some (out + n, crc_bytes tab crc (drop (length h) (lz_extend d n h)), m') \<and>
    only_within m m' out (out + n) \<and> bytes_at m' ws (out + n - ws) = lz_extend d n h"
  using assms
proof (induction n arbitrary: out crc m h)
  case (Suc n)
  have l: "length h = out - ws" using Suc.prems(4) by auto
  let ?c = "h ! (length h - d)"
  have "m (out - d) = Some ?c"
  proof -
    have "h ! (length h - d) = the (m (ws + (length h - d)))"
      using Suc.prems(4,5,6) l by (metis diff_less nth_bytes_at zero_less_diff less_le_trans diff_is_0_eq' not_less)
    moreover have "ws + (length h - d) = out - d" using l Suc.prems(2,6) by simp
    moreover have "\<exists>b. m (out - d) = Some b" using mappedD [OF Suc.prems(1), of "out - d"] l Suc.prems by auto
    ultimately show ?thesis by auto
  qed
  then have ld: "load8 m (out - d) = Some ?c" by (simp add: load8_def)
  obtain m1 where m1: "store_bytes m out [?c] = Some m1" "only_within m m1 out (out + 1)" "bytes_at m1 ws (out + 1 - ws) = h @ [?c]"
    using put_byte [OF Suc.prems(1,2) _ Suc.prems(4)] Suc.prems(3) by fastforce
  have mp: "mapped m1 ws (oe - ws)" using Suc.prems(1) only_within_mapped [OF m1(2)] by simp
  obtain m' where m': "huff_copy tab d n (out + 1) (crc_update tab crc ?c) m1 =
      Some (out + 1 + n, crc_bytes tab (crc_update tab crc ?c) (drop (length (h @ [?c])) (lz_extend d n (h @ [?c]))), m')"
    "only_within m1 m' (out + 1) (out + 1 + n)" "bytes_at m' ws (out + 1 + n - ws) = lz_extend d n (h @ [?c])"
    using Suc.IH [OF mp _ _ m1(3), of "crc_update tab crc ?c"] Suc.prems by auto
  have "drop (length h) (lz_extend d (Suc n) h) = ?c # drop (length (h @ [?c])) (lz_extend d n (h @ [?c]))"
  proof -
    have "lz_extend d n (h @ [?c]) = (h @ [?c]) @ drop (length (h @ [?c])) (lz_extend d n (h @ [?c]))"
      using lz_extend_prefix [of "h @ [?c]" d n] append_take_drop_id by metis
    then have "drop (length h) (lz_extend d n (h @ [?c])) = ?c # drop (length (h @ [?c])) (lz_extend d n (h @ [?c]))"
      by (metis append.assoc append_Cons append_Nil append_eq_conv_conj)
    then show ?thesis by simp
  qed
  moreover have "only_within m m' out (out + Suc n)"
    by (rule only_within_trans [OF only_within_mono [OF m1(2), of out "out + Suc n"] m'(2)]) simp_all
  ultimately show ?case using ld m1(1) m'(1,3) by (simp add: crc_bytes_def)
qed (simp add: crc_bytes_def)

section \<open>The decoding loop\<close>

text \<open>
  The state that huff\_block works with: the tables of the two alphabets, and an input from inp to
  end\_ptr and a window from ws to oe that are mapped and do not overlap.
\<close>

definition block_env :: "gzip_dec_state \<Rightarrow> nat list \<Rightarrow> u16 list \<Rightarrow> nat list \<Rightarrow> u16 list \<Rightarrow> nat \<Rightarrow> nat \<Rightarrow> bool" where
  "block_env st ll lc dl dc inp end_ptr \<longleftrightarrow>
     tables_ok 286 ll lc (dectable_lit st) (lit_oloff st) (lit_overlength st) \<and>
     tables_ok 30 dl dc (dectable_dist st) (dist_oloff st) (dist_overlength st) \<and> bases_ok st \<and>
     (end_ptr \<le> d_window_start st \<or> d_out_end st \<le> inp)"

definition loop_env :: "gzip_dec_state \<Rightarrow> nat \<Rightarrow> nat \<Rightarrow> nat \<Rightarrow> mem \<Rightarrow> bool" where
  "loop_env st inp end_ptr out m \<longleftrightarrow> mapped m inp (end_ptr - inp) \<and>
     mapped m (d_window_start st) (d_out_end st - d_window_start st) \<and> d_window_start st \<le> out"

abbreviation "hist st m out \<equiv> bytes_at m (d_window_start st) (out - d_window_start st)"

lemma loop_env_mem:
  "loop_env st inp end_ptr out m \<Longrightarrow> only_within m m' a b \<Longrightarrow> out \<le> out' \<Longrightarrow> loop_env st inp end_ptr out' m'"
  by (auto simp: loop_env_def only_within_mapped)

lemma block_env_apart:
  "block_env st ll lc dl dc inp end_ptr \<Longrightarrow> d_window_start st \<le> a \<Longrightarrow> b \<le> d_out_end st \<Longrightarrow> end_ptr \<le> a \<or> b \<le> inp"
  by (auto simp: block_env_def)

lemma next_round:
  assumes "held m inp end_ptr p ptr bits nb" "loop_env st inp end_ptr out m"
  shows "\<exists>ptr' bits' nb'. (do { (ptr, bits, num_bits) \<leftarrow> refill_bits m end_ptr ptr bits nb;
      Some (Inl (ptr, bits, num_bits, out, crc, m) :: huff_loop + huff_exit) }) = Some (Inl (ptr', bits', nb', out, crc, m)) \<and>
    ready m inp end_ptr p ptr' bits' nb'"
  using refill_ready [OF assms(1)] assms(2) by (auto simp: loop_env_def)

lemma round_lit:
  assumes e: "block_env st ll lc dl dc inp end_ptr" "loop_env st inp end_ptr out m"
    and r: "ready m inp end_ptr p ptr bits nb"
    and t: "ll ! unat b \<noteq> 0" "bits_at m p (code_bits ll lc (unat b))" "p + ll ! unat b \<le> 8 * end_ptr"
    and out: "out < d_out_end st"
  shows "\<exists>ptr' bits' nb' m'. huff_round st end_ptr (ptr, bits, nb, out, crc, m) =
      Some (Inl (ptr', bits', nb', out + 1, crc_update (g_crc_table st) crc b, m')) \<and>
    ready m' inp end_ptr (p + ll ! unat b) ptr' bits' nb' \<and> only_within m m' out (out + 1) \<and> loop_env st inp end_ptr (out + 1) m' \<and>
    hist st m' (out + 1) = hist st m out @ [b]"
proof -
  have b: "unat b < 256" using unsigned_less [of b, where 'a = nat] by simp
  have tab: "tables_ok 286 ll lc (dectable_lit st) (lit_oloff st) (lit_overlength st)" using e(1) by (simp add: block_env_def)
  have h: "held m inp end_ptr p ptr bits nb" using r by (simp add: ready_def)
  have l: "ll ! unat b \<le> nb" using ready_enough [OF r _ t(3)] tables_len [OF tab, of "unat b"] b by simp
  have sy: "huff_symbol (dectable_lit st) (lit_oloff st) (lit_overlength st) bits nb =
      Some (Go (unat b, drop_bit (ll ! unat b) bits, nb - ll ! unat b))"
    using huff_symbol_code [OF tab _ t(1) h t(2) l] b by simp
  obtain m' where m': "store_bytes m out [b] = Some m'" "only_within m m' out (out + 1)" "hist st m' (out + 1) = hist st m out @ [b]"
    using put_byte [of m "d_window_start st" "d_out_end st" out _ b] e(2) out by (auto simp: loop_env_def)
  have ap: "end_ptr \<le> out \<or> out + 1 \<le> inp" using block_env_apart [OF e(1)] e(2) out by (auto simp: loop_env_def)
  have le: "loop_env st inp end_ptr (out + 1) m'" by (rule loop_env_mem [OF e(2) m'(2)]) simp
  have h': "held m' inp end_ptr (p + ll ! unat b) ptr (drop_bit (ll ! unat b) bits) (nb - ll ! unat b)"
    by (rule held_mem [OF held_drop [OF h l] m'(2) ap])
  show ?thesis
    using next_round [OF h' le, of "crc_update (g_crc_table st) crc b"] sy m' b out le unfolding huff_round_def Let_def
    by (simp add: split_def) (metis fst_conv snd_conv)
qed

lemma rfc_bounds:
  "\<forall>l \<in> set [0..<27]. rfc_len_base ! l + 2 ^ (rfc_len_extra ! l) \<le> 258" "rfc_len_base ! 27 = 227" "rfc_len_base ! 28 = 258" "rfc_len_extra ! 27 = 5"
  "rfc_len_extra ! 28 = 0" "\<forall>e \<in> set rfc_len_extra. e \<le> 5" "\<forall>b \<in> set rfc_dist_base. 1 \<le> b" "length rfc_len_extra = 29"
  by (simp_all add: rfc_len_base_def rfc_len_extra_def rfc_dist_base_def upt_rec)

lemma dec_len_tok:
  assumes "l < 29" "x < 2 ^ (rfc_len_extra ! l)" "\<not> (l = 27 \<and> x = 31)"
  shows "dec_len l x \<noteq> 258" "(if 258 \<le> dec_len l x then 258 else dec_len l x) = tok_len l x"
proof -
  have "l < 27 \<or> l = 27 \<or> l = 28" using assms(1) by linarith
  then have "if l = 28 then x = 0 else tok_len l x < 258"
    using assms(2,3) rfc_bounds(1) [rule_format, of l] rfc_bounds(2-5) by (auto simp: tok_len_def)
  then show "dec_len l x \<noteq> 258" "(if 258 \<le> dec_len l x then 258 else dec_len l x) = tok_len l x"
    using rfc_bounds(3) by (auto simp: dec_len_def tok_len_def split: if_splits)
qed

lemma huff_match_ok:
  assumes e: "block_env st ll lc dl dc inp end_ptr" "loop_env st inp end_ptr out m"
    and h: "held m inp end_ptr p ptr bits nb"
    and d: "d < 30" "y < 2 ^ (rfc_dist_extra ! d)" "tok_dist d y \<le> out - d_window_start st" "dl ! d \<noteq> 0"
    and l: "l < 29" "x < 2 ^ (rfc_len_extra ! l)" "\<not> (l = 27 \<and> x = 31)" "out + tok_len l x \<le> d_out_end st"
    and b: "bits_at m p (code_bits dl dc d @ val_bits (rfc_dist_extra ! d) y)" "p + dl ! d + rfc_dist_extra ! d \<le> 8 * end_ptr"
  shows "\<exists>ptr' bits' nb' m'. huff_match st end_ptr (dec_len l x) (ptr, bits, nb, out, crc, m) =
      Some (Go (ptr', bits', nb', out + tok_len l x,
        crc_bytes (g_crc_table st) crc (drop (out - d_window_start st) (hist st m' (out + tok_len l x))), m')) \<and>
    held m' inp end_ptr (p + dl ! d + rfc_dist_extra ! d) ptr' bits' nb' \<and> only_within m m' out (out + tok_len l x) \<and>
    hist st m' (out + tok_len l x) = lz_extend (tok_dist d y) (tok_len l x) (hist st m out)"
proof -
  have tab: "tables_ok 30 dl dc (dectable_dist st) (dist_oloff st) (dist_overlength st)" and ba: "bases_ok st"
    using e(1) by (simp_all add: block_env_def)
  have mp: "mapped m inp (end_ptr - inp)" "mapped m (d_window_start st) (d_out_end st - d_window_start st)" "d_window_start st \<le> out"
    using e(2) by (simp_all add: loop_env_def)
  obtain ptr1 bits1 nb1 where r: "refill_bits m end_ptr ptr bits nb = Some (ptr1, bits1, nb1)" "ready m inp end_ptr p ptr1 bits1 nb1"
    using refill_ready [OF h mp(1)] by blast
  have h1: "held m inp end_ptr p ptr1 bits1 nb1" using r(2) by (simp add: ready_def)
  have b': "bits_at m p (code_bits dl dc d)" "bits_at m (p + dl ! d) (val_bits (rfc_dist_extra ! d) y)"
    using b(1) by (simp_all add: bits_at_append)
  have n1: "dl ! d \<le> nb1" using ready_enough [OF r(2), of "dl ! d"] tables_len [OF tab d(1)] b(2) by simp
  have sy: "huff_symbol (dectable_dist st) (dist_oloff st) (dist_overlength st) bits1 nb1 =
      Some (Go (d, drop_bit (dl ! d) bits1, nb1 - dl ! d))"
    by (rule huff_symbol_code [OF tab d(1,4) h1 b'(1) n1])
  obtain ptr2 bits2 nb2 where md: "match_dist st m end_ptr d ptr1 (drop_bit (dl ! d) bits1) (nb1 - dl ! d) = Some (Go (tok_dist d y, ptr2, bits2, nb2))"
    "held m inp end_ptr (p + dl ! d + rfc_dist_extra ! d) ptr2 bits2 nb2"
    using match_dist_ok [OF ba d(1,2) held_drop [OF h1 n1] b'(2) b(2) mp(1)] by blast
  have pos: "0 < tok_dist d y" using bspec [OF rfc_bounds(7) nth_mem, of d] d(1) len_tables(10) by (simp add: tok_dist_def)
  let ?L = "tok_len l x" and ?D = "tok_dist d y" and ?ws = "d_window_start st"
  obtain m' where m': "huff_copy (g_crc_table st) ?D ?L out crc m =
      Some (out + ?L, crc_bytes (g_crc_table st) crc (drop (length (hist st m out)) (lz_extend ?D ?L (hist st m out))), m')"
    "only_within m m' out (out + ?L)" "hist st m' (out + ?L) = lz_extend ?D ?L (hist st m out)"
    using huff_copy_ok [OF mp(2,3) l(4) refl pos] d(3) by auto
  have ap: "end_ptr \<le> out \<or> out + ?L \<le> inp" using block_env_apart [OF e(1) mp(3) l(4)] .
  have "\<not> out < ?ws + ?D" using d(3) mp(3) by linarith
  then have "huff_match st end_ptr (dec_len l x) (ptr, bits, nb, out, crc, m) = Some (Go (ptr2, bits2, nb2, out + ?L,
      crc_bytes (g_crc_table st) crc (drop (out - ?ws) (hist st m' (out + ?L))), m'))"
    using r(1) sy md(1) m'(1,3) dec_len_tok [OF l(1-3)] l(4) unfolding huff_match_def
    by (simp add: Let_def)
  then show ?thesis using held_mem [OF md(2) m'(2) ap] m'(2,3) by blast
qed

lemma round_match:
  assumes e: "block_env st ll lc dl dc inp end_ptr" "loop_env st inp end_ptr out m"
    and r: "ready m inp end_ptr p ptr bits nb"
    and t: "tok_ok ll dl (hist st m out) (Tok_Match l x d y)" "bits_at m p (tok_bits ll lc dl dc (Tok_Match l x d y))"
      "p + length (tok_bits ll lc dl dc (Tok_Match l x d y)) \<le> 8 * end_ptr"
    and out: "out + tok_len l x \<le> d_out_end st"
  defines "bs \<equiv> tok_bits ll lc dl dc (Tok_Match l x d y)"
  shows "\<exists>ptr' bits' nb' m'. huff_round st end_ptr (ptr, bits, nb, out, crc, m) =
      Some (Inl (ptr', bits', nb', out + tok_len l x,
        crc_bytes (g_crc_table st) crc (drop (out - d_window_start st) (hist st m' (out + tok_len l x))), m')) \<and>
    ready m' inp end_ptr (p + length bs) ptr' bits' nb' \<and> only_within m m' out (out + tok_len l x) \<and>
    loop_env st inp end_ptr (out + tok_len l x) m' \<and>
    hist st m' (out + tok_len l x) = lz_extend (tok_dist d y) (tok_len l x) (hist st m out)"
proof -
  have tab: "tables_ok 286 ll lc (dectable_lit st) (lit_oloff st) (lit_overlength st)" and ba: "bases_ok st"
    using e(1) by (simp_all add: block_env_def)
  have tk: "l < 29" "x < 2 ^ (rfc_len_extra ! l)" "\<not> (l = 27 \<and> x = 31)" "d < 30" "y < 2 ^ (rfc_dist_extra ! d)"
    "tok_dist d y \<le> out - d_window_start st" "ll ! (257 + l) \<noteq> 0" "dl ! d \<noteq> 0"
    using t(1) by simp_all
  let ?a = "ll ! (257 + l)" and ?b = "rfc_len_extra ! l"
  have bb: "bits_at m p (code_bits ll lc (257 + l))" "bits_at m (p + ?a) (val_bits ?b x)"
    "bits_at m (p + (?a + ?b)) (code_bits dl dc d @ val_bits (rfc_dist_extra ! d) y)"
    using t(2) by (simp_all add: bits_at_append add.assoc)
  have "?a \<le> 15" "?b \<le> 5" using tables_len [OF tab, of "257 + l"] tk(1) rfc_bounds(6,8) by simp_all
  then have n: "?a + ?b \<le> nb" using ready_enough [OF r, of "?a + ?b"] t(3) by simp
  have h: "held m inp end_ptr p ptr bits nb" using r by (simp add: ready_def)
  have h1: "held m inp end_ptr (p + ?a) ptr (drop_bit ?a bits) (nb - ?a)" by (rule held_drop [OF h]) (use n in simp)
  have sy: "huff_symbol (dectable_lit st) (lit_oloff st) (lit_overlength st) bits nb = Some (Go (257 + l, drop_bit ?a bits, nb - ?a))"
    using huff_symbol_code [OF tab _ tk(7) h bb(1)] n tk(1) by simp
  have ml: "match_length st (257 + l) (drop_bit ?a bits) (nb - ?a) = Some (Go (dec_len l x, drop_bit ?b (drop_bit ?a bits), nb - ?a - ?b))"
    by (rule match_length_ok [OF ba tk(1,2) h1 bb(2)]) (use n in simp)
  have h2: "held m inp end_ptr (p + (?a + ?b)) ptr (drop_bit ?b (drop_bit ?a bits)) (nb - ?a - ?b)"
    using held_drop [OF h1, of ?b] n by (simp add: add.assoc)
  obtain ptr' bits' nb' m' where hm: "huff_match st end_ptr (dec_len l x) (ptr, drop_bit ?b (drop_bit ?a bits), nb - ?a - ?b, out, crc, m) =
      Some (Go (ptr', bits', nb', out + tok_len l x,
        crc_bytes (g_crc_table st) crc (drop (out - d_window_start st) (hist st m' (out + tok_len l x))), m'))"
    "held m' inp end_ptr (p + length bs) ptr' bits' nb'" "only_within m m' out (out + tok_len l x)"
    "hist st m' (out + tok_len l x) = lz_extend (tok_dist d y) (tok_len l x) (hist st m out)"
    using huff_match_ok [OF e h2 tk(4,5,6,8,1,2,3) out bb(3), of crc] t(3) unfolding bs_def by (auto simp: ac_simps)
  have le: "loop_env st inp end_ptr (out + tok_len l x) m'" by (rule loop_env_mem [OF e(2) hm(3)]) simp
  show ?thesis
    using next_round [OF hm(2) le, of "crc_bytes (g_crc_table st) crc (drop (out - d_window_start st) (hist st m' (out + tok_len l x)))"]
      sy ml hm(1,3,4) le unfolding huff_round_def Let_def
    by (simp add: split_def) (metis fst_conv snd_conv)
qed

lemma round_end:
  assumes e: "block_env st ll lc dl dc inp end_ptr"
    and r: "ready m inp end_ptr p ptr bits nb"
    and t: "ll ! 256 \<noteq> 0" "bits_at m p (code_bits ll lc 256)" "p + ll ! 256 \<le> 8 * end_ptr"
  shows "huff_round st end_ptr (ptr, bits, nb, out, crc, m) =
      Some (Inr (Huff_Exit None (ptr, drop_bit (ll ! 256) bits, nb - ll ! 256, out, crc, m)))"
    "held m inp end_ptr (p + ll ! 256) ptr (drop_bit (ll ! 256) bits) (nb - ll ! 256)"
proof -
  have tab: "tables_ok 286 ll lc (dectable_lit st) (lit_oloff st) (lit_overlength st)" using e by (simp add: block_env_def)
  have h: "held m inp end_ptr p ptr bits nb" using r by (simp add: ready_def)
  have l: "ll ! 256 \<le> nb" using ready_enough [OF r _ t(3)] tables_len [OF tab, of 256] by simp
  have "huff_symbol (dectable_lit st) (lit_oloff st) (lit_overlength st) bits nb = Some (Go (256, drop_bit (ll ! 256) bits, nb - ll ! 256))"
    using huff_symbol_code [OF tab _ t(1) h t(2) l] by simp
  then show "huff_round st end_ptr (ptr, bits, nb, out, crc, m) =
      Some (Inr (Huff_Exit None (ptr, drop_bit (ll ! 256) bits, nb - ll ! 256, out, crc, m)))"
    by (simp add: huff_round_def)
  show "held m inp end_ptr (p + ll ! 256) ptr (drop_bit (ll ! 256) bits) (nb - ll ! 256)" by (rule held_drop [OF h l])
qed

lemma tok_expand_prefix: "\<exists>bs. tok_expand h t = h @ bs"
proof (cases t)
  case (Tok_Match l x d y)
  then show ?thesis
    using lz_extend_prefix [of h "tok_dist d y" "tok_len l x"] append_take_drop_id [of "length h"] by (metis tok_expand.simps(2))
qed simp

lemma toks_expand_prefix: "\<exists>bs. toks_expand h ts = h @ bs"
proof (induction ts arbitrary: h)
  case (Cons t ts)
  obtain bs where "tok_expand h t = h @ bs" using tok_expand_prefix by blast
  moreover obtain cs where "toks_expand (tok_expand h t) ts = tok_expand h t @ cs" using Cons by blast
  ultimately show ?case by (simp add: toks_expand_def)
qed (simp add: toks_expand_def)

lemma toks_expand_length: "length h \<le> length (toks_expand h ts)"
  using toks_expand_prefix [of h ts] by auto

lemma crc_bytes_append: "crc_bytes tab (crc_bytes tab crc xs) ys = crc_bytes tab crc (xs @ ys)"
  by (simp add: crc_bytes_def)

text \<open>One round of the loop decodes one token.\<close>

lemma round_token:
  assumes e: "block_env st ll lc dl dc inp end_ptr" "loop_env st inp end_ptr out m"
    and r: "ready m inp end_ptr p ptr bits nb"
    and t: "tok_ok ll dl (hist st m out) t" "bits_at m p (tok_bits ll lc dl dc t)" "p + length (tok_bits ll lc dl dc t) \<le> 8 * end_ptr"
    and out: "d_window_start st + length (tok_expand (hist st m out) t) \<le> d_out_end st"
  shows "\<exists>ptr' bits' nb' out' m'. huff_round st end_ptr (ptr, bits, nb, out, crc, m) =
      Some (Inl (ptr', bits', nb', out',
        crc_bytes (g_crc_table st) crc (drop (length (hist st m out)) (hist st m' out')), m')) \<and>
    ready m' inp end_ptr (p + length (tok_bits ll lc dl dc t)) ptr' bits' nb' \<and> only_within m m' out (d_out_end st) \<and>
    loop_env st inp end_ptr out' m' \<and> hist st m' out' = tok_expand (hist st m out) t \<and> out \<le> out'"
proof -
  have ws: "d_window_start st \<le> out" using e(2) by (simp add: loop_env_def)
  show ?thesis
  proof (cases t)
    case (Tok_Lit b)
    have o: "out < d_out_end st" using out Tok_Lit ws by simp
    obtain ptr' bits' nb' m' where m': "huff_round st end_ptr (ptr, bits, nb, out, crc, m) =
        Some (Inl (ptr', bits', nb', out + 1, crc_update (g_crc_table st) crc b, m'))"
      "ready m' inp end_ptr (p + ll ! unat b) ptr' bits' nb'" "only_within m m' out (out + 1)" "loop_env st inp end_ptr (out + 1) m'"
      "hist st m' (out + 1) = hist st m out @ [b]"
      using round_lit [OF e r _ _ _ o, of b crc] t Tok_Lit by auto
    have "drop (length (hist st m out)) (hist st m' (out + 1)) = [b]" unfolding m'(5) by simp
    then have "crc_bytes (g_crc_table st) crc (drop (length (hist st m out)) (hist st m' (out + 1))) = crc_update (g_crc_table st) crc b"
      by (simp add: crc_bytes_def)
    moreover have "only_within m m' out (d_out_end st)" by (rule only_within_mono [OF m'(3)]) (use o in simp_all)
    ultimately show ?thesis
      using m'(1,2,4,5) Tok_Lit by (intro exI [of _ ptr'] exI [of _ bits'] exI [of _ nb'] exI [of _ "out + 1"] exI [of _ m']) simp
  next
    case (Tok_Match l x d y)
    have o: "out + tok_len l x \<le> d_out_end st" using out Tok_Match ws by simp
    obtain ptr' bits' nb' m' where m': "huff_round st end_ptr (ptr, bits, nb, out, crc, m) =
        Some (Inl (ptr', bits', nb', out + tok_len l x,
          crc_bytes (g_crc_table st) crc (drop (out - d_window_start st) (hist st m' (out + tok_len l x))), m'))"
      "ready m' inp end_ptr (p + length (tok_bits ll lc dl dc t)) ptr' bits' nb'" "only_within m m' out (out + tok_len l x)"
      "loop_env st inp end_ptr (out + tok_len l x) m'"
      "hist st m' (out + tok_len l x) = lz_extend (tok_dist d y) (tok_len l x) (hist st m out)"
      using round_match [OF e r t(1-3) [unfolded Tok_Match] o, of crc] unfolding Tok_Match by blast
    have "only_within m m' out (d_out_end st)" by (rule only_within_mono [OF m'(3)]) (use o in simp_all)
    then show ?thesis
      using m'(1,2,4,5) Tok_Match
      by (intro exI [of _ ptr'] exI [of _ bits'] exI [of _ nb'] exI [of _ "out + tok_len l x"] exI [of _ m']) simp
  qed
qed

lemma huff_loop:
  assumes "block_env st ll lc dl dc inp end_ptr" "loop_env st inp end_ptr out m" "ready m inp end_ptr p ptr bits nb"
    and "toks_ok ll dl (hist st m out) ts" "ll ! 256 \<noteq> 0" "bits_at m p (block_bits ll lc dl dc ts)"
    and "p + length (block_bits ll lc dl dc ts) \<le> 8 * end_ptr" "8 * inp \<le> p"
    and "d_window_start st + length (toks_expand (hist st m out) ts) \<le> d_out_end st"
  shows "\<exists>ptr' bits' nb' m'. iterate (huff_round st end_ptr) (ptr, bits, nb, out, crc, m) =
      Some (Huff_Exit None (ptr', bits', nb', d_window_start st + length (toks_expand (hist st m out) ts),
        crc_bytes (g_crc_table st) crc (drop (length (hist st m out)) (toks_expand (hist st m out) ts)), m')) \<and>
    held m' inp end_ptr (p + length (block_bits ll lc dl dc ts)) ptr' bits' nb' \<and> only_within m m' out (d_out_end st) \<and>
    bytes_at m' (d_window_start st) (length (toks_expand (hist st m out) ts)) = toks_expand (hist st m out) ts"
  using assms(2-)
proof (induction ts arbitrary: out m p ptr bits nb crc)
  case Nil
  have ws: "d_window_start st \<le> out" using Nil(1) by (simp add: loop_env_def)
  have b: "block_bits ll lc dl dc [] = code_bits ll lc 256" by (simp add: block_bits_def)
  have x: "toks_expand (hist st m out) [] = hist st m out" by (simp add: toks_expand_def)
  note re = round_end [OF assms(1) Nil(2) Nil(4) Nil(5) [unfolded b] Nil(6) [unfolded b length_code_bits]]
  show ?case
    unfolding x b using re ws by (subst iterate.simps) (auto simp: crc_bytes_def)
next
  case (Cons t ts)
  let ?h = "hist st m out" and ?n = "length (tok_bits ll lc dl dc t)"
  have b: "block_bits ll lc dl dc (t # ts) = tok_bits ll lc dl dc t @ block_bits ll lc dl dc ts" by (simp add: block_bits_def)
  have x: "toks_expand ?h (t # ts) = toks_expand (tok_expand ?h t) ts" by (simp add: toks_expand_def)
  have bits: "bits_at m p (tok_bits ll lc dl dc t)" "bits_at m (p + ?n) (block_bits ll lc dl dc ts)"
    using Cons.prems(5) by (simp_all add: b bits_at_append)
  have room: "d_window_start st + length (tok_expand ?h t) \<le> d_out_end st"
    using Cons.prems(8) toks_expand_length [of "tok_expand ?h t" ts] by (simp add: x)
  obtain ptr1 bits1 nb1 out1 m1 where r: "huff_round st end_ptr (ptr, bits, nb, out, crc, m) =
      Some (Inl (ptr1, bits1, nb1, out1, crc_bytes (g_crc_table st) crc (drop (length ?h) (hist st m1 out1)), m1))"
    "ready m1 inp end_ptr (p + ?n) ptr1 bits1 nb1" "only_within m m1 out (d_out_end st)" "loop_env st inp end_ptr out1 m1"
    "hist st m1 out1 = tok_expand ?h t" "out \<le> out1"
    using round_token [OF assms(1) Cons.prems(1,2), of t crc] Cons.prems(3,6) bits(1) room by (auto simp: b)
  have ap: "end_ptr \<le> out \<or> d_out_end st \<le> inp"
    using block_env_apart [OF assms(1), of out "d_out_end st"] Cons.prems(1) by (simp add: loop_env_def)
  have bits1: "bits_at m1 (p + ?n) (block_bits ll lc dl dc ts)"
    by (rule bits_at_mem [OF bits(2) _ _ r(3) ap]) (use Cons.prems(6,7) in \<open>simp_all add: b\<close>)
  let ?crc = "crc_bytes (g_crc_table st) crc (drop (length ?h) (hist st m1 out1))"
  obtain ptr' bits' nb' m' where l: "iterate (huff_round st end_ptr) (ptr1, bits1, nb1, out1, ?crc, m1) =
      Some (Huff_Exit None (ptr', bits', nb', d_window_start st + length (toks_expand ?h (t # ts)),
        crc_bytes (g_crc_table st) ?crc (drop (length (tok_expand ?h t)) (toks_expand ?h (t # ts))), m'))"
    "held m' inp end_ptr (p + ?n + length (block_bits ll lc dl dc ts)) ptr' bits' nb'" "only_within m1 m' out1 (d_out_end st)"
    "bytes_at m' (d_window_start st) (length (toks_expand ?h (t # ts))) = toks_expand ?h (t # ts)"
    using Cons.IH [OF r(4,2), unfolded r(5), of ?crc] bits1 Cons.prems(3,4,6,7,8) by (auto simp: b x)
  have "drop (length ?h) (tok_expand ?h t) @ drop (length (tok_expand ?h t)) (toks_expand ?h (t # ts)) =
    drop (length ?h) (toks_expand ?h (t # ts))"
    using tok_expand_prefix [of ?h t] toks_expand_prefix [of "tok_expand ?h t" ts] unfolding x by auto
  then have crc: "crc_bytes (g_crc_table st) ?crc (drop (length (tok_expand ?h t)) (toks_expand ?h (t # ts))) =
    crc_bytes (g_crc_table st) crc (drop (length ?h) (toks_expand ?h (t # ts)))"
    by (simp only: crc_bytes_append r(5))
  have ow: "only_within m m' out (d_out_end st)" by (rule only_within_trans [OF r(3) l(3) r(6) le_refl])
  have "iterate (huff_round st end_ptr) (ptr, bits, nb, out, crc, m) = iterate (huff_round st end_ptr) (ptr1, bits1, nb1, out1, ?crc, m1)"
    by (subst iterate.simps) (simp add: r(1))
  then show ?case using l(1,2,4) ow unfolding crc b by (auto simp: add.assoc)
qed

section \<open>Whole blocks\<close>

text \<open>The arrays of the state have their sizes, and no code is longer than 15 bits.\<close>

definition gzip_arrays :: "gzip_dec_state \<Rightarrow> bool" where
  "gzip_arrays st \<longleftrightarrow> length (lit_lengths st) = 286 \<and> length (dist_lengths st) = 30 \<and> length (lit_codes st) = 286 \<and>
     length (dist_codes st) = 30 \<and> length (lit_overlength st) = 286 \<and> length (dist_overlength st) = 30 \<and>
     (\<forall>l \<in> set (lit_lengths st). l \<le> 15) \<and> (\<forall>l \<in> set (dist_lengths st). l \<le> 15)"

text \<open>The state apart from codes and tables.\<close>

definition same_rest :: "gzip_dec_state \<Rightarrow> gzip_dec_state \<Rightarrow> bool" where
  "same_rest st st' \<longleftrightarrow> d_window_start st' = d_window_start st \<and> d_out st' = d_out st \<and> d_out_end st' = d_out_end st \<and>
     g_crc_table st' = g_crc_table st \<and> g_crc st' = g_crc st \<and> g_isize st' = g_isize st \<and> skip_bits st' = skip_bits st \<and>
     last_block st' = last_block st \<and> lit_lengths st' = lit_lengths st \<and> dist_lengths st' = dist_lengths st \<and>
     lit_base st' = lit_base st \<and> dist_base st' = dist_base st"

lemma dynamic_tables_ok:
  assumes "gzip_arrays st"
  shows "(\<exists>st'. dynamic_tables st = Some st') \<longleftrightarrow> kraft_sum 286 (lit_lengths st) \<le> 2 ^ 15 \<and> kraft_sum 30 (dist_lengths st) \<le> 2 ^ 15"
    and "dynamic_tables st = Some st' \<Longrightarrow>
      tables_ok 286 (lit_lengths st) (lit_codes st') (dectable_lit st') (lit_oloff st') (lit_overlength st') \<and>
      tables_ok 30 (dist_lengths st) (dist_codes st') (dectable_dist st') (dist_oloff st') (dist_overlength st') \<and> same_rest st st'"
proof -
  have a: "length (lit_lengths st) = 286" "length (dist_lengths st) = 30" "length (lit_codes st) = 286"
    "length (dist_codes st) = 30" "length (lit_overlength st) = 286" "length (dist_overlength st) = 30"
    using assms by (simp_all add: gzip_arrays_def)
  have l: "sy < 286 \<Longrightarrow> lit_lengths st ! sy \<le> 15" "sy < 30 \<Longrightarrow> dist_lengths st ! sy \<le> 15" for sy
    using assms by (auto simp: gzip_arrays_def)
  note cl = construct_codes_ok [of 286 "lit_lengths st" "lit_codes st", OF l(1)]
  note cd = construct_codes_ok [of 30 "dist_lengths st" "dist_codes st", OF l(2)]
  have ok: "\<exists>st'. dynamic_tables st = Some st' \<and>
      tables_ok 286 (lit_lengths st) (lit_codes st') (dectable_lit st') (lit_oloff st') (lit_overlength st') \<and>
      tables_ok 30 (dist_lengths st) (dist_codes st') (dectable_dist st') (dist_oloff st') (dist_overlength st') \<and> same_rest st st'"
    if k: "kraft_sum 286 (lit_lengths st) \<le> 2 ^ 15" "kraft_sum 30 (dist_lengths st) \<le> 2 ^ 15"
  proof -
    obtain c1 where c1: "construct_codes 286 (lit_lengths st) (lit_codes st) = Some c1" "codes_ok 286 (lit_lengths st) c1"
      using cl k(1) a by auto
    obtain c2 where c2: "construct_codes 30 (dist_lengths st) (dist_codes st) = Some c2" "codes_ok 30 (dist_lengths st) c2"
      using cd k(2) a by auto
    obtain t1 o1 where t1: "construct_dectable 286 (lit_lengths st) c1 (lit_overlength st) =
        Some (t1, map (ol_off (lit_lengths st) 286) [0..<5], o1)"
      "dec_inv (lit_lengths st) c1 286 t1" "ol_inv (lit_lengths st) c1 286 286 o1" "length o1 = 286"
      using construct_dectable_ok [OF c1(2), of "lit_overlength st"] a by auto
    obtain t2 o2 where t2: "construct_dectable 30 (dist_lengths st) c2 (dist_overlength st) =
        Some (t2, map (ol_off (dist_lengths st) 30) [0..<5], o2)"
      "dec_inv (dist_lengths st) c2 30 t2" "ol_inv (dist_lengths st) c2 30 30 o2" "length o2 = 30"
      using construct_dectable_ok [OF c2(2), of "dist_overlength st"] a by auto
    show ?thesis
      using c1 c2 t1 t2 unfolding dynamic_tables_def by (simp add: tables_ok_def same_rest_def)
  qed
  have no: "dynamic_tables st = None" if "\<not> (kraft_sum 286 (lit_lengths st) \<le> 2 ^ 15 \<and> kraft_sum 30 (dist_lengths st) \<le> 2 ^ 15)"
  proof (cases "kraft_sum 286 (lit_lengths st) \<le> 2 ^ 15")
    case True
    then have "construct_codes 30 (dist_lengths st) (dist_codes st) = None" using that cd a by auto
    then show ?thesis unfolding dynamic_tables_def by (auto split: bind_splits)
  next
    case False
    then have "construct_codes 286 (lit_lengths st) (lit_codes st) = None" using cl a by auto
    then show ?thesis unfolding dynamic_tables_def by simp
  qed
  show "(\<exists>st'. dynamic_tables st = Some st') \<longleftrightarrow> kraft_sum 286 (lit_lengths st) \<le> 2 ^ 15 \<and> kraft_sum 30 (dist_lengths st) \<le> 2 ^ 15"
    using ok no by fastforce
  show "dynamic_tables st = Some st' \<Longrightarrow>
      tables_ok 286 (lit_lengths st) (lit_codes st') (dectable_lit st') (lit_oloff st') (lit_overlength st') \<and>
      tables_ok 30 (dist_lengths st) (dist_codes st') (dectable_dist st') (dist_oloff st') (dist_overlength st') \<and> same_rest st st'"
    using ok no by fastforce
qed

lemma skip_consumed:
  assumes "8 * ptr = P + nb" "nb \<le> 32" "8 * inp \<le> P"
  shows "ptr - inp - (nb + 7) div 8 = P div 8 - inp" "bits_to_skip nb = P mod 8"
proof -
  obtain k where k: "k \<le> 7" "nb + k = 8 * ((nb + 7) div 8)"
  proof
    show "nb + (8 * ((nb + 7) div 8) - nb) = 8 * ((nb + 7) div 8)" "8 * ((nb + 7) div 8) - nb \<le> 7" by linarith+
  qed
  have P: "P = 8 * (ptr - (nb + 7) div 8) + k" using assms(1) k by linarith
  then have "P div 8 = ptr - (nb + 7) div 8" "P mod 8 = k" using k(1) by simp_all
  then show "ptr - inp - (nb + 7) div 8 = P div 8 - inp" by simp
  have "2 ^ 32 + 8 - nb = 8 * (2 ^ 29 + 1 - (nb + 7) div 8) + k" using k assms(2) by (simp add: right_diff_distrib')
  then have "(2 ^ 32 + 8 - nb) mod 8 = k mod 8" by (metis mod_mult_self4)
  then show "bits_to_skip nb = P mod 8" using \<open>P mod 8 = k\<close> k(1) by (simp add: bits_to_skip_def)
qed

text \<open>The first refill of a call reads four bytes.\<close>

lemma first_refill:
  assumes "inp + 4 \<le> end_ptr" "mapped m inp (end_ptr - inp)" "skip < 8"
  shows "\<exists>bits. refill_loop m end_ptr inp 0 0 = Some (inp + 4, bits, 32) \<and>
    ready m inp end_ptr (8 * inp + skip) (inp + 4) (drop_bit skip bits) (32 - skip)"
proof -
  have k: "refill_bytes end_ptr inp 0 = 4" using assms(1) by (simp add: refill_bytes_def)
  have le: "inp \<le> end_ptr" using assms(1) by simp
  obtain bits where r: "refill_loop m end_ptr inp 0 0 = Some (inp + 4, bits, 32)" "window m (inp + 4) bits 32"
    using refill_loop_window [OF window_0 le assms(2)] by (auto simp: k)
  have "held m inp end_ptr (8 * inp) (inp + 4) bits 32" using r(2) assms(1) by (simp add: held_def)
  from held_drop [OF this, of skip] show ?thesis using r(1) assms(3) by (auto simp: ready_def)
qed

lemma huff_block_ok:
  assumes e: "block_env st ll lc dl dc inp end_ptr" "loop_env st inp end_ptr (d_out st) m"
    and i: "inp + 4 \<le> end_ptr" "skip_bits st < 8"
    and t: "toks_ok ll dl (hist st m (d_out st)) ts" "ll ! 256 \<noteq> 0"
      "bits_at m (8 * inp + skip_bits st) (block_bits ll lc dl dc ts)"
      "8 * inp + skip_bits st + length (block_bits ll lc dl dc ts) \<le> 8 * end_ptr"
    and out: "d_window_start st + length (toks_expand (hist st m (d_out st)) ts) \<le> d_out_end st"
  defines "x \<equiv> toks_expand (hist st m (d_out st)) ts" and "P \<equiv> 8 * inp + skip_bits st + length (block_bits ll lc dl dc ts)"
  shows "\<exists>st' m'. huff_block st inp end_ptr m = Some (NUM_DECODE_STATUS + (P div 8 - inp), st', m') \<and>
    bytes_at m' (d_window_start st) (length x) = x \<and> only_within m m' (d_out st) (d_out_end st) \<and>
    d_out st' = d_window_start st + length x \<and> skip_bits st' = P mod 8 \<and>
    g_crc st' = crc_bytes (g_crc_table st) (g_crc st) (drop (length (hist st m (d_out st))) x) \<and>
    g_isize st' = g_isize st + of_nat (d_window_start st + length x - d_out st) \<and>
    g_decode st' = (if last_block st then Trailer else Block_Start)"
proof -
  have mp: "mapped m inp (end_ptr - inp)" using e(2) by (simp add: loop_env_def)
  obtain bits where r: "refill_loop m end_ptr inp 0 0 = Some (inp + 4, bits, 32)"
    "ready m inp end_ptr (8 * inp + skip_bits st) (inp + 4) (drop_bit (skip_bits st) bits) (32 - skip_bits st)"
    using first_refill [OF i(1) mp i(2)] by blast
  obtain ptr' bits' nb' m' where l: "iterate (huff_round st end_ptr)
      (inp + 4, drop_bit (skip_bits st) bits, 32 - skip_bits st, d_out st, g_crc st, m) =
      Some (Huff_Exit None (ptr', bits', nb', d_window_start st + length x,
        crc_bytes (g_crc_table st) (g_crc st) (drop (length (hist st m (d_out st))) x), m'))"
    "held m' inp end_ptr P ptr' bits' nb'" "only_within m m' (d_out st) (d_out_end st)" "bytes_at m' (d_window_start st) (length x) = x"
    using huff_loop [OF e r(2) t _ out, of "g_crc st"] unfolding x_def P_def by auto
  have "8 * ptr' = P + nb'" "nb' \<le> 32" "8 * inp \<le> P" using l(2) by (simp_all add: held_def window_def)
  note sk = skip_consumed [OF this]
  show ?thesis
    using i(1) r(1) l(1,3,4) sk unfolding huff_block_def by (auto simp: Let_def)
qed

text \<open>C2: A compressed block decodes to its contents: when the tables have been built from the code lengths of the
  block, and the input holds the codes of its literals and matches with their extra bits and the end code,
  from the bit position the state remembers, then one call of huff\_block writes the expansion of the block
  behind the window, updates checksum and size, consumes the whole bytes of the block, remembers the bits
  of the last one and selects the next stage.\<close>

theorem inflate_block_roundtrip:
  assumes "gzip_arrays st0" "lit_base st0 = run_base 11 lit_extra" "dist_base st0 = run_base 5 dist_extra"
    and "dynamic_tables st0 = Some st"
    and "inp + 4 \<le> end_ptr" "skip_bits st < 8" "mapped m inp (end_ptr - inp)"
    and "mapped m (d_window_start st) (d_out_end st - d_window_start st)" "d_window_start st \<le> d_out st"
    and "end_ptr \<le> d_window_start st \<or> d_out_end st \<le> inp"
    and "lit_lengths st ! 256 \<noteq> 0"
    and "h = bytes_at m (d_window_start st) (d_out st - d_window_start st)"
    and "toks_ok (lit_lengths st) (dist_lengths st) h ts"
    and "bs = block_bits (lit_lengths st) (lit_codes st) (dist_lengths st) (dist_codes st) ts"
    and "bits_at m (8 * inp + skip_bits st) bs" "P = 8 * inp + skip_bits st + length bs" "P \<le> 8 * end_ptr"
    and "d_window_start st + length (toks_expand h ts) \<le> d_out_end st"
  shows "\<exists>st' m'. huff_block st inp end_ptr m = Some (NUM_DECODE_STATUS + (P div 8 - inp), st', m') \<and>
    bytes_at m' (d_window_start st) (length (toks_expand h ts)) = toks_expand h ts \<and>
    only_within m m' (d_out st) (d_out_end st) \<and>
    d_out st' = d_window_start st + length (toks_expand h ts) \<and> skip_bits st' = P mod 8 \<and>
    g_crc st' = crc_bytes (g_crc_table st) (g_crc st) (drop (length h) (toks_expand h ts)) \<and>
    g_isize st' = g_isize st + of_nat (length (toks_expand h ts) - length h) \<and>
    g_decode st' = (if last_block st then Trailer else Block_Start)"
proof -
  have t: "tables_ok 286 (lit_lengths st) (lit_codes st) (dectable_lit st) (lit_oloff st) (lit_overlength st)"
    "tables_ok 30 (dist_lengths st) (dist_codes st) (dectable_dist st) (dist_oloff st) (dist_overlength st)" "bases_ok st"
    using dynamic_tables_ok(2) [OF assms(1,4)] assms(2,3) by (auto simp: same_rest_def bases_ok_def)
  have e: "block_env st (lit_lengths st) (lit_codes st) (dist_lengths st) (dist_codes st) inp end_ptr"
    using t assms(10) by (simp add: block_env_def)
  have le: "loop_env st inp end_ptr (d_out st) m" using assms(7-9) by (simp add: loop_env_def)
  have "d_window_start st + length (toks_expand h ts) - d_out st = length (toks_expand h ts) - length h"
    using assms(9,12) by simp
  then show ?thesis
    using huff_block_ok [OF e le assms(5,6), of ts] assms(11-) by auto
qed

text \<open>A block that contains the letter a twice: the codes of the letter and of the end are one bit long.\<close>

definition sample_lengths :: "nat list" where
  "sample_lengths = (replicate 286 0)[97 := 1, 256 := 1]"

definition sample_gzip :: gzip_dec_state where
  "sample_gzip = \<lparr>d_window_start = 32, d_out = 32, d_out_end = 40, g_decode = Huff_Block, g_crc_table = crc_table, g_crc = 0,
     g_isize = 0, skip_bits = 0, last_block = False, lit_lengths = sample_lengths, dist_lengths = replicate 30 0,
     lit_codes = replicate 286 0, dist_codes = replicate 30 0, lit_overlength = replicate 286 0, dist_overlength = replicate 30 0,
     lit_oloff = [], dist_oloff = [], lit_base = run_base 11 lit_extra, dist_base = run_base 5 dist_extra,
     dectable_dist = [], dectable_lit = []\<rparr>"

definition sample_input :: mem where
  "sample_input = [16 \<mapsto> 4, 17 \<mapsto> 0, 18 \<mapsto> 0, 19 \<mapsto> 0, 32 \<mapsto> 0, 33 \<mapsto> 0, 34 \<mapsto> 0, 35 \<mapsto> 0, 36 \<mapsto> 0, 37 \<mapsto> 0, 38 \<mapsto> 0, 39 \<mapsto> 0]"

lemma sample_lengths_nth: "sy < 286 \<Longrightarrow> sample_lengths ! sy = (if sy = 97 \<or> sy = 256 then 1 else 0)" "length sample_lengths = 286"
  by (simp_all add: sample_lengths_def nth_list_update)

lemma sample_arrays: "gzip_arrays sample_gzip"
proof -
  have "l \<le> 15" if l: "l \<in> set sample_lengths" for l
  proof -
    obtain i where "i < 286" "l = sample_lengths ! i" using l by (auto simp: in_set_conv_nth sample_lengths_nth(2))
    then show ?thesis by (simp add: sample_lengths_nth(1))
  qed
  then show ?thesis by (simp add: gzip_arrays_def sample_gzip_def sample_lengths_nth(2))
qed

lemma sample_kraft: "kraft_sum 286 sample_lengths \<le> 2 ^ 15" "kraft_sum 30 (replicate 30 0) \<le> 2 ^ 15"
proof -
  have "kraft_sum 286 sample_lengths = (\<Sum>a \<in> {97, 256}. 2 ^ (15 - sample_lengths ! a))"
    unfolding kraft_sum_def sum_list_distinct_conv_sum_set [OF distinct_filter [OF distinct_upt]]
    by (rule sum.cong) (auto simp: sample_lengths_nth split: if_splits)
  then show "kraft_sum 286 sample_lengths \<le> 2 ^ 15" by (simp add: sample_lengths_nth)
  have "filter (\<lambda>a. replicate 30 0 ! a \<noteq> (0 :: nat)) [0..<30] = []" by (simp add: filter_empty_conv)
  then show "kraft_sum 30 (replicate 30 0) \<le> 2 ^ 15" by (simp only: kraft_sum_def) simp
qed

lemma sample_canonical: "canonical 286 sample_lengths 97 = 0" "canonical 286 sample_lengths 256 = 2 ^ 14"
proof -
  have "{a. a < 286 \<and> before sample_lengths a 97} = {}" "{a. a < 286 \<and> before sample_lengths a 256} = {97}"
    by (auto simp: before_def sample_lengths_nth split: if_splits)
  then show "canonical 286 sample_lengths 97 = 0" "canonical 286 sample_lengths 256 = 2 ^ 14"
    by (simp_all add: canonical_set sample_lengths_nth)
qed

lemma frac_one_bit: "(\<And>j. bit c j \<Longrightarrow> j < 1) \<Longrightarrow> frac c = (if bit c 0 then 2 ^ 14 else 0)"
proof -
  assume c: "\<And>j. bit c j \<Longrightarrow> j < 1"
  have "frac c = (\<Sum>i<(15 :: nat). if i = 0 then (if bit c 0 then 2 ^ 14 else 0 :: nat) else 0)"
    unfolding frac_def
  proof (rule sum.cong)
    fix i :: nat
    show "(if bit c i then 2 ^ (14 - i) else 0) = (if i = 0 then (if bit c 0 then 2 ^ 14 else 0 :: nat) else 0)"
      using c [of i] by (cases "i = 0") auto
  qed simp
  also have "\<dots> = (if bit c 0 then 2 ^ 14 else 0)" by (subst sum.delta) simp_all
  finally show ?thesis .
qed

theorem inflate_block_roundtrip_witness:
  "\<exists>st st' m'. dynamic_tables sample_gzip = Some st \<and> huff_block st 16 20 sample_input = Some (NUM_DECODE_STATUS, st', m') \<and>
     bytes_at m' 32 2 = [97, 97] \<and> skip_bits st' = 3"
proof -
  have sg: "lit_lengths sample_gzip = sample_lengths" "dist_lengths sample_gzip = replicate 30 0"
    "lit_base sample_gzip = run_base 11 lit_extra" "dist_base sample_gzip = run_base 5 dist_extra"
    "d_window_start sample_gzip = 32" "d_out sample_gzip = 32" "d_out_end sample_gzip = 40" "skip_bits sample_gzip = 0"
    by (simp_all add: sample_gzip_def)
  obtain st where st: "dynamic_tables sample_gzip = Some st"
    using dynamic_tables_ok(1) [OF sample_arrays] sample_kraft by (auto simp: sg)
  note d = dynamic_tables_ok(2) [OF sample_arrays st]
  then have f: "lit_lengths st = sample_lengths" "dist_lengths st = replicate 30 0" "d_window_start st = 32" "d_out st = 32"
    "d_out_end st = 40" "skip_bits st = 0"
    by (auto simp: same_rest_def sg)
  have co: "codes_ok 286 sample_lengths (lit_codes st)" using d by (simp add: tables_ok_def sg)
  have c: "frac (lit_codes st ! sy) = canonical 286 sample_lengths sy" "frac (lit_codes st ! sy) = (if bit (lit_codes st ! sy) 0 then 2 ^ 14 else 0)"
    if "sy = 97 \<or> sy = 256" for sy
  proof -
    have sy: "sy < 286" "sample_lengths ! sy = 1" using that by (auto simp: sample_lengths_nth)
    then show "frac (lit_codes st ! sy) = canonical 286 sample_lengths sy" using co by (simp add: codes_ok_def)
    show "frac (lit_codes st ! sy) = (if bit (lit_codes st ! sy) 0 then 2 ^ 14 else 0)"
    proof (rule frac_one_bit)
      show "j < 1" if "bit (lit_codes st ! sy) j" for j
        using co sy that unfolding codes_ok_def by (metis zero_neq_one)
    qed
  qed
  have cb: "code_bits sample_lengths (lit_codes st) 97 = [False]" "code_bits sample_lengths (lit_codes st) 256 = [True]"
    using c [of 97] c [of 256] sample_canonical by (auto simp: code_bits_def sample_lengths_nth split: if_splits)
  let ?ts = "[Tok_Lit 97, Tok_Lit 97]"
  have bb: "block_bits sample_lengths (lit_codes st) (dist_lengths st) (dist_codes st) ?ts = [False, False, True]"
    by (simp add: block_bits_def cb)
  have bits: "bits_at sample_input 128 [False, False, True]"
    by (auto simp: bits_at_def sbit_def sample_input_def less_Suc_eq numeral_3_eq_3 bit_numeral_rec)
  have mp: "mapped sample_input 16 4" "mapped sample_input 32 8"
    by (auto simp: mapped_def sample_input_def atLeastLessThan_iff)
  have ex: "toks_expand [] ?ts = [97, 97]" by (simp add: toks_expand_def)
  have "\<exists>st' m'. huff_block st 16 20 sample_input = Some (NUM_DECODE_STATUS + (131 div 8 - 16), st', m') \<and>
     bytes_at m' 32 (length [97, 97 :: u8]) = [97, 97] \<and> skip_bits st' = 131 mod 8"
    using inflate_block_roundtrip [OF sample_arrays sg(3,4) st, where inp = 16 and end_ptr = 20 and m = sample_input and h = "[]" and ts = ?ts
        and bs = "[False, False, True]" and P = 131, unfolded f ex] bb bits mp
    by (auto simp: f sample_lengths_nth)
  moreover have "length [97, 97 :: u8] = 2" "131 div 8 - 16 = (0 :: nat)" "131 mod 8 = (3 :: nat)" by simp_all
  ultimately show ?thesis using st by (simp only: add_0_right) blast
qed

end
