(* ===== verification/Gzip.thy ===== *)
theory Gzip
  imports Inflate_Block Decompress_Driver
begin

text \<open>
  The gzip decompressor as the driver of dramstage/decompression.c uses it: whole files of stored
  blocks, and the inputs that are valid gzip but are not decoded, because of the header fields, the
  tables of the fixed codes or the number of bytes a call consumes.
\<close>

section \<open>The decompressor\<close>

definition gzip_set_out :: "nat \<Rightarrow> nat \<Rightarrow> gzip_dec_state \<Rightarrow> gzip_dec_state" where
  "gzip_set_out out out_end st = st\<lparr>d_window_start := out, d_out := out, d_out_end := out_end\<rparr>"

definition gzip_decompressor :: "gzip_dec_state decomp" where
  "gzip_decompressor = \<lparr>dc_probe = gzip_probe, dc_init = gzip_init, dc_decode = gzip_decode, dc_null = gzip_null,
     dc_set_out = gzip_set_out, dc_out = d_out\<rparr>"

section \<open>Format\<close>

definition stored_block :: "bool \<Rightarrow> u8 list \<Rightarrow> u8 list" where
  "stored_block final bs = (if final then 1 else 0) # le_bytes 2 (of_nat (length bs) :: u16) @
     le_bytes 2 (NOT (of_nat (length bs)) :: u16) @ bs"

fun stored_blocks :: "u8 list list \<Rightarrow> u8 list" where
  "stored_blocks [] = []"
| "stored_blocks [bs] = stored_block True bs"
| "stored_blocks (bs # bss) = stored_block False bs @ stored_blocks bss"

definition crc32 :: "u8 list \<Rightarrow> u32" where
  "crc32 bs = crc_bytes crc_table 0xffffffff bs XOR 0xffffffff"

definition gzip_header :: "u8 list \<Rightarrow> u8 list" where
  "gzip_header rest = [31, 139, 8, 0] @ rest"

definition gzip_file :: "u8 list \<Rightarrow> u8 list list \<Rightarrow> u8 list" where
  "gzip_file rest bss = gzip_header rest @ stored_blocks bss @ le_bytes 4 (crc32 (concat bss)) @
     le_bytes 4 (of_nat (length (concat bss)) :: u32)"

section \<open>Stages\<close>

lemma window_header:
  assumes "window m (inp + 4) bits 32" "m inp = Some b"
  shows "bits AND 7 = ucast (b AND 7)"
proof (rule bit_word_eqI)
  fix i assume i: "i < LENGTH(32)"
  have m7: "7 = (mask 3 :: u32)" "7 = (mask 3 :: u8)" by (simp_all add: mask_eq_exp_minus_1)
  show "bit (bits AND 7) i = bit (ucast (b AND 7) :: u32) i"
  proof (cases "i < 3")
    case True
    then have "bit bits i \<longleftrightarrow> bit b i"
      using window_bit [OF assms(1), of i] assms(2) by (simp add: sbit_def)
    then show ?thesis using True by (simp add: m7 bit_and_iff bit_mask_iff bit_ucast_iff)
  qed (simp add: m7 bit_and_iff bit_mask_iff bit_ucast_iff)
qed

lemma block_start_stored:
  assumes "inp + 4 \<le> e" "mapped m inp (e - inp)" "m inp = Some (if final then 1 else 0)" "skip_bits st = 0"
  shows "block_start st inp e m = Some (NUM_DECODE_STATUS + 1,
    st\<lparr>last_block := final, g_decode := Raw_Block, skip_bits := 0\<rparr>, m)"
proof -
  obtain bits where r: "refill_loop m e inp 0 0 = Some (inp + 4, bits, 32)" "ready m inp e (8 * inp + 0) (inp + 4) (drop_bit 0 bits) (32 - 0)"
    using first_refill [OF assms(1,2), of 0] by auto
  have "bits AND 7 = (if final then 1 else 0)"
    using window_header [of m inp bits, OF _ assms(3)] r(2) by (auto simp: ready_def held_def)
  then show ?thesis
    using assms(1,4) r(1) by (simp add: block_start_def Let_def)
qed

lemma raw_copy_ok:
  assumes "mem_holds m inp bs" "mapped m out (length bs)" "inp + length bs \<le> out \<or> out + length bs \<le> inp"
  shows "raw_copy tab (length bs) inp out crc m = Some (crc_bytes tab crc bs, mem_write m out bs)"
  using assms
proof (induction bs arbitrary: inp out crc m)
  case (Cons b bs)
  have mp: "mapped m out (length [b])" by (rule mapped_sub [OF Cons.prems(2)]) simp_all
  let ?m = "mem_write m out [b]"
  have ow: "only_within m ?m out (out + 1)" using dom_mem_write [OF mp] by (auto simp: only_within_def mem_write_def)
  have h: "mem_holds ?m (inp + 1) bs"
    using mem_holds_only_within [OF ow, of "inp + 1" bs] Cons.prems by auto
  have mp': "mapped ?m (out + 1) (length bs)"
    using only_within_mapped [OF ow] mapped_sub [OF Cons.prems(2), of "out + 1" "length bs"] by simp
  have "mem_write ?m (out + 1) bs = mem_write m out (b # bs)"
    by (rule ext) (auto simp: mem_write_def nth_Cons' le_Suc_eq)
  then show ?case
    using Cons.IH [OF h mp', of "crc_update tab crc b"] Cons.prems(1,3) store_bytes_mapped [OF mp]
    by (auto simp: load8_def crc_bytes_def)
next
  case Nil
  have "mem_write m out [] = m" by (rule ext) (auto simp: mem_write_def)
  then show ?case by (simp add: crc_bytes_def)
qed

lemma raw_block_ok:
  assumes h: "mem_holds m inp (le_bytes 2 (of_nat (length bs) :: u16) @ le_bytes 2 (NOT (of_nat (length bs)) :: u16) @ bs)"
    and l: "length bs < 65536" "inp + 4 + length bs \<le> e" "d_out st + length bs \<le> d_out_end st"
    and mp: "mapped m (d_out st) (length bs)" "e \<le> d_out st \<or> d_out_end st \<le> inp"
  shows "raw_block st inp e m = Some (NUM_DECODE_STATUS + 4 + length bs,
    st\<lparr>g_decode := (if last_block st then Trailer else Block_Start), d_out := d_out st + length bs,
      g_crc := crc_bytes (g_crc_table st) (g_crc st) bs, g_isize := g_isize st + of_nat (length bs)\<rparr>,
    mem_write m (d_out st) bs)"
proof -
  let ?n = "of_nat (length bs) :: u16"
  have n: "unat ?n = length bs" using l(1) by (simp add: unat_of_nat)
  have ld: "load_le 2 m inp = Some ?n" "load_le 2 m (inp + 2) = Some (NOT ?n)"
    using h load_le_holds [of m inp "le_bytes 2 ?n" 2, where 'a = 16] load_le_holds [of m "inp + 2" "le_bytes 2 (NOT ?n)" 2, where 'a = 16]
    by (simp_all add: le_word_le_bytes)
  have hb: "mem_holds m (inp + 4) bs" using h by (simp add: eval_nat_numeral)
  have c: "raw_copy (g_crc_table st) (length bs) (inp + 4) (d_out st) (g_crc st) m =
      Some (crc_bytes (g_crc_table st) (g_crc st) bs, mem_write m (d_out st) bs)"
    by (rule raw_copy_ok [OF hb mp(1)]) (use l mp(2) in linarith)
  have "ucast ?n = (of_nat (length bs) :: u32)"
    using l(1) by (intro word_unat_eq_iff [THEN iffD2]) (simp add: unsigned_ucast_eq n unat_of_nat take_bit_nat_eq_self_iff)
  then show ?thesis
    using l ld c n by (simp add: raw_block_def Let_def)
qed

lemma trailer_ok:
  assumes h: "mem_holds m inp (le_bytes 4 (g_crc st XOR 0xffffffff) @ le_bytes 4 (g_isize st))" and "inp + 8 \<le> e" "skip_bits st = 0"
  shows "trailer st inp e m = Some (NUM_DECODE_STATUS + 8, st\<lparr>g_decode := Gzip_Null\<rparr>, m)"
proof -
  have "load_le 4 m inp = Some (g_crc st XOR 0xffffffff)" "load_le 4 m (inp + 4) = Some (g_isize st)"
    using h load_le_holds [of m inp "le_bytes 4 (g_crc st XOR 0xffffffff)" 4, where 'a = 32]
      load_le_holds [of m "inp + 4" "le_bytes 4 (g_isize st)" 4, where 'a = 32]
    by (simp_all add: le_word_le_bytes)
  then show ?thesis using assms(2,3) by (simp add: trailer_def)
qed

section \<open>Whole files through the driver\<close>

text \<open>A decode call that consumes bytes is one round of the driver on a complete input.\<close>

abbreviation "gzip_loop st p e m \<equiv> decode_loop gzip_decode gzip_null async_pump_dummy st
  \<lparr>buf_start = p, buf_end = e\<rparr> \<lparr>buf_start = p, buf_end = e\<rparr> m"

lemma gzip_loop_step:
  assumes "gzip_decode st p e m = Some (NUM_DECODE_STATUS + k, st', m')" "0 < k" "p + k \<le> e" "0 < p" "g_decode st \<noteq> Gzip_Null"
  shows "gzip_loop st p e m = gzip_loop st' (p + k) e m'"
  using assms by (subst decode_loop_unfold)
    (simp add: decode_step_def gzip_null_def async_pump_dummy_def buf_error_def Let_def decode_status_defs)

lemma gzip_loop_end:
  assumes "g_decode st = Gzip_Null"
  shows "gzip_loop st p e m = Some (iost_num IOST_OK, st, \<lparr>buf_start = p, buf_end = e\<rparr>, m)"
  using assms by (subst decode_loop_unfold) (simp add: decode_step_def gzip_null_def)

lemma length_stored_block: "length (stored_block final bs) = 5 + length bs"
  by (simp add: stored_block_def)

lemma gzip_loop_block:
  assumes st: "g_decode st = Block_Start" "skip_bits st = 0"
    and h: "mem_holds m p (stored_block final bs)" "length bs < 65536" "p + length (stored_block final bs) \<le> e" "0 < p"
    and out: "d_out st + length bs \<le> d_out_end st" "mapped m (d_out st) (length bs)" "e \<le> d_out st \<or> d_out_end st \<le> p"
    and mp: "mapped m p (e - p)"
  shows "gzip_loop st p e m =
    gzip_loop (st\<lparr>last_block := final, skip_bits := 0, g_decode := (if final then Trailer else Block_Start),
        d_out := d_out st + length bs, g_crc := crc_bytes (g_crc_table st) (g_crc st) bs, g_isize := g_isize st + of_nat (length bs)\<rparr>)
      (p + length (stored_block final bs)) e (mem_write m (d_out st) bs)"
proof -
  have l: "p + 5 + length bs \<le> e" using h(3) by (simp add: length_stored_block)
  have "m p = Some (if final then 1 else 0)" using h(1) by (simp add: stored_block_def)
  then have "block_start st p e m = Some (NUM_DECODE_STATUS + 1, st\<lparr>last_block := final, g_decode := Raw_Block, skip_bits := 0\<rparr>, m)"
    using block_start_stored [OF _ mp _ st(2), of final] l by simp
  then have 1: "gzip_loop st p e m = gzip_loop (st\<lparr>last_block := final, g_decode := Raw_Block, skip_bits := 0\<rparr>) (p + 1) e m"
    using gzip_loop_step [of st p e m 1] st(1) h(4) l by (simp add: gzip_decode_def)
  let ?st = "st\<lparr>last_block := final, g_decode := Raw_Block, skip_bits := 0\<rparr>"
  have "raw_block ?st (p + 1) e m = Some (NUM_DECODE_STATUS + 4 + length bs,
    ?st\<lparr>g_decode := (if final then Trailer else Block_Start), d_out := d_out st + length bs,
      g_crc := crc_bytes (g_crc_table st) (g_crc st) bs, g_isize := g_isize st + of_nat (length bs)\<rparr>, mem_write m (d_out st) bs)"
    using raw_block_ok [of m "p + 1" bs e ?st] h(1,2) l out by (auto simp: stored_block_def)
  then have "gzip_loop ?st (p + 1) e m = gzip_loop (?st\<lparr>g_decode := (if final then Trailer else Block_Start), d_out := d_out st + length bs,
      g_crc := crc_bytes (g_crc_table st) (g_crc st) bs, g_isize := g_isize st + of_nat (length bs)\<rparr>) (p + 1 + (4 + length bs)) e (mem_write m (d_out st) bs)"
    using gzip_loop_step [of ?st "p + 1" e m "4 + length bs"] h(4) l by (simp add: gzip_decode_def add.assoc)
  then show ?thesis
    using 1 by (simp add: length_stored_block ac_simps)
qed

lemma only_within_write: "mapped m a (length bs) \<Longrightarrow> only_within m (mem_write m a bs) a (a + length bs)"
  using dom_mem_write [of m a bs] by (auto simp: only_within_def mem_write_def)

lemma gzip_loop_blocks:
  assumes "bss \<noteq> []" "g_decode st = Block_Start" "skip_bits st = 0"
    and "mem_holds m p (stored_blocks bss)" "\<forall>bs \<in> set bss. length bs < 65536" "p + length (stored_blocks bss) \<le> e" "0 < p"
    and "d_out st + length (concat bss) \<le> d_out_end st" "mapped m (d_out st) (length (concat bss))"
    and "e \<le> d_out st \<or> d_out_end st \<le> p" "mapped m p (e - p)" "g_crc_table st = crc_table"
  shows "\<exists>st' m'. gzip_loop st p e m = gzip_loop st' (p + length (stored_blocks bss)) e m' \<and>
    g_decode st' = Trailer \<and> skip_bits st' = 0 \<and> d_out st' = d_out st + length (concat bss) \<and>
    g_crc st' = crc_bytes crc_table (g_crc st) (concat bss) \<and> g_isize st' = g_isize st + of_nat (length (concat bss)) \<and>
    only_within m m' (d_out st) (d_out_end st) \<and> bytes_at m' (d_out st) (length (concat bss)) = concat bss"
  using assms
proof (induction bss arbitrary: st m p rule: stored_blocks.induct)
  case 1
  then show ?case by simp
next
  case (2 bs)
  have ow: "only_within m (mem_write m (d_out st) bs) (d_out st) (d_out_end st)"
    by (rule only_within_mono [OF only_within_write]) (use 2 in simp_all)
  have "bytes_at (mem_write m (d_out st) bs) (d_out st) (length bs) = bs"
    by (rule nth_equalityI) (simp_all add: mem_write_def)
  then show ?case
    using gzip_loop_block [of st m p True bs e] 2 ow by (auto intro!: exI)
next
  case (3 bs b2 bss)
  let ?bss = "b2 # bss" and ?m = "mem_write m (d_out st) bs"
  let ?st = "st\<lparr>last_block := False, skip_bits := 0, g_decode := Block_Start, d_out := d_out st + length bs,
    g_crc := crc_bytes (g_crc_table st) (g_crc st) bs, g_isize := g_isize st + of_nat (length bs)\<rparr>"
  let ?p = "p + length (stored_block False bs)"
  have mpb: "mapped m (d_out st) (length bs)" by (rule mapped_sub [OF 3(10)]) simp_all
  have ow: "only_within m ?m (d_out st) (d_out st + length bs)" by (rule only_within_write [OF mpb])
  have h: "mem_holds m p (stored_block False bs)" "mem_holds m ?p (stored_blocks ?bss)" using 3(5) by simp_all
  have h': "mem_holds ?m ?p (stored_blocks ?bss)"
    using mem_holds_only_within [OF ow, of ?p "stored_blocks ?bss"] h(2) 3(7,9,11) by auto
  have 1: "gzip_loop st p e m = gzip_loop ?st ?p e ?m"
    using gzip_loop_block [of st m p False bs e] 3(3,4,6-9,11,12) h(1) mpb by simp
  have "\<exists>st' m'. gzip_loop ?st ?p e ?m = gzip_loop st' (?p + length (stored_blocks ?bss)) e m' \<and>
    g_decode st' = Trailer \<and> skip_bits st' = 0 \<and> d_out st' = d_out ?st + length (concat ?bss) \<and>
    g_crc st' = crc_bytes crc_table (g_crc ?st) (concat ?bss) \<and> g_isize st' = g_isize ?st + of_nat (length (concat ?bss)) \<and>
    only_within ?m m' (d_out ?st) (d_out_end ?st) \<and> bytes_at m' (d_out ?st) (length (concat ?bss)) = concat ?bss"
  proof (rule 3(1))
    show "mapped ?m (d_out ?st) (length (concat ?bss))"
      using only_within_mapped [OF ow] mapped_sub [OF 3(10), of "d_out st + length bs"] by simp
    show "mapped ?m ?p (e - ?p)" using only_within_mapped [OF ow] mapped_sub [OF 3(12), of ?p] 3(7) by simp
  qed (use h' 3 in \<open>auto simp: length_stored_block\<close>)
  then obtain st' m' where r: "gzip_loop ?st ?p e ?m = gzip_loop st' (?p + length (stored_blocks ?bss)) e m'"
    "g_decode st' = Trailer" "skip_bits st' = 0" "d_out st' = d_out st + length bs + length (concat ?bss)"
    "g_crc st' = crc_bytes crc_table (crc_bytes crc_table (g_crc st) bs) (concat ?bss)"
    "g_isize st' = g_isize st + of_nat (length bs) + of_nat (length (concat ?bss))"
    "only_within ?m m' (d_out st + length bs) (d_out_end st)" "bytes_at m' (d_out st + length bs) (length (concat ?bss)) = concat ?bss"
    using 3(13) by auto
  have "bytes_at m' (d_out st) (length bs) = bs"
    using only_within_bytes [OF r(7), of "d_out st" "length bs"] by (simp, intro nth_equalityI) (simp_all add: mem_write_def)
  then have b: "bytes_at m' (d_out st) (length (concat (bs # ?bss))) = concat (bs # ?bss)"
    using r(8) bytes_at_append [of m' "d_out st" "length bs" "length (concat ?bss)"] by simp
  have "only_within m m' (d_out st) (d_out_end st)"
    by (rule only_within_trans [OF only_within_mono [OF ow] r(7)]) (use 3(9) in simp_all)
  then show ?case
    using 1 r(1-6) b by (auto simp: crc_bytes_append add.assoc)
qed

lemma length_gzip_file: "length rest = 6 \<Longrightarrow> length (gzip_file rest bss) = 18 + length (stored_blocks bss)"
  by (simp add: gzip_file_def gzip_header_def)

lemma stored_blocks_length: "bss \<noteq> [] \<Longrightarrow> 5 \<le> length (stored_blocks bss)"
  by (cases bss rule: stored_blocks.cases) (simp_all add: length_stored_block)

lemma gzip_header_accepted:
  assumes h: "mem_holds m start (gzip_file rest bss)" and r: "length rest = 6" "bss \<noteq> []" "start + length (gzip_file rest bss) \<le> e"
  shows "gzip_probe m start e = Some (COMPR_PROBE_SIZE_UNKNOWN, None)"
    "gzip_init st m start e = Some (Some (start + 10), st\<lparr>g_crc_table := crc_table, lit_base := run_base 11 lit_extra,
       dist_base := run_base 5 dist_extra, skip_bits := 0, last_block := False, g_isize := 0, g_crc := 0xffffffff, g_decode := Block_Start\<rparr>)"
proof -
  have b: "m start = Some 31" "m (start + 1) = Some 139" "m (start + 2) = Some 8" "m (start + 3) = Some 0"
    using h by (simp_all add: gzip_file_def gzip_header_def eval_nat_numeral)
  have l: "start + 23 \<le> e" using r stored_blocks_length [OF r(2)] length_gzip_file [OF r(1), of bss] by simp
  show "gzip_probe m start e = Some (COMPR_PROBE_SIZE_UNKNOWN, None)"
    using b l by (simp add: gzip_probe_def load8_def Let_def)
  show "gzip_init st m start e = Some (Some (start + 10), st\<lparr>g_crc_table := crc_table, lit_base := run_base 11 lit_extra,
       dist_base := run_base 5 dist_extra, skip_bits := 0, last_block := False, g_isize := 0, g_crc := 0xffffffff, g_decode := Block_Start\<rparr>)"
    using b l by (simp add: gzip_init_def load8_def Let_def)
qed

text \<open>C13: A gzip file of stored blocks is unpacked by the driver: with the whole file in the buffer, decompress
  probes it, runs through header, block headers, blocks and trailer, accepts the CRC-32 of the data and its size,
  reports success and the end of the output, and the output is the concatenation of the blocks.\<close>

theorem gzip_stored_roundtrip:
  assumes "mem_holds m start (gzip_file rest bss)" "length rest = 6" "bss \<noteq> []" "\<forall>bs \<in> set bss. length bs < 65536"
    and "e = start + length (gzip_file rest bss)" "0 < start"
    and "out + length (concat bss) \<le> out_end" "mapped m out (length (concat bss))" "e \<le> out \<or> out_end \<le> start"
  shows "\<exists>a' m'. decompress (gzip_decompressor # ds) async_pump_dummy st out out_end \<lparr>buf_start = start, buf_end = e\<rparr> m =
      Some (iost_num IOST_OK, out + length (concat bss), a', m') \<and> bytes_at m' out (length (concat bss)) = concat bss"
proof -
  let ?b = "\<lparr>buf_start = start, buf_end = e\<rparr>"
  note hd = gzip_header_accepted [OF assms(1-3), of e, unfolded assms(5), OF le_refl]
  let ?st = "gzip_set_out out out_end (st\<lparr>g_crc_table := crc_table, lit_base := run_base 11 lit_extra,
       dist_base := run_base 5 dist_extra, skip_bits := 0, last_block := False, g_isize := 0, g_crc := 0xffffffff, g_decode := Block_Start\<rparr>)"
  have e: "start + 10 + length (stored_blocks bss) + 8 = e" using assms(5) length_gzip_file [OF assms(2), of bss] by simp
  have h: "mem_holds m (start + 10) (stored_blocks bss)"
    "mem_holds m (start + 10 + length (stored_blocks bss)) (le_bytes 4 (crc32 (concat bss)) @ le_bytes 4 (of_nat (length (concat bss)) :: u32))"
    using assms(1,2) by (simp_all add: gzip_file_def gzip_header_def eval_nat_numeral ac_simps)
  have mp: "mapped m (start + 10) (e - (start + 10))"
    by (rule mapped_sub [OF mem_holds_mapped [OF assms(1)]]) (use assms(5) e in simp_all)
  obtain st' m' where bl: "gzip_loop ?st (start + 10) e m = gzip_loop st' (start + 10 + length (stored_blocks bss)) e m'"
    "g_decode st' = Trailer" "skip_bits st' = 0" "d_out st' = out + length (concat bss)"
    "g_crc st' = crc_bytes crc_table 0xffffffff (concat bss)" "g_isize st' = of_nat (length (concat bss))"
    "only_within m m' out out_end" "bytes_at m' out (length (concat bss)) = concat bss"
    using gzip_loop_blocks [OF assms(3), of ?st m "start + 10" e] assms(4,6-9) h(1) mp e
    by (auto simp: gzip_set_out_def)
  have ht: "mem_holds m' (start + 10 + length (stored_blocks bss)) (le_bytes 4 (g_crc st' XOR 0xffffffff) @ le_bytes 4 (g_isize st'))"
    using mem_holds_only_within [OF bl(7), of "start + 10 + length (stored_blocks bss)" "le_bytes 4 (crc32 (concat bss)) @ le_bytes 4 (of_nat (length (concat bss)) :: u32)"]
      h(2) assms(9) e by (auto simp: bl(5,6) crc32_def)
  let ?st2 = "st'\<lparr>g_decode := Gzip_Null\<rparr>"
  have "gzip_decode st' (start + 10 + length (stored_blocks bss)) e m' = Some (NUM_DECODE_STATUS + 8, ?st2, m')"
    using trailer_ok [OF ht, of e] bl(2,3) e by (simp add: gzip_decode_def)
  then have "gzip_loop ?st (start + 10) e m = gzip_loop ?st2 (start + 10 + length (stored_blocks bss) + 8) e m'"
    using gzip_loop_step [of st' "start + 10 + length (stored_blocks bss)" e m' 8] bl(1,2) e by simp
  then have lp: "gzip_loop ?st (start + 10) e m = Some (iost_num IOST_OK, ?st2, \<lparr>buf_start = e, buf_end = e\<rparr>, m')"
    using gzip_loop_end [of ?st2 e e m'] e by simp
  have "probe_loop gzip_probe async_pump_dummy ?b ?b m = Some (Inr COMPR_PROBE_SIZE_UNKNOWN, ?b, ?b, m)"
    using hd(1) assms(5) by (simp add: probe_loop_def iterate.simps probe_step_def)
  then have "decompress (gzip_decompressor # ds) async_pump_dummy st out out_end ?b m =
      Some (iost_num IOST_OK, out + length (concat bss), \<lparr>buf_start = e, buf_end = e\<rparr>, m')"
    using hd(2) [of st] lp e assms(5) bl(4)
    by (simp add: decompress_def async_pump_dummy_def buf_error_def gzip_decompressor_def run_format_def Let_def cong: if_cong)
  then show ?thesis using bl(8) by blast
qed

definition sample_file :: "u8 list" where
  "sample_file = gzip_file [0, 0, 0, 0, 0, 3] [[104, 105], [33]]"

definition file_mem :: mem where
  "file_mem = (\<lambda>x. if 16 \<le> x \<and> x < 16 + length sample_file then Some (sample_file ! (x - 16)) else if 64 \<le> x \<and> x < 72 then Some 0 else None)"

theorem gzip_stored_roundtrip_witness:
  "\<exists>a' m'. decompress [gzip_decompressor] async_pump_dummy sample_gzip 64 72 \<lparr>buf_start = 16, buf_end = 47\<rparr> file_mem =
      Some (iost_num IOST_OK, 67, a', m') \<and> bytes_at m' 64 3 = [104, 105, 33]"
proof -
  have l: "length sample_file = 31" by (simp add: sample_file_def length_gzip_file length_stored_block)
  have "mem_holds file_mem 16 (gzip_file [0, 0, 0, 0, 0, 3] [[104, 105], [33]])"
    unfolding sample_file_def [symmetric] by (auto simp: mem_holds_nth file_mem_def)
  moreover have "mapped file_mem 64 (length (concat [[104, 105], [33 :: u8]]))"
    by (auto simp: mapped_def file_mem_def l)
  ultimately show ?thesis
    using gzip_stored_roundtrip [of file_mem 16 "[0, 0, 0, 0, 0, 3]" "[[104, 105], [33]]" 47 64 72 "[]" sample_gzip] l
    by (simp add: sample_file_def numeral_3_eq_3)
qed

section \<open>The tables of the fixed codes\<close>

text \<open>Symbol and length of the fixed literal code that starts the nine bits v, first bit highest, after section 3.2.6.\<close>

definition rfc_fixed :: "nat \<Rightarrow> nat \<times> nat" where
  "rfc_fixed v =
    (if v div 4 < 24 then (256 + v div 4, 7)
     else if v div 2 < 192 then (v div 2 - 48, 8)
     else if v div 2 < 200 then (280 + (v div 2 - 192), 8)
     else (144 + (v - 400), 9))"

lemma of_nat_word_less:
  "v < 65536 \<Longrightarrow> k < 65536 \<Longrightarrow> (of_nat v :: u16) < of_nat k \<longleftrightarrow> v < k"
  by (simp add: word_less_nat_alt unat_of_nat)

lemma drop_bit_of_nat: "v < 65536 \<Longrightarrow> drop_bit k (of_nat v :: u16) = of_nat (v div 2 ^ k)"
proof (rule word_unat_eq_iff [THEN iffD2])
  assume v: "v < 65536"
  have "v div 2 ^ k < 65536" using v by (meson div_le_dividend le_less_trans)
  then show "unat (drop_bit k (of_nat v :: u16)) = unat (of_nat (v div 2 ^ k) :: u16)"
    using v by (simp add: unsigned_drop_bit_eq unat_of_nat) (simp add: drop_bit_eq_div take_bit_eq_mod)
qed

lemma fixed_lit_val_cases:
  assumes "v < 512"
  shows "fixed_lit_val (of_nat v) =
    (if v < 95 then dec_entry 7 (256 + v div 4)
     else if v < 383 then push_bit 4 (of_nat (v div 2) - 48) OR 8
     else if v < 395 then push_bit 4 (of_nat (v div 2) - 192 + 280) OR 8
     else if v < 399 then 10
     else push_bit 4 (of_nat v - 400 + 144) OR 9)"
proof -
  have c: "(of_nat v :: u16) < 0x5f \<longleftrightarrow> v < 95" "(of_nat v :: u16) < 0x17f \<longleftrightarrow> v < 383"
    "(of_nat v :: u16) < 0x18b \<longleftrightarrow> v < 395" "(of_nat v :: u16) < 0x18f \<longleftrightarrow> v < 399"
    using of_nat_word_less [of v 95] of_nat_word_less [of v 383] of_nat_word_less [of v 395] of_nat_word_less [of v 399] assms by simp_all
  have d: "drop_bit 2 (of_nat v :: u16) = of_nat (v div 4)" "drop_bit 1 (of_nat v :: u16) = of_nat (v div 2)"
    using drop_bit_of_nat [of v 2] drop_bit_of_nat [of v 1] assms by simp_all
  show ?thesis
    unfolding fixed_lit_val_def c d by (simp add: dec_entry_def or.commute add.commute)
qed

lemma fixed_lit_nth: "i < 512 \<Longrightarrow> fixed_lit_table ! i = fixed_lit_val (fixed_lit_rev i)"
proof -
  assume i: "i < 512"
  have "replicate 4 x = x # replicate 3 x" for x :: "u16 list" by (simp add: numeral_eq_Suc)
  then show ?thesis using i by (simp add: fixed_lit_table_def nth_append)
qed

text \<open>C38: The table of the fixed literal codes agrees with RFC 1951 except where a bound of its construction is
  off by one: nine bits that are the code of 279 followed by two ones give symbol 4095, that of literal 143
  followed by a one gives length symbol 279, and that of 285 followed by a one counts as unassigned; the
  reserved codes 286 and 287 count as unassigned, but 287 followed by a one gives literal 143.\<close>

theorem fixed_table_off_by_one:
  assumes "v < 512"
  shows "fixed_lit_val (of_nat v) =
    (if v = 0x5f then dec_entry 8 4095
     else if v = 0x17f then dec_entry 8 279
     else if v = 0x18b then 10
     else if v = 0x18f then dec_entry 9 143
     else if 286 \<le> fst (rfc_fixed v) then 10
     else dec_entry (snd (rfc_fixed v)) (fst (rfc_fixed v)))"
proof -
  have sub: "(of_nat a :: u16) - of_nat b = of_nat (a - b)" if "b \<le> a" for a b
    using that by (simp add: of_nat_diff)
  consider "v < 95" | "v = 95" | "96 \<le> v" "v < 383" | "v = 383" | "384 \<le> v" "v < 395" | "v = 395" | "396 \<le> v" "v < 399" | "v = 399" | "400 \<le> v"
    by linarith
  then show ?thesis
  proof cases
    case 1
    then have "v div 4 < 24" by auto
    then show ?thesis using 1 assms by (simp add: fixed_lit_val_cases rfc_fixed_def)
  next
    case 2
    then show ?thesis by (simp add: fixed_lit_val_def dec_entry_def mask_eq_exp_minus_1)
  next
    case 3
    then have "48 \<le> v div 2" "v div 2 < 192" "\<not> v div 4 < 24" by auto
    then show ?thesis
      using 3 assms sub [of 48 "v div 2"] by (simp add: fixed_lit_val_cases rfc_fixed_def dec_entry_def or.commute)
  next
    case 5
    then have d: "192 \<le> v div 2" "v div 2 < 198" "\<not> v div 4 < 24" by auto
    then have "(of_nat (v div 2) :: u16) - 192 + 280 = of_nat (280 + (v div 2 - 192))" using sub [of 192 "v div 2"] by simp
    then show ?thesis
      using 5 assms d by (simp add: fixed_lit_val_cases rfc_fixed_def dec_entry_def or.commute)
  next
    case 7
    then have "198 \<le> v div 2" "v div 2 < 200" "\<not> v div 4 < 24" by auto
    then show ?thesis using 7 assms by (auto simp: fixed_lit_val_cases rfc_fixed_def)
  next
    case 9
    then have d: "\<not> v div 2 < 200" "\<not> v div 4 < 24" by auto
    have "(of_nat v :: u16) - 400 + 144 = of_nat (144 + (v - 400))" using sub [of 400 v] 9 by simp
    then show ?thesis
      using 9 assms d by (simp add: fixed_lit_val_cases rfc_fixed_def dec_entry_def or.commute)
  qed (simp_all add: fixed_lit_val_def dec_entry_def)
qed

theorem fixed_table_off_by_one_witness:
  "fixed_lit_val 0x17f = dec_entry 8 279 \<and> rfc_fixed 0x17f = (143, 8) \<and> fixed_lit_val 0x30 = dec_entry 7 268"
  using fixed_table_off_by_one [of 383] fixed_table_off_by_one [of 48] by (simp add: rfc_fixed_def)

section \<open>Optional header fields\<close>

text \<open>C39: Files with an extra field are never accepted: init stops or gives up whatever follows; and a file whose
  header carries the checksum that RFC 1952 asks for is refused, because the comparison lacks the final
  complement.\<close>

theorem gzip_init_optional_fields:
  assumes "load8 m (inp + 3) = Some flags"
  shows "(flags AND FEXTRA \<noteq> 0 \<longrightarrow> \<not> (\<exists>content st'. gzip_init st m inp e = Some (Some content, st'))) \<and>
    (flags = FHCRC \<longrightarrow> inp + 18 \<le> e \<longrightarrow> mapped m inp 12 \<longrightarrow>
       load_le 2 m (inp + 10) = Some (ucast (crc32 (bytes_at m inp 10)) :: u16) \<longrightarrow>
       gzip_init st m inp e = Some (None, st\<lparr>g_crc_table := crc_table\<rparr>))"
proof (intro conjI impI)
  assume x: "flags AND FEXTRA \<noteq> 0"
  have s: "e < c' \<or> c' \<le> e" for c' by linarith
  have str: "init_string m c e = Some c' \<Longrightarrow> \<not> e \<le> c" for c c'
    by (auto simp: init_string_def split: if_splits bind_splits)
  show "\<not> (\<exists>content st'. gzip_init st m inp e = Some (Some content, st'))"
    using assms x by (auto simp: gzip_init_def Let_def split: if_splits bind_splits option.splits dest!: str)
next
  assume f: "flags = FHCRC" and a: "inp + 18 \<le> e" "mapped m inp 12"
    and l: "load_le 2 m (inp + 10) = Some (ucast (crc32 (bytes_at m inp 10)) :: u16)"
  have fl: "flags AND FEXTRA = 0" "flags AND FNAME = 0" "flags AND FCOMMENT = 0" "flags AND FHCRC \<noteq> 0"
    by (simp_all add: f FHCRC_def FEXTRA_def FNAME_def FCOMMENT_def)
  have mp: "mapped m inp 10" using a(2) by (rule mapped_sub) simp_all
  let ?c = "crc_bytes crc_table 0xffffffff (bytes_at m inp 10)"
  have "(ucast ?c :: u16) \<noteq> ucast (?c XOR 0xffffffff)"
  proof
    assume eq: "(ucast ?c :: u16) = ucast (?c XOR 0xffffffff)"
    have "bit (ucast ?c :: u16) 0 \<longleftrightarrow> \<not> bit (ucast (?c XOR 0xffffffff) :: u16) 0"
      by (simp add: bit_ucast_iff bit_xor_iff)
    then show False using eq by simp
  qed
  then show "gzip_init st m inp e = Some (None, st\<lparr>g_crc_table := crc_table\<rparr>)"
    using assms fl a(1) l mp by (simp add: gzip_init_def Let_def load_bytes_mapped crc32_def)
qed

definition flag_mem :: "u8 \<Rightarrow> mem" where
  "flag_mem f = (\<lambda>x. if x < 64 then Some (if x = 19 then f else 0) else None)"

definition hcrc_mem :: mem where
  "hcrc_mem = mem_write (flag_mem FHCRC) 26 (le_bytes 2 (ucast (crc32 (bytes_at (flag_mem FHCRC) 16 10)) :: u16))"

theorem gzip_init_optional_fields_witness:
  "\<not> (\<exists>content st'. gzip_init sample_gzip (flag_mem FEXTRA) 16 60 = Some (Some content, st')) \<and>
   gzip_init sample_gzip hcrc_mem 16 60 = Some (None, sample_gzip\<lparr>g_crc_table := crc_table\<rparr>)"
proof -
  let ?h = "bytes_at (flag_mem FHCRC) 16 10"
  have ow: "only_within (flag_mem FHCRC) hcrc_mem 26 28"
    unfolding hcrc_mem_def by (rule only_within_mono [OF only_within_write]) (auto simp: mapped_def flag_mem_def)
  have "bytes_at hcrc_mem 16 10 = ?h" by (rule only_within_bytes [OF ow]) simp
  moreover have "mem_holds hcrc_mem 26 (le_bytes 2 (ucast (crc32 ?h) :: u16))"
    by (simp add: mem_holds_nth hcrc_mem_def mem_write_def)
  then have "load_le 2 hcrc_mem 26 = Some (ucast (crc32 ?h) :: u16)"
    using load_le_holds [of hcrc_mem 26 "le_bytes 2 (ucast (crc32 ?h) :: u16)" 2, where 'a = 16] by (simp add: le_word_le_bytes)
  moreover have "mapped hcrc_mem 16 12" 
    unfolding only_within_mapped [OF ow] by (auto simp: mapped_def flag_mem_def)
  moreover have "load8 hcrc_mem 19 = Some FHCRC" using ow by (simp add: load8_def only_within_def flag_mem_def)
  ultimately have "gzip_init sample_gzip hcrc_mem 16 60 = Some (None, sample_gzip\<lparr>g_crc_table := crc_table\<rparr>)"
    using gzip_init_optional_fields [of hcrc_mem 16 FHCRC sample_gzip 60] by simp
  then show ?thesis
    using gzip_init_optional_fields [of "flag_mem FEXTRA" 16 FEXTRA sample_gzip 60] by (simp add: load8_def flag_mem_def FEXTRA_def)
qed

section \<open>Blocks that end in their first byte\<close>

lemma header_bits:
  assumes "bit (w :: u32) 1" "\<not> bit w 2"
  shows "unat (w AND 7) div 2 = 1"
proof -
  have "bit (unat w) 1" "\<not> bit (unat w) 2" using assms by (simp_all add: bit_unsigned_iff)
  then have "odd (unat w div 2)" "even (unat w div 4)" by (simp_all add: bit_iff_odd)
  then have "unat w mod 8 div 2 = 1" by presburger
  then show ?thesis using unat_and_mask [of w 3] by (simp add: mask_eq_exp_minus_1)
qed

text \<open>C40: The driver fails on every block with fixed codes that starts in the first five bits of a byte: its header
  ends in the same byte, block\_start consumes no byte and returns NUM\_DECODE\_STATUS, which the driver
  does not take for progress but uses to index its table of messages, behind the end.\<close>

theorem fixed_block_stops_driver:
  assumes "g_decode st = Block_Start" "skip_bits st \<le> 4" "mapped m p 4" "0 < p" "p + 4 \<le> e" "mapped m p (e - p)"
    and "m p = Some b" "drop_bit (skip_bits st) b AND 6 = 2"
  shows "(\<exists>st'. gzip_decode st p e m = Some (NUM_DECODE_STATUS, st', m)) \<and>
    decode_loop gzip_decode gzip_null pump st a \<lparr>buf_start = p, buf_end = e\<rparr> m = None"
proof -
  obtain bits where r: "refill_loop m e p 0 0 = Some (p + 4, bits, 32)"
    "ready m p e (8 * p + skip_bits st) (p + 4) (drop_bit (skip_bits st) bits) (32 - skip_bits st)"
    using first_refill [OF assms(5,6), of "skip_bits st"] assms(2) by auto
  let ?b = "drop_bit (skip_bits st) bits" and ?h = "drop_bit (skip_bits st) b"
  have h: "held m p e (8 * p + skip_bits st) (p + 4) ?b (32 - skip_bits st)" using r(2) by (simp add: ready_def)
  have "sbit m (8 * p + skip_bits st + i) = bit b (skip_bits st + i)" if "i < 3" for i
  proof -
    have "(8 * p + (skip_bits st + i)) div 8 = p" "(8 * p + (skip_bits st + i)) mod 8 = skip_bits st + i" using that assms(2) by simp_all
    then show ?thesis by (simp only: sbit_def add.assoc assms(7) option.sel)
  qed
  then have "bits_at m (8 * p + skip_bits st) (map (bit ?h) [0..<3])" by (simp add: bits_at_def bit_drop_bit_eq)
  from held_take [OF h this] have bit: "bit ?b i \<longleftrightarrow> bit ?h i" if "i < 3" for i using that assms(2) by simp
  have "bit ?h 1" "\<not> bit ?h 2"
    using arg_cong [OF assms(8), of "\<lambda>w. bit w 1"] arg_cong [OF assms(8), of "\<lambda>w. bit w 2"]
    by (simp_all add: bit_and_iff bit_numeral_rec bit_drop_bit_eq eval_nat_numeral)
  then have hd: "unat (?b AND 7) div 2 = 1" using bit by (intro header_bits) simp_all
  have tab: "fixed_lit_table ! 0 = 0x1007" "fixed_lit_table ! 0xc = 0x8" "fixed_lit_table ! 3 = push_bit 4 280 OR 8" "fixed_lit_table ! 0x13 = 0x909"
    by (simp_all add: fixed_lit_nth fixed_lit_rev_def bitrev_nibble_def fixed_lit_val_def)
  have c: "p + 4 - p - (32 - skip_bits st - 3 + 7) div 8 = 0" using assms(2) by auto
  have n: "\<not> 32 - skip_bits st < 3" using assms(2) by simp
  have d: "\<exists>st'. gzip_decode st p e m = Some (NUM_DECODE_STATUS, st', m)"
    using assms(1,2,5) r(1) hd tab c n by (simp add: gzip_decode_def block_start_def Let_def fixed_block_def)
  then have "decode_step gzip_decode gzip_null pump (st, a, \<lparr>buf_start = p, buf_end = e\<rparr>, m) = None"
    using assms(1,4) by (auto simp: decode_step_def gzip_null_def decode_status_defs)
  then show ?thesis using d by (subst decode_loop_unfold) simp
qed

theorem fixed_block_stops_driver_witness:
  "decode_loop gzip_decode gzip_null async_pump_dummy (sample_gzip\<lparr>g_decode := Block_Start\<rparr>)
     \<lparr>buf_start = 16, buf_end = 20\<rparr> \<lparr>buf_start = 16, buf_end = 20\<rparr> [16 \<mapsto> 3, 17 \<mapsto> 0, 18 \<mapsto> 0, 19 \<mapsto> 0] = None"
proof -
  have "mapped [16 \<mapsto> 3, 17 \<mapsto> 0, 18 \<mapsto> 0, 19 \<mapsto> 0] 16 4" by (auto simp: mapped_def)
  then show ?thesis
    using fixed_block_stops_driver [of "sample_gzip\<lparr>g_decode := Block_Start\<rparr>" "[16 \<mapsto> 3, 17 \<mapsto> 0, 18 \<mapsto> 0, 19 \<mapsto> 0]" 16 20 3
        async_pump_dummy "\<lparr>buf_start = 16, buf_end = 20\<rparr>"]
    by (simp add: sample_gzip_def)
qed

end
