(* ===== verification/Idbtool.thy ===== *)
theory Idbtool
  imports Levin_Prelude "HOL-Library.Multiset"
begin

text \<open>
  The host tool that builds boot images (tools/idbtool.c): the RC4 cipher of the ID block
  (tools/rc4.h), the read and write loops over file descriptors, and the three working modes.
\<close>

section \<open>RC4\<close>

text \<open>
  The state is an array of 258 bytes: the permutation, and the two indices in the last two.
\<close>

fun rc4_loop :: "u8 list \<Rightarrow> u8 \<Rightarrow> u8 \<Rightarrow> u8 list \<Rightarrow> (u8 list \<times> u8 \<times> u8 \<times> u8 list) option" where
  "rc4_loop [] i j state = Some ([], i, j, state)"
| "rc4_loop (x # buf) i j state = do {
     let i = i + 1;
     si \<leftarrow> get_at (unat i) state;
     let j = j + si;
     a \<leftarrow> get_at (unat i) state;
     b \<leftarrow> get_at (unat j) state;
     state \<leftarrow> upd_at (unat i) b state;
     state \<leftarrow> upd_at (unat j) a state;
     k \<leftarrow> get_at ((unat a + unat b) mod 256) state;
     (out, i, j, state) \<leftarrow> rc4_loop buf i j state;
     Some ((x XOR k) # out, i, j, state)
   }"

definition rc4 :: "u8 list \<Rightarrow> u8 list \<Rightarrow> (u8 list \<times> u8 list) option" where
  "rc4 buf state = do {
     i \<leftarrow> get_at 256 state;
     j \<leftarrow> get_at 257 state;
     (out, i, j, state) \<leftarrow> rc4_loop buf i j state;
     state \<leftarrow> upd_at 256 i state;
     state \<leftarrow> upd_at 257 j state;
     Some (out, state)
   }"

definition rc4_key :: "u8 list" where
  "rc4_key = [124,78,3,4,85,5,9,7,45,44,123,56,23,13,23,17]"

definition rc4_init :: "u8 list \<Rightarrow> u8 list option" where
  "rc4_init state = do {
     state \<leftarrow> mfold (\<lambda>i state. upd_at i (of_nat i) state) [0..<256] state;
     state \<leftarrow> upd_at 256 0 state;
     state \<leftarrow> upd_at 257 0 state;
     (j, state) \<leftarrow> mfold (\<lambda>i (j, state). do {
         si \<leftarrow> get_at i state;
         k \<leftarrow> get_at (i mod 16) rc4_key;
         let j = j + (si + k);
         tmp \<leftarrow> get_at i state;
         sj \<leftarrow> get_at (unat j) state;
         state \<leftarrow> upd_at i sj state;
         state \<leftarrow> upd_at (unat j) tmp state;
         Some (j, state)
       }) [0..<256] (0 :: u8, state);
     Some state
   }"

section \<open>System calls\<close>

text \<open>
  What the n-th call of read or write does: it offers to transfer a number of bytes, is to be
  repeated (EINTR or EAGAIN), or fails.  A read transfers no more than it was asked for and no
  more than is left of the input, and nothing only at the end of the input; a write transfers
  no more than it was asked for.
\<close>

datatype sysret = Ret nat | Retry | Fail

record io =
  stdin :: "u8 list"
  stdout :: "u8 list"
  rd :: "nat \<Rightarrow> sysret"
  wr :: "nat \<Rightarrow> sysret"
  nrd :: nat
  nwr :: nat

datatype exit = Exit nat

definition read_len :: "nat \<Rightarrow> nat \<Rightarrow> u8 list \<Rightarrow> nat" where
  "read_len k n left = min (max 1 k) (min n (length left))"

definition read_step :: "nat \<Rightarrow> u8 list \<times> io \<Rightarrow> ((u8 list \<times> io) + (exit + u8 list \<times> io)) option" where
  "read_step cap = (\<lambda>(buf, s).
     let r = rd s (nrd s);
         s = s\<lparr>nrd := nrd s + 1\<rparr>
     in case r of
          Fail \<Rightarrow> Some (Inr (Inl (Exit 1)))
        | Retry \<Rightarrow> Some (Inl (buf, s))
        | Ret k \<Rightarrow>
            let n = read_len k (cap - length buf) (stdin s)
            in if n = 0 then Some (Inr (Inr (buf, s)))
               else Some (Inl (buf @ take n (stdin s), s\<lparr>stdin := drop n (stdin s)\<rparr>)))"

text \<open>The loop of the image modes: it ends only when a read returns nothing.\<close>

definition read_image :: "nat \<Rightarrow> io \<Rightarrow> (exit + u8 list \<times> io) option" where
  "read_image cap s = iterate (read_step cap) ([], s)"

text \<open>The loop of the decrypt mode: it also ends when the buffer is full.\<close>

definition read_block_step :: "nat \<Rightarrow> u8 list \<times> io \<Rightarrow> ((u8 list \<times> io) + (exit + u8 list \<times> io)) option" where
  "read_block_step cap = (\<lambda>(buf, s).
     if length buf < cap then read_step cap (buf, s) else Some (Inr (Inr (buf, s))))"

definition read_block :: "nat \<Rightarrow> io \<Rightarrow> (exit + u8 list \<times> io) option" where
  "read_block cap s = iterate (read_block_step cap) ([], s)"

definition write_step :: "u8 list \<Rightarrow> nat \<times> io \<Rightarrow> ((nat \<times> io) + (exit + io)) option" where
  "write_step buf = (\<lambda>(pos, s).
     if pos < length buf then
       let r = wr s (nwr s);
           s = s\<lparr>nwr := nwr s + 1\<rparr>
       in case r of
            Fail \<Rightarrow> Some (Inr (Inl (Exit 1)))
          | Retry \<Rightarrow> Some (Inl (pos, s))
          | Ret k \<Rightarrow>
              let n = min k (length buf - pos)
              in if n = 0 then Some (Inr (Inr s))
                 else Some (Inl (pos + n, s\<lparr>stdout := stdout s @ take n (drop pos buf)\<rparr>))
     else Some (Inr (Inr s)))"

definition write_buf :: "u8 list \<Rightarrow> io \<Rightarrow> (exit + io) option" where
  "write_buf buf s = iterate (write_step buf) (0, s)"

text \<open>A call of write_buf in main: exit ends the program.\<close>

definition then_write :: "(exit + io) option \<Rightarrow> u8 list \<Rightarrow> (exit + io) option" where
  "then_write r buf = do {
     x \<leftarrow> r;
     case x of Inl e \<Rightarrow> Some (Inl e) | Inr s \<Rightarrow> write_buf buf s
   }"

section \<open>Main program\<close>

datatype mode = MODE_HELP | MODE_SD_IMAGE | MODE_SPI_IMAGE | MODE_DECRYPT

definition choose_mode :: "string list \<Rightarrow> mode" where
  "choose_mode argv =
    (if length argv = 1 then MODE_SD_IMAGE
     else if length argv = 2 then
       (if argv ! 1 = ''spi'' then MODE_SPI_IMAGE
        else if argv ! 1 = ''sd'' then MODE_SD_IMAGE
        else if argv ! 1 = ''decrypt'' then MODE_DECRYPT
        else MODE_HELP)
     else MODE_HELP)"

definition CAP :: nat where
  "CAP = 2 ^ 22"

definition padding :: "u8 list" where
  "padding = replicate 2048 0"

text \<open>The number of 512-byte sectors recorded for an image of the given size.\<close>

definition image_sectors :: "nat \<Rightarrow> nat" where
  "image_sectors n =
    (let data_sectors = (n + 4 + 511) div 512;
         pages = (data_sectors + 3) div 4
     in pages * 4)"

definition idblock_plain :: "nat \<Rightarrow> u8 list" where
  "idblock_plain sectors = (replicate 2048 0)
     [0 := 0x55, 1 := 0xaa, 2 := 0xf0, 3 := 0x0f, 8 := 1, 12 := 4, 14 := 4,
      506 := of_nat (sectors mod 256), 507 := of_nat (sectors div 256),
      508 := of_nat (sectors mod 256), 509 := of_nat (sectors div 256)]"

text \<open>The loop that alternates data and padding; pos is the position in the image.\<close>

function write_pages :: "u8 list \<Rightarrow> nat \<Rightarrow> (exit + io) option \<Rightarrow> (nat \<times> (exit + io) option)" where
  "write_pages buf pos r =
    (if pos \<ge> length buf - 2048 then (pos, r)
     else write_pages buf (pos + 2048) (then_write (then_write r (take 2048 (drop pos buf))) padding))"
  by pat_completeness auto
termination
  by (relation "measure (\<lambda>(buf, pos, r). length buf - pos)") auto

definition write_image :: "mode \<Rightarrow> u8 list \<Rightarrow> u8 list \<Rightarrow> io \<Rightarrow> (exit + io) option" where
  "write_image m idblock buf s =
    (let r = write_buf idblock s
     in if m = MODE_SD_IMAGE then then_write r buf
        else
          let r = then_write r padding
          in if length buf \<le> 2048 then then_write r buf
             else
               let r = then_write r (take 2048 buf);
                   r = then_write r padding;
                   (pos, r) = (if length buf \<ge> 2048 then write_pages buf 2048 r else (2048, r))
               in then_write r (drop pos buf))"

text \<open>The result is the exit code with the final state of the files; None is a failing assertion.\<close>

definition main_image :: "mode \<Rightarrow> u8 list \<Rightarrow> io \<Rightarrow> (exit + io) option" where
  "main_image m rc4_state s = do {
     x \<leftarrow> read_image CAP s;
     case x of
       Inl e \<Rightarrow> Some (Inl e)
     | Inr (buf, s) \<Rightarrow>
         let sectors = image_sectors (length buf);
             idblock = idblock_plain sectors
         in if \<not> sectors < 2 ^ 16 then None
            else do {
              (hd_enc, _) \<leftarrow> rc4 (take 512 idblock) rc4_state;
              write_image m (hd_enc @ drop 512 idblock) buf s
            }
   }"

definition main_decrypt :: "u8 list \<Rightarrow> io \<Rightarrow> (exit + io) option" where
  "main_decrypt rc4_state s = do {
     x \<leftarrow> read_block 512 s;
     case x of
       Inl e \<Rightarrow> Some (Inl e)
     | Inr (buf, s) \<Rightarrow> do {
         (out, _) \<leftarrow> rc4 (buf @ replicate (512 - length buf) 0) rc4_state;
         write_buf out s
       }
   }"

definition idbtool_main :: "string list \<Rightarrow> u8 list \<Rightarrow> io \<Rightarrow> (exit + io) option" where
  "idbtool_main argv uninit s = do {
     rc4_state \<leftarrow> rc4_init uninit;
     case choose_mode argv of
       MODE_HELP \<Rightarrow> Some (Inr s)
     | MODE_DECRYPT \<Rightarrow> main_decrypt rc4_state s
     | m \<Rightarrow> main_image m rc4_state s
   }"

section \<open>RC4 keeps its state a permutation and is its own inverse\<close>

declare upt_rec_numeral [simp del]

definition rc4_state_ok :: "u8 list \<Rightarrow> bool" where
  "rc4_state_ok st \<longleftrightarrow> length st = 258 \<and> mset (take 256 st) = mset (map of_nat [0..<256])"

lemma unat_u8_less [simp]: "unat (x :: u8) < 256"
  using unsigned_less [of x, where 'a = nat] by simp

lemma unat_u8_index [simp]: "256 \<le> n \<Longrightarrow> unat (x :: u8) < n"
  using unat_u8_less [of x] by linarith

lemma swap_state:
  assumes "rc4_state_ok st" "i < 256" "j < 256"
  shows "rc4_state_ok (st[i := st ! j, j := st ! i])"
proof -
  have l: "length (take 256 st) = 256" using assms(1) by (simp add: rc4_state_ok_def)
  have "take 256 (st[i := st ! j, j := st ! i]) = (take 256 st)[i := take 256 st ! j, j := take 256 st ! i]"
    using assms by (simp add: take_update_swap)
  then show ?thesis
    using assms mset_swap [of j "take 256 st" i] l by (simp add: rc4_state_ok_def)
qed

lemma rc4_loop_ok:
  assumes "rc4_state_ok st"
  shows "\<exists>out i' j' st'. rc4_loop buf i j st = Some (out, i', j', st') \<and> length out = length buf \<and> rc4_state_ok st'"
  using assms
proof (induction buf arbitrary: i j st)
  case (Cons x buf)
  have l: "length st = 258" using Cons.prems by (simp add: rc4_state_ok_def)
  let ?i = "i + 1" and ?j = "j + st ! unat (i + 1)"
  have "rc4_state_ok (st[unat ?i := st ! unat ?j, unat ?j := st ! unat ?i])"
    using Cons.prems by (rule swap_state) simp_all
  from Cons.IH [OF this, of ?i ?j] obtain out i' j' st' where
    "rc4_loop buf ?i ?j (st[unat ?i := st ! unat ?j, unat ?j := st ! unat ?i]) = Some (out, i', j', st')"
    "length out = length buf" "rc4_state_ok st'" by blast
  then show ?case
    using l less_le_trans [OF mod_less_divisor [of 256], of 258] by (simp add: Let_def)
qed simp

lemma rc4_loop_inverse:
  "rc4_loop buf i j st = Some (out, i', j', st') \<Longrightarrow> rc4_loop out i j st = Some (buf, i', j', st')"
proof (induction buf arbitrary: i j st out)
  case (Cons x buf)
  then show ?case
    by (auto simp: Let_def xor.assoc split: bind_splits)
qed simp

lemma rc4_ok:
  assumes "rc4_state_ok st"
  shows "\<exists>out st'. rc4 buf st = Some (out, st') \<and> length out = length buf \<and> rc4_state_ok st'"
proof -
  have l: "length st = 258" using assms by (simp add: rc4_state_ok_def)
  obtain out i' j' st' where "rc4_loop buf (st ! 256) (st ! 257) st = Some (out, i', j', st')"
    "length out = length buf" "rc4_state_ok st'"
    using rc4_loop_ok [OF assms] by blast
  then show ?thesis
    using l by (simp add: rc4_def rc4_state_ok_def)
qed

lemma rc4_inverse:
  assumes "rc4 buf st = Some (out, st')"
  shows "rc4 out st = Some (buf, st')"
proof -
  obtain i j i' j' st1 st2 where st: "get_at 256 st = Some i" "get_at 257 st = Some j"
    "upd_at 256 i' st1 = Some st2" "upd_at 257 j' st2 = Some st'" and lp: "rc4_loop buf i j st = Some (out, i', j', st1)"
    using assms by (auto simp: rc4_def bind_eq_Some_conv)
  from rc4_loop_inverse [OF lp] st show ?thesis by (auto simp: rc4_def bind_eq_Some_conv)
qed

lemma rc4_fill:
  fixes st :: "u8 list"
  assumes "length st = 258"
  shows "\<exists>st'. mfold (\<lambda>i st. upd_at i (of_nat i) st) [0..<256] st = Some st' \<and>
    length st' = 258 \<and> take 256 st' = map of_nat [0..<256]"
proof (rule mfold_upt [where I = "\<lambda>n (st :: u8 list). length st = 258 \<and> take n st = map of_nat [0..<n]"])
  fix i and st :: "u8 list"
  assume "i < 256" "length st = 258 \<and> take i st = map of_nat [0..<i]"
  then show "\<exists>st'. upd_at i (of_nat i) st = Some st' \<and> length st' = 258 \<and> take (Suc i) st' = map of_nat [0..<Suc i]"
    by (simp add: take_Suc_conv_app_nth)
qed (use assms in simp_all)

lemma rc4_init_ok:
  assumes "length st = 258"
  shows "\<exists>st'. rc4_init st = Some st' \<and> rc4_state_ok st'"
proof -
  obtain s1 where s1: "mfold (\<lambda>i st. upd_at i (of_nat i) st) [0..<256] st = Some s1" "length s1 = 258"
    "take 256 s1 = map of_nat [0..<256]"
    using rc4_fill [OF assms] by blast
  let ?f = "\<lambda>i (j, state). do {
         si \<leftarrow> get_at i state;
         k \<leftarrow> get_at (i mod 16) rc4_key;
         let j = j + (si + k);
         tmp \<leftarrow> get_at i state;
         sj \<leftarrow> get_at (unat j) state;
         state \<leftarrow> upd_at i sj state;
         state \<leftarrow> upd_at (unat j) tmp state;
         Some (j :: u8, state)
       }"
  have key: "i mod 16 < length rc4_key" for i by (simp add: rc4_key_def)
  have "\<exists>r. mfold ?f [0..<256] (0, s1[256 := 0, 257 := 0]) = Some r \<and> rc4_state_ok (snd r)"
  proof (rule mfold_upt [where I = "\<lambda>n r. rc4_state_ok (snd r)"])
    show "rc4_state_ok (snd (0, s1[256 := 0, 257 := 0]))"
      using s1 by (simp add: rc4_state_ok_def)
    fix i :: nat and r :: "u8 \<times> u8 list"
    assume i: "i < 256" and ok: "rc4_state_ok (snd r)"
    obtain j st where r: "r = (j, st)" by (cases r)
    have l: "length st = 258" using ok r by (simp add: rc4_state_ok_def)
    show "\<exists>s'. ?f i r = Some s' \<and> rc4_state_ok (snd s')"
      using swap_state [of st i "unat (j + (st ! i + rc4_key ! (i mod 16)))"] ok i l key [of i] r by (simp add: Let_def)
  qed simp
  then show ?thesis
    using s1 by (auto simp: rc4_init_def)
qed

section \<open>The loops transfer everything\<close>

text \<open>Calls that never fail, always transfer something in the end, and never transfer nothing.\<close>

definition fair :: "(nat \<Rightarrow> sysret) \<Rightarrow> bool" where
  "fair f \<longleftrightarrow> (\<forall>i. f i \<noteq> Fail \<and> f i \<noteq> Ret 0) \<and> (\<forall>i. \<exists>d. f (i + d) \<noteq> Retry)"

definition waits :: "(nat \<Rightarrow> sysret) \<Rightarrow> nat \<Rightarrow> nat" where
  "waits f i = (LEAST d. f (i + d) \<noteq> Retry)"

lemma waits_less:
  assumes "fair f" "f i = Retry"
  shows "waits f (i + 1) < waits f i"
proof -
  have e: "f (i + waits f i) \<noteq> Retry"
    unfolding waits_def by (rule LeastI_ex) (use assms(1) in \<open>auto simp: fair_def\<close>)
  then obtain d where d: "waits f i = Suc d" using assms(2) by (cases "waits f i") auto
  with e have "f (i + 1 + d) \<noteq> Retry" by simp
  then have "waits f (i + 1) \<le> d" unfolding waits_def by (rule Least_le)
  with d show ?thesis by simp
qed

lemma write_buf_all:
  assumes "fair (wr s)"
  shows "\<exists>n. write_buf buf s = Some (Inr (s\<lparr>stdout := stdout s @ buf, nwr := n\<rparr>))"
proof -
  let ?I = "\<lambda>(pos, t). pos \<le> length buf \<and> (\<exists>n. t = s\<lparr>stdout := stdout s @ take pos buf, nwr := n\<rparr>)"
  let ?R = "inv_image (less_than <*lex*> less_than) (\<lambda>(pos, t). (length buf - pos, waits (wr s) (nwr t)))"
  have "\<exists>x. iterate (write_step buf) (0, s) = Some x \<and> (\<exists>n. x = Inr (s\<lparr>stdout := stdout s @ buf, nwr := n\<rparr>))"
  proof (rule iterate_wf [where R = ?R and I = ?I])
    show "?I (0, s)" by (auto intro: exI [of _ "nwr s"])
    fix p assume "?I p"
    then obtain pos n where p: "p = (pos, s\<lparr>stdout := stdout s @ take pos buf, nwr := n\<rparr>)" "pos \<le> length buf" by auto
    show "(\<exists>s'. write_step buf p = Some (Inl s') \<and> ?I s' \<and> (s', p) \<in> ?R) \<or>
        (\<exists>x. write_step buf p = Some (Inr x) \<and> (\<exists>n. x = Inr (s\<lparr>stdout := stdout s @ buf, nwr := n\<rparr>)))"
    proof (cases "pos < length buf")
      case False
      then show ?thesis using p by (auto simp: write_step_def)
    next
      case True
      show ?thesis
      proof (cases "wr s n")
        case (Ret k)
        define m where "m = min k (length buf - pos)"
        have "0 < k" using assms Ret by (cases k) (auto simp: fair_def)
        then have m: "0 < m" "pos + m \<le> length buf" using True by (auto simp: m_def)
        have "write_step buf p = Some (Inl (pos + m, s\<lparr>stdout := stdout s @ take (pos + m) buf, nwr := n + 1\<rparr>))"
          using Ret True p m(1) by (simp add: write_step_def Let_def take_add flip: m_def)
        with m p True show ?thesis by auto
      qed (use True p assms waits_less [OF assms, of n] in \<open>auto simp: write_step_def fair_def\<close>)
    qed
  qed auto
  then show ?thesis by (auto simp: write_buf_def)
qed

text \<open>The state after c bytes were read in n calls.\<close>

definition read_state :: "io \<Rightarrow> nat \<times> nat \<Rightarrow> u8 list \<times> io" where
  "read_state s = (\<lambda>(c, n). (take c (stdin s), s\<lparr>stdin := drop c (stdin s), nrd := n\<rparr>))"

definition read_rel :: "nat \<Rightarrow> io \<Rightarrow> ((u8 list \<times> io) \<times> (u8 list \<times> io)) set" where
  "read_rel cap s = inv_image (less_than <*lex*> less_than) (\<lambda>(buf, t). (cap - length buf, waits (rd s) (nrd t)))"

definition read_inv :: "nat \<Rightarrow> io \<Rightarrow> u8 list \<times> io \<Rightarrow> bool" where
  "read_inv cap s p \<longleftrightarrow> (\<exists>c n. c \<le> cap \<and> c \<le> length (stdin s) \<and> p = read_state s (c, n))"

definition read_done :: "nat \<Rightarrow> io \<Rightarrow> exit + u8 list \<times> io \<Rightarrow> bool" where
  "read_done cap s x \<longleftrightarrow> (\<exists>n. x = Inr (take cap (stdin s), s\<lparr>stdin := drop cap (stdin s), nrd := n\<rparr>))"

lemma wf_read_rel: "wf (read_rel cap s)"
  by (simp add: read_rel_def wf_inv_image wf_lex_prod)

lemma read_step_progress:
  assumes fair: "fair (rd s)" and inv: "read_inv cap s p"
  shows "(\<exists>p'. read_step cap p = Some (Inl p') \<and> read_inv cap s p' \<and> (p', p) \<in> read_rel cap s) \<or>
    (\<exists>x. read_step cap p = Some (Inr x) \<and> read_done cap s x)"
proof -
  obtain c n where c: "c \<le> cap" "c \<le> length (stdin s)" "p = read_state s (c, n)"
    using inv by (auto simp: read_inv_def)
  show ?thesis
  proof (cases "rd s n")
    case (Ret k)
    define m where "m = read_len k (cap - c) (drop c (stdin s))"
    have st: "read_step cap p = (if m = 0 then Some (Inr (Inr (read_state s (c, n + 1)))) else Some (Inl (read_state s (c + m, n + 1))))"
      using Ret c by (simp add: read_step_def read_state_def Let_def m_def take_add add.commute)
    show ?thesis
    proof (cases "m = 0")
      case True
      then have "c = cap \<or> c = length (stdin s)" using c by (auto simp: m_def read_len_def)
      then have "read_done cap s (Inr (read_state s (c, n + 1)))"
        using c by (auto simp: read_done_def read_state_def)
      with True st show ?thesis by simp
    next
      case False
      have "c + m \<le> cap" "c + m \<le> length (stdin s)" using c by (auto simp: m_def read_len_def)
      then have "read_inv cap s (read_state s (c + m, n + 1))" by (auto simp: read_inv_def)
      moreover have "(read_state s (c + m, n + 1), p) \<in> read_rel cap s"
        using c False \<open>c + m \<le> cap\<close> \<open>c + m \<le> length (stdin s)\<close> by (auto simp: read_rel_def read_state_def)
      ultimately show ?thesis using False st by simp
    qed
  next
    case Retry
    then have "read_step cap p = Some (Inl (read_state s (c, n + 1)))" "(read_state s (c, n + 1), p) \<in> read_rel cap s"
      using c waits_less [OF fair, of n] by (simp_all add: read_step_def read_state_def read_rel_def)
    then show ?thesis using c by (auto simp: read_inv_def)
  qed (use fair in \<open>simp add: fair_def\<close>)
qed

lemma read_inv_init: "read_inv cap s ([], s)"
  unfolding read_inv_def by (intro exI [of _ 0] exI [of _ "nrd s"]) (simp add: read_state_def)

lemma read_image_all:
  assumes "fair (rd s)"
  shows "\<exists>x. read_image cap s = Some x \<and> read_done cap s x"
  unfolding read_image_def
  by (rule iterate_wf [OF wf_read_rel, where I = "read_inv cap s"])
    (rule read_inv_init, rule read_step_progress [OF assms])

lemma read_block_all:
  assumes "fair (rd s)"
  shows "\<exists>x. read_block cap s = Some x \<and> read_done cap s x"
  unfolding read_block_def
proof (rule iterate_wf [OF wf_read_rel, where I = "read_inv cap s"])
  fix p assume inv: "read_inv cap s p"
  show "(\<exists>p'. read_block_step cap p = Some (Inl p') \<and> read_inv cap s p' \<and> (p', p) \<in> read_rel cap s) \<or>
    (\<exists>x. read_block_step cap p = Some (Inr x) \<and> read_done cap s x)"
  proof (cases "length (fst p) < cap")
    case True
    then show ?thesis using read_step_progress [OF assms inv] by (cases p) (simp add: read_block_step_def)
  next
    case False
    moreover have "read_done cap s (Inr p)"
      using inv False by (auto simp: read_inv_def read_state_def read_done_def)
    ultimately show ?thesis by (cases p) (simp add: read_block_step_def)
  qed
qed (rule read_inv_init)

section \<open>The images\<close>

text \<open>The image on SPI flash, where only every other 2 KiB are used, and how it is read back.\<close>

function spread :: "u8 list \<Rightarrow> u8 list" where
  "spread buf = (if length buf \<le> 2048 then buf else take 2048 buf @ padding @ spread (drop 2048 buf))"
  by pat_completeness auto
termination by (relation "measure length") auto

function gather_pages :: "u8 list \<Rightarrow> u8 list" where
  "gather_pages xs = (if length xs \<le> 2048 then xs else take 2048 xs @ gather_pages (drop 4096 xs))"
  by pat_completeness auto
termination by (relation "measure length") auto

declare spread.simps [simp del] gather_pages.simps [simp del] write_pages.simps [simp del]

lemma gather_spread: "gather_pages (spread buf) = buf"
proof (induction buf rule: spread.induct)
  case (1 buf)
  show ?case
  proof (cases "length buf \<le> 2048")
    case True
    then show ?thesis by (subst spread.simps, subst gather_pages.simps) simp
  next
    case False
    then show ?thesis
      using 1 by (subst spread.simps, subst gather_pages.simps) (simp add: padding_def)
  qed
qed

definition wrote_out :: "io \<Rightarrow> u8 list \<Rightarrow> (exit + io) option \<Rightarrow> bool" where
  "wrote_out s out r \<longleftrightarrow> (\<exists>n. r = Some (Inr (s\<lparr>stdout := stdout s @ out, nwr := n\<rparr>)))"

lemma wrote_write_buf: "fair (wr s) \<Longrightarrow> wrote_out s buf (write_buf buf s)"
  using write_buf_all by (simp add: wrote_out_def)

lemma wrote_then_write:
  assumes "fair (wr s)" "wrote_out s out r"
  shows "wrote_out s (out @ buf) (then_write r buf)"
proof -
  obtain n where r: "r = Some (Inr (s\<lparr>stdout := stdout s @ out, nwr := n\<rparr>))" using assms(2) by (auto simp: wrote_out_def)
  then show ?thesis
    using write_buf_all [of "s\<lparr>stdout := stdout s @ out, nwr := n\<rparr>" buf] assms(1)
    by (auto simp: wrote_out_def then_write_def)
qed

lemma write_pages_all:
  assumes "fair (wr s)" "wrote_out s out r" "pos \<le> length buf"
  shows "\<exists>out' pos'. write_pages buf pos r = (pos', snd (write_pages buf pos r)) \<and>
    wrote_out s out' (snd (write_pages buf pos r)) \<and> out' @ drop pos' buf = out @ spread (drop pos buf)"
  using assms(2,3)
proof (induction buf pos r arbitrary: out rule: write_pages.induct)
  case (1 buf pos r)
  show ?case
  proof (cases "pos \<ge> length buf - 2048")
    case True
    then have "length (drop pos buf) \<le> 2048" by simp
    then show ?thesis
      using 1(2) True by (subst (1 2 3) write_pages.simps, subst spread.simps) (auto intro!: exI [of _ out])
  next
    case False
    let ?r = "then_write (then_write r (take 2048 (drop pos buf))) padding"
    have "wrote_out s ((out @ take 2048 (drop pos buf)) @ padding) ?r"
      using 1(2) assms(1) by (intro wrote_then_write)
    moreover have far: "pos + 2048 < length buf" using False by auto
    ultimately obtain out' pos' where
      "write_pages buf (pos + 2048) ?r = (pos', snd (write_pages buf (pos + 2048) ?r))"
      "wrote_out s out' (snd (write_pages buf (pos + 2048) ?r))"
      "out' @ drop pos' buf = ((out @ take 2048 (drop pos buf)) @ padding) @ spread (drop (pos + 2048) buf)"
      using 1(1) [OF False, of "(out @ take 2048 (drop pos buf)) @ padding"] by (metis less_imp_le)
    moreover have "spread (drop pos buf) = take 2048 (drop pos buf) @ padding @ spread (drop (pos + 2048) buf)"
      using far by (subst spread.simps) (auto simp: add.commute)
    ultimately show ?thesis
      using False by (subst (1 2 3) write_pages.simps) auto
  qed
qed

lemma write_image_all:
  assumes "fair (wr s)"
  shows "wrote_out s (idblock @ (if m = MODE_SD_IMAGE then buf else padding @ spread buf)) (write_image m idblock buf s)"
proof -
  note w = wrote_then_write [OF assms]
  have b: "wrote_out s idblock (write_buf idblock s)" by (rule wrote_write_buf [OF assms])
  show ?thesis
  proof (cases "m = MODE_SD_IMAGE \<or> length buf \<le> 2048")
    case True
    then show ?thesis
      using w [OF b, of buf] w [OF w [OF b, of padding], of buf]
      by (subst spread.simps) (auto simp: write_image_def Let_def)
  next
    case False
    let ?r = "then_write (then_write (then_write (write_buf idblock s) padding) (take 2048 buf)) padding"
    have r: "wrote_out s (((idblock @ padding) @ take 2048 buf) @ padding) ?r" by (intro w b)
    obtain out pos where p: "write_pages buf 2048 ?r = (pos, snd (write_pages buf 2048 ?r))"
      "wrote_out s out (snd (write_pages buf 2048 ?r))"
      "out @ drop pos buf = (((idblock @ padding) @ take 2048 buf) @ padding) @ spread (drop 2048 buf)"
      using write_pages_all [OF assms r, of 2048 buf] False by auto
    moreover have "spread buf = take 2048 buf @ padding @ spread (drop 2048 buf)"
      using False by (subst spread.simps) simp
    moreover have "write_image m idblock buf s = then_write (snd (write_pages buf 2048 ?r)) (drop pos buf)"
      using False p(1) unfolding write_image_def Let_def by (auto split: prod.splits)
    ultimately show ?thesis using False w [OF p(2), of "drop pos buf"] by simp
  qed
qed

text \<open>The initial state does not depend on the contents of the array it is built in.\<close>

lemma filled_state:
  assumes "length (s1 :: u8 list) = 258" "take 256 s1 = map of_nat [0..<256]"
  shows "s1[256 := 0, 257 := 0] = map of_nat [0..<256] @ [0, 0]"
proof -
  have two: "\<exists>a b. ys = [a, b]" if "length ys = 2" for ys :: "u8 list"
    using that by (auto simp: numeral_2_eq_2 length_Suc_conv)
  have "length (drop 256 s1) = 2" using assms(1) by simp
  from two [OF this] obtain a b where "drop 256 s1 = [a, b]" by blast
  then have "s1 = map of_nat [0..<256] @ [a, b]"
    using assms(2) append_take_drop_id [of 256 s1] by simp
  then show ?thesis by (simp add: list_update_append)
qed

lemma rc4_init_same:
  assumes "length (st :: u8 list) = 258" "length st' = 258"
  shows "rc4_init st = rc4_init st'"
proof -
  let ?z = "map of_nat [0..<256] @ [0, 0] :: u8 list"
  have "rc4_init st = rc4_init ?z" if l: "length st = 258" for st :: "u8 list"
  proof -
    have k: "length ?z = 258" by simp
    obtain s1 s2 where "mfold (\<lambda>i st. upd_at i (of_nat i) st) [0..<256] st = Some s1" "length s1 = 258"
      "take 256 s1 = map of_nat [0..<256]"
      "mfold (\<lambda>i st. upd_at i (of_nat i) st) [0..<256] ?z = Some s2" "length s2 = 258"
      "take 256 s2 = map of_nat [0..<256]"
      using rc4_fill [OF l] rc4_fill [OF k] by blast
    then show ?thesis
      using filled_state [of s1] filled_state [of s2] by (simp add: rc4_init_def)
  qed
  from this [OF assms(1)] this [OF assms(2)] show ?thesis by simp
qed

lemma image_sectors_less: "n \<le> CAP \<Longrightarrow> image_sectors n < 2 ^ 16"
proof -
  assume "n \<le> CAP"
  then have "(n + 4 + 511) div 512 \<le> (CAP + 4 + 511) div 512" by (intro div_le_mono) simp
  then have "((n + 4 + 511) div 512 + 3) div 4 \<le> ((CAP + 4 + 511) div 512 + 3) div 4" by (intro div_le_mono) simp
  then show ?thesis by (simp add: image_sectors_def Let_def CAP_def)
qed

lemma length_idblock: "length (idblock_plain n) = 2048"
  by (simp add: idblock_plain_def)

lemma decrypt_all:
  assumes "fair (rd t)" "fair (wr t)" "stdin t = hdr @ rest" "length hdr = 512" "rc4 hdr st = Some (out, st')"
  shows "\<exists>t'. main_decrypt st t = Some (Inr t') \<and> stdout t' = stdout t @ out"
proof -
  obtain n where "read_block 512 t = Some (Inr (hdr, t\<lparr>stdin := rest, nrd := n\<rparr>))"
    using read_block_all [OF assms(1), of 512] assms(3,4) by (auto simp: read_done_def)
  moreover obtain k where "write_buf out (t\<lparr>stdin := rest, nrd := n\<rparr>) =
      Some (Inr (t\<lparr>stdin := rest, nrd := n, stdout := stdout t @ out, nwr := k\<rparr>))"
    using write_buf_all [of "t\<lparr>stdin := rest, nrd := n\<rparr>" out] assms(2) by auto
  ultimately show ?thesis using assms(4,5) by (simp add: main_decrypt_def)
qed

lemma main_image_all:
  assumes "fair (rd s)" "fair (wr s)" "rc4_state_ok st"
  shows "\<exists>s' hdr st'. main_image m st s = Some (Inr s') \<and>
    rc4 (take 512 (idblock_plain (image_sectors (min CAP (length (stdin s)))))) st = Some (hdr, st') \<and> length hdr = 512 \<and>
    stdout s' = stdout s @ hdr @ drop 512 (idblock_plain (image_sectors (min CAP (length (stdin s))))) @
      (if m = MODE_SD_IMAGE then take CAP (stdin s) else padding @ spread (take CAP (stdin s)))"
proof -
  define buf where "buf = take CAP (stdin s)"
  define plain where "plain = idblock_plain (image_sectors (min CAP (length (stdin s))))"
  obtain hdr st' where hdr: "rc4 (take 512 plain) st = Some (hdr, st')" "length hdr = 512"
    using rc4_ok [OF assms(3), of "take 512 plain"] by (auto simp: plain_def length_idblock)
  obtain n where n: "read_image CAP s = Some (Inr (buf, s\<lparr>stdin := drop CAP (stdin s), nrd := n\<rparr>))"
    using read_image_all [OF assms(1), of CAP] by (auto simp: read_done_def buf_def)
  let ?s = "s\<lparr>stdin := drop CAP (stdin s), nrd := n\<rparr>"
  obtain k where "write_image m (hdr @ drop 512 plain) buf ?s =
      Some (Inr (?s\<lparr>stdout := stdout s @ (hdr @ drop 512 plain) @ (if m = MODE_SD_IMAGE then buf else padding @ spread buf), nwr := k\<rparr>))"
    using write_image_all [of ?s "hdr @ drop 512 plain" m buf] assms(2) by (auto simp: wrote_out_def)
  moreover have "image_sectors (length buf) < 2 ^ 16" by (rule image_sectors_less) (simp add: buf_def)
  moreover have "length buf = min CAP (length (stdin s))" by (simp add: buf_def)
  ultimately show ?thesis
    using n hdr unfolding main_image_def Let_def by (simp flip: plain_def buf_def)
qed

section \<open>Properties\<close>

text \<open>C32: The RC4 state keeps its shape: rc4_init turns every array of 258 bytes into a permutation of
  the 256 byte values followed by two indices, and rc4 on such a state never leaves the array, returns
  as many bytes as it was given and leaves a state of the same shape.\<close>

theorem rc4_state_type:
  assumes "length uninit = 258" "rc4_state_ok st"
  shows "(\<exists>st0. rc4_init uninit = Some st0 \<and> rc4_state_ok st0) \<and>
    (\<exists>out st'. rc4 buf st = Some (out, st') \<and> length out = length buf \<and> rc4_state_ok st')"
  using rc4_init_ok [OF assms(1)] rc4_ok [OF assms(2)] by blast

theorem rc4_state_type_witness:
  "rc4_state_ok (map of_nat [0..<256] @ [0, 0]) \<and>
   (\<exists>out st'. rc4 [1, 2, 3] (map of_nat [0..<256] @ [0, 0]) = Some (out, st') \<and> length out = 3 \<and> rc4_state_ok st')"
proof -
  have ok: "rc4_state_ok (map of_nat [0..<256] @ [0, 0])" by (simp add: rc4_state_ok_def)
  show ?thesis
    using rc4_state_type [OF _ ok, of "replicate 258 0" "[1, 2, 3]"] ok by (simp add: numeral_3_eq_3)
qed

text \<open>C10: The tool returns for every input when the calls of the operating system make progress, and its
  output holds what was put in: the first 512 bytes are an ID block that the decrypt mode of the tool
  turns back into the plain header with the sector count of the image, and the image itself follows, as
  it is for SD cards and in every other 2 KiB for SPI flash.  An image longer than 4 MiB is cut.\<close>

theorem idbtool_image_roundtrip:
  assumes "length uninit = 258" "length uninit' = 258" "fair (rd s)" "fair (wr s)" "m \<in> {''sd'', ''spi''}"
  shows "\<exists>s' hdr body plain.
    idbtool_main [prog, m] uninit s = Some (Inr s') \<and>
    stdout s' = stdout s @ hdr @ drop 512 plain @ body \<and> length hdr = 512 \<and>
    plain = idblock_plain (image_sectors (min CAP (length (stdin s)))) \<and>
    (if m = ''sd'' then body else gather_pages (drop 2048 body)) = take CAP (stdin s) \<and>
    (\<forall>t rest. fair (rd t) \<and> fair (wr t) \<and> stdin t = hdr @ rest \<longrightarrow>
      (\<exists>t'. idbtool_main [prog, ''decrypt''] uninit' t = Some (Inr t') \<and> stdout t' = stdout t @ take 512 plain))"
proof -
  obtain st where st: "rc4_init uninit = Some st" "rc4_init uninit' = Some st" "rc4_state_ok st"
    using rc4_init_ok [OF assms(1)] rc4_init_same [OF assms(1,2)] by auto
  define plain where "plain = idblock_plain (image_sectors (min CAP (length (stdin s))))"
  define mo where "mo = (if m = ''sd'' then MODE_SD_IMAGE else MODE_SPI_IMAGE)"
  obtain s' hdr st' where h: "main_image mo st s = Some (Inr s')" "rc4 (take 512 plain) st = Some (hdr, st')" "length hdr = 512"
    "stdout s' = stdout s @ hdr @ drop 512 plain @ (if mo = MODE_SD_IMAGE then take CAP (stdin s) else padding @ spread (take CAP (stdin s)))"
    using main_image_all [OF assms(3,4) st(3)] unfolding plain_def by blast
  let ?body = "if mo = MODE_SD_IMAGE then take CAP (stdin s) else padding @ spread (take CAP (stdin s))"
  have "idbtool_main [prog, m] uninit s = Some (Inr s')"
    using assms(5) st(1) h(1) by (auto simp: idbtool_main_def choose_mode_def mo_def)
  moreover have "(if m = ''sd'' then ?body else gather_pages (drop 2048 ?body)) = take CAP (stdin s)"
    by (simp add: gather_spread padding_def mo_def)
  moreover have "\<exists>t'. idbtool_main [prog, ''decrypt''] uninit' t = Some (Inr t') \<and> stdout t' = stdout t @ take 512 plain"
    if "fair (rd t)" "fair (wr t)" "stdin t = hdr @ rest" for t rest
    using decrypt_all [OF that h(3) rc4_inverse [OF h(2)]] st(2) by (simp add: idbtool_main_def choose_mode_def)
  ultimately show ?thesis
    using h(3,4) plain_def by (intro exI [of _ s'] exI [of _ hdr] exI [of _ ?body] exI [of _ plain]) simp
qed

definition sample_io :: "u8 list \<Rightarrow> io" where
  "sample_io xs = \<lparr>stdin = xs, stdout = [], rd = (\<lambda>i. if i = 0 then Retry else Ret 100), wr = (\<lambda>i. if even i then Retry else Ret 700), nrd = 0, nwr = 0\<rparr>"

theorem idbtool_image_roundtrip_witness:
  "\<exists>s' hdr body. idbtool_main [''idbtool'', ''spi''] (replicate 258 0) (sample_io (replicate 5000 7)) = Some (Inr s') \<and>
    stdout s' = hdr @ drop 512 (idblock_plain (image_sectors 5000)) @ body \<and> gather_pages (drop 2048 body) = replicate 5000 7"
proof -
  have rdf: "fair (rd (sample_io xs))" for xs
    by (auto simp: fair_def sample_io_def intro: exI [of _ 1])
  have wrf: "fair (wr (sample_io xs))" for xs
  proof -
    have "\<exists>d. wr (sample_io xs) (i + d) \<noteq> Retry" for i
      by (rule exI [of _ "if even i then 1 else 0"]) (simp add: sample_io_def)
    then show ?thesis by (auto simp: fair_def sample_io_def)
  qed
  show ?thesis
    using idbtool_image_roundtrip [of "replicate 258 0" "replicate 258 0" "sample_io (replicate 5000 7)" "''spi''" "''idbtool''"] rdf wrf
    by (auto simp: sample_io_def CAP_def)
qed

end
