(* ===== verification/Nvme.thy ===== *)
theory Nvme
  imports Sdhci
begin

text \<open>
  The NVMe driver, lib/nvme.c and lib/nvme\_xfer.c: the submission and completion queues,
  waiting for a command, the construction of the physical region pages of a transfer, and
  the start-up and shutdown of the controller.  The machine is little-endian, so to\_le and
  from\_le leave values unchanged.  Requests are referred to by addresses, 0 being the null
  pointer.  What the controller does is given by the contents of the completion queue and by
  the values its registers have when they are read.
\<close>

section \<open>Data\<close>

record nvme_req =
  rq_data0 :: u32
  rq_data1 :: u32
  rq_aux :: u16
  rq_status :: u16

definition NVME_CREATING :: u16 where "NVME_CREATING = 0"
definition NVME_SUBMITTED :: u16 where "NVME_SUBMITTED = 2"

record nvme_cmd =
  c_opc :: u8
  c_fuse_psdt :: u8
  c_cid :: u16
  c_nsid :: u32
  c_dptr0 :: u64
  c_dptr1 :: u64
  c_dw10 :: u32
  c_dw11 :: u32
  c_dw12 :: u32

definition zero_cmd :: nvme_cmd where
  "zero_cmd = \<lparr>c_opc = 0, c_fuse_psdt = 0, c_cid = 0, c_nsid = 0, c_dptr0 = 0, c_dptr1 = 0, c_dw10 = 0, c_dw11 = 0, c_dw12 = 0\<rparr>"

record nvme_completion =
  cqe_cmd_spec :: u32
  cqe_reserved :: u32
  cqe_sqhd :: u16
  cqe_sqid :: u16
  cqe_cid :: u16
  cqe_status :: u16

record nvme_sq =
  sq_doorbell :: u32
  sq_buf :: "nvme_cmd list"
  sq_size :: u16
  sq_tail :: u16
  sq_cq :: u16
  sq_head :: u16
  sq_max_cid :: u16
  sq_cmd :: "nat list option"

record nvme_cq =
  cq_doorbell :: u32
  cq_buf :: "nvme_completion list"
  cq_phase :: bool
  cq_size :: u16
  cq_pos :: u16

record nvme_state =
  nv_cap :: u64
  nv_cfg :: u32
  nv_rtd3e :: u32
  nv_lba_shift :: nat
  nv_num_iosq :: u16
  nv_num_iocq :: u16
  nv_sq :: "nvme_sq list"
  nv_cq :: "nvme_cq list"
  nv_req :: "nat \<Rightarrow> nvme_req"

definition set_req :: "nat \<Rightarrow> nvme_req \<Rightarrow> nvme_state \<Rightarrow> nvme_state" where
  "set_req p r st = st\<lparr>nv_req := (nv_req st)(p := r)\<rparr>"

definition set_sq :: "nat \<Rightarrow> nvme_sq \<Rightarrow> nvme_state \<Rightarrow> nvme_state" where
  "set_sq i sq st = st\<lparr>nv_sq := (nv_sq st)[i := sq]\<rparr>"

definition set_cq :: "nat \<Rightarrow> nvme_cq \<Rightarrow> nvme_state \<Rightarrow> nvme_state" where
  "set_cq i cq st = st\<lparr>nv_cq := (nv_cq st)[i := cq]\<rparr>"

section \<open>Completion queues\<close>

definition zero_completion :: nvme_completion where
  "zero_completion = \<lparr>cqe_cmd_spec = 0, cqe_reserved = 0, cqe_sqhd = 0, cqe_sqid = 0, cqe_cid = 0, cqe_status = 0\<rparr>"

text \<open>The completion queue at the start: cleared, in the first phase.\<close>

definition fresh_cq :: "nvme_cq \<Rightarrow> nvme_cq" where
  "fresh_cq cq = cq\<lparr>cq_phase := True, cq_pos := 0, cq_buf := replicate (unat (cq_size cq) + 1) zero_completion\<rparr>"

text \<open>The phase bit of an entry.\<close>

definition cqe_phase :: "nvme_completion \<Rightarrow> bool" where
  "cqe_phase c = bit (cqe_status c) 0"

text \<open>
  nvme\_process\_cqe.  An array access out of bounds, or an entry for a command slot that
  holds the null pointer, is None.
\<close>

definition nvme_process_cqe :: "nvme_state \<Rightarrow> nat \<Rightarrow> (iost \<times> nvme_state) option" where
  "nvme_process_cqe st cqid =
    (if \<not> cqid < length (nv_cq st) then None
     else let cq = nv_cq st ! cqid; pos = unat (cq_pos cq); phase = cq_phase cq in
       if \<not> pos < length (cq_buf cq) then None
       else let cqe = cq_buf cq ! pos; cmd_st = cqe_status cqe in
         if cqe_phase cqe \<noteq> phase then Some (IOST_TRANSIENT, st)
         else let sqid = cqe_sqid cqe in
           if sqid > nv_num_iosq st then Some (IOST_GLOBAL, st)
           else if \<not> unat sqid < length (nv_sq st) then None
           else let sq = nv_sq st ! unat sqid in
             if unat (sq_cq sq) \<noteq> cqid then Some (IOST_GLOBAL, st)
             else let cid = cqe_cid cqe in
               case sq_cmd sq of
                 None \<Rightarrow> Some (IOST_GLOBAL, st)
               | Some slots \<Rightarrow>
                   if sq_max_cid sq < cid then Some (IOST_GLOBAL, st)
                   else if \<not> unat cid < length slots \<or> slots ! unat cid = 0 then None
                   else
                     let p = slots ! unat cid;
                         st = set_req p \<lparr>rq_data0 = cqe_cmd_spec cqe, rq_data1 = cqe_reserved cqe, rq_aux = 0, rq_status = cmd_st OR 1\<rparr> st;
                         st = set_sq (unat sqid) (sq\<lparr>sq_cmd := Some (slots[unat cid := 0]), sq_head := cqe_sqhd cqe\<rparr>) st;
                         cq = (if pos < unat (cq_size cq) then cq\<lparr>cq_pos := cq_pos cq + 1\<rparr>
                               else cq\<lparr>cq_pos := 0, cq_phase := \<not> phase\<rparr>)
                     in Some (IOST_OK, set_cq cqid (cq\<lparr>cq_doorbell := ucast (cq_pos cq)\<rparr>) st))"

section \<open>Submission queues\<close>

text \<open>The search for a free command identifier.\<close>

fun free_slot :: "nat list \<Rightarrow> nat \<Rightarrow> nat option" where
  "free_slot [] i = None"
| "free_slot (p # ps) i = (if p = 0 then Some i else free_slot ps (i + 1))"

definition nvme_submit_single_command :: "nvme_state \<Rightarrow> nat \<Rightarrow> nat \<Rightarrow> (bool \<times> nvme_state) option" where
  "nvme_submit_single_command st sqid req =
    (if \<not> sqid \<le> unat (nv_num_iosq st) \<or> \<not> sqid < length (nv_sq st) then None
     else let sq = nv_sq st ! sqid; tail = sq_tail sq; head = sq_head sq;
              nxt = (if tail = sq_size sq then 0 else tail + 1) in
       if nxt = head then Some (False, st)
       else let st = set_req req ((nv_req st req)\<lparr>rq_status := NVME_SUBMITTED\<rparr>) st in
         case sq_cmd sq of
           None \<Rightarrow> None
         | Some slots \<Rightarrow>
             if \<not> unat (sq_max_cid sq) < length slots then None
             else case free_slot (take (unat (sq_max_cid sq) + 1) slots) 0 of
               None \<Rightarrow> Some (False, st)
             | Some i \<Rightarrow>
                 if \<not> unat tail < length (sq_buf sq) then None
                 else Some (True, set_sq sqid (sq\<lparr>sq_cmd := Some (slots[i := req]),
                   sq_buf := (sq_buf sq)[unat tail := (sq_buf sq ! unat tail)\<lparr>c_cid := of_nat i\<rparr>],
                   sq_tail := nxt, sq_doorbell := ucast nxt\<rparr>) st))"

section \<open>Waiting for a command\<close>

text \<open>All entries of one completion queue, then of all of them.\<close>

definition drain_step :: "nat \<Rightarrow> nvme_state \<Rightarrow> (nvme_state + iost \<times> nvme_state) option" where
  "drain_step cqid st = do {
     (res, st) \<leftarrow> nvme_process_cqe st cqid;
     if res = IOST_OK then Some (Inl st) else Some (Inr (res, st))
   }"

fun drain_queues :: "nat \<Rightarrow> nat \<Rightarrow> nvme_state \<Rightarrow> (bool \<times> nvme_state) option" where
  "drain_queues cqid 0 st = Some (True, st)"
| "drain_queues cqid (Suc n) st = do {
     (res, st) \<leftarrow> iterate (drain_step cqid) st;
     if res = IOST_TRANSIENT then drain_queues (cqid + 1) n st else Some (False, st)
   }"

text \<open>
  nvme\_wait\_req.  In round t the controller has written the queues as given by env, and its
  status register reads as csts t.
\<close>

definition NVME_CSTS_CFS :: u32 where "NVME_CSTS_CFS = 2"

definition wait_step :: "(nat \<Rightarrow> nvme_state \<Rightarrow> nvme_state) \<Rightarrow> (nat \<Rightarrow> u32) \<Rightarrow> nat \<Rightarrow> nat \<times> nvme_state \<Rightarrow>
    (nat \<times> nvme_state + iost \<times> nvme_state) option" where
  "wait_step env csts req = (\<lambda>(t, st). do {
     (ok, st) \<leftarrow> drain_queues 0 (unat (nv_num_iocq st) + 1) (env t st);
     if \<not> ok then Some (Inr (IOST_GLOBAL, st))
     else let cmd_st = rq_status (nv_req st req) in
       if cmd_st \<noteq> NVME_SUBMITTED
       then Some (Inr (if cmd_st AND 0xfffe \<noteq> 0 then IOST_LOCAL else IOST_OK, st))
       else if csts t AND NVME_CSTS_CFS \<noteq> 0 then Some (Inr (IOST_GLOBAL, st))
       else Some (Inl (t + 1, st))
   })"

definition nvme_wait_req :: "(nat \<Rightarrow> nvme_state \<Rightarrow> nvme_state) \<Rightarrow> (nat \<Rightarrow> u32) \<Rightarrow> nvme_state \<Rightarrow> nat \<Rightarrow> (iost \<times> nvme_state) option" where
  "nvme_wait_req env csts st req = iterate (wait_step env csts req) (0, st)"

definition wait_single_command :: "(nat \<Rightarrow> nvme_state \<Rightarrow> nvme_state) \<Rightarrow> (nat \<Rightarrow> u32) \<Rightarrow> nvme_state \<Rightarrow> nat \<Rightarrow> nat \<Rightarrow>
    (iost \<times> nvme_state) option" where
  "wait_single_command env csts st sqid req = do {
     let st = set_req req \<lparr>rq_data0 = 0, rq_data1 = 0, rq_aux = 0, rq_status = 0\<rparr> st;
     (ok, st) \<leftarrow> nvme_submit_single_command st sqid req;
     if \<not> ok then Some (IOST_TRANSIENT, st) else nvme_wait_req env csts st req
   }"

section \<open>Transfers\<close>

text \<open>
  The request of a transfer is at the address nx\_req; nx\_list\_ptr is the address of the
  list of the pages.
\<close>

record nvme_xfer =
  nx_req :: nat
  nx_prp_list_addr :: nat
  nx_first :: nat
  nx_last :: nat
  nx_prp_size :: nat
  nx_prp_cap :: nat
  nx_xfer_bytes :: nat
  nx_prp_list :: "u64 list"
  nx_list_ptr :: nat

text \<open>The loop of nvme\_reset\_xfer goes on as long as the exchange succeeds.\<close>

definition reset_step :: "nat \<Rightarrow> nvme_state \<times> u16 \<Rightarrow> (nvme_state \<times> u16 + bool \<times> nvme_state) option" where
  "reset_step req = (\<lambda>(st, status).
    if status = NVME_SUBMITTED then Some (Inr (False, st))
    else if rq_status (nv_req st req) = status
    then Some (Inl (set_req req ((nv_req st req)\<lparr>rq_status := NVME_CREATING\<rparr>) st, status))
    else Some (Inr (True, st)))"

definition nvme_reset_xfer :: "nvme_state \<Rightarrow> nvme_xfer \<Rightarrow> (iost \<times> nvme_state \<times> nvme_xfer) option" where
  "nvme_reset_xfer st x = do {
     (claimed, st) \<leftarrow> iterate (reset_step (nx_req x)) (st, rq_status (nv_req st (nx_req x)));
     if \<not> claimed then Some (IOST_TRANSIENT, st, x)
     else Some (IOST_OK, st, x\<lparr>nx_prp_size := 0, nx_first := 0, nx_last := 0\<rparr>)
   }"

definition PAGE :: nat where "PAGE = 4096"

text \<open>The part of a buffer that goes to the first page entry; the rest starts on a page.\<close>

definition prp_first :: "nvme_xfer \<Rightarrow> nat \<Rightarrow> nat \<Rightarrow> (nvme_xfer \<times> nat option) option" where
  "prp_first x start bend =
    (if nx_prp_size x = 0 then
       let x = x\<lparr>nx_first := start, nx_prp_size := 1\<rparr> in
       if start div PAGE \<ge> bend div PAGE then Some (x\<lparr>nx_xfer_bytes := bend - start\<rparr>, None)
       else Some (x\<lparr>nx_xfer_bytes := PAGE - start mod PAGE\<rparr>, Some (start - start mod PAGE + PAGE))
     else if nx_xfer_bytes x mod PAGE \<noteq> PAGE - nx_first x mod PAGE then None
     else Some (x, Some start))"

text \<open>One more entry of the list; a store outside the list is None.\<close>

definition prp_step :: "nat \<Rightarrow> nvme_xfer \<times> nat \<Rightarrow> (nvme_xfer \<times> nat + bool \<times> nvme_xfer) option" where
  "prp_step bend = (\<lambda>(x, start).
    let idx = nx_prp_size x - 2 in
    if idx \<ge> nx_prp_cap x - 1 then Some (Inr (False, x))
    else if \<not> idx < length (nx_prp_list x) then None
    else
      let chain = (nx_list_ptr x + 8 * (idx + 1)) mod PAGE = 0;
          x = (if chain then x\<lparr>nx_prp_list := (nx_prp_list x)[idx := of_nat (nx_list_ptr x + 8 * (idx + 1))]\<rparr> else x);
          idx = (if chain then idx + 1 else idx) in
      if chain \<and> idx \<ge> nx_prp_cap x - 1 then Some (Inr (False, x))
      else if \<not> idx < length (nx_prp_list x) then None
      else
        let x = x\<lparr>nx_prp_list := (nx_prp_list x)[idx := of_nat (nx_last x)], nx_prp_size := idx + 3, nx_last := start\<rparr> in
        if bend - start \<le> PAGE then Some (Inr (True, x\<lparr>nx_xfer_bytes := nx_xfer_bytes x + (bend - start)\<rparr>))
        else Some (Inl (x\<lparr>nx_xfer_bytes := nx_xfer_bytes x + PAGE\<rparr>, start + PAGE)))"

definition nvme_add_phys_buffer :: "nvme_state \<Rightarrow> nvme_xfer \<Rightarrow> nat \<Rightarrow> nat \<Rightarrow> (bool \<times> nvme_xfer) option" where
  "nvme_add_phys_buffer st x start bend =
    (if rq_status (nv_req st (nx_req x)) \<noteq> NVME_CREATING then None
     else if start mod 4 \<noteq> 0 \<or> bend mod 4 \<noteq> 0 \<or> bend < start then None
     else do {
       (x, rest) \<leftarrow> prp_first x start bend;
       case rest of
         None \<Rightarrow> Some (True, x)
       | Some start \<Rightarrow>
           if start mod PAGE \<noteq> 0 then None
           else if start \<ge> bend then Some (True, x)
           else if nx_prp_size x < 2 then
             let x = x\<lparr>nx_last := start, nx_prp_size := 2\<rparr> in
             if bend - start \<le> PAGE then Some (True, x\<lparr>nx_xfer_bytes := nx_xfer_bytes x + (bend - start)\<rparr>)
             else iterate (prp_step bend) (x\<lparr>nx_xfer_bytes := nx_xfer_bytes x + PAGE\<rparr>, start + PAGE)
           else iterate (prp_step bend) (x, start)
     })"

definition NVME_NVM_READ :: u8 where "NVME_NVM_READ = 2"
definition NVME_PSDT_PRP :: u8 where "NVME_PSDT_PRP = 0"

text \<open>nvme\_emit\_read; the second data pointer is converted with to\_le32.\<close>

definition nvme_emit_read :: "nvme_state \<Rightarrow> nat \<Rightarrow> nvme_xfer \<Rightarrow> u32 \<Rightarrow> u64 \<Rightarrow> (bool \<times> nvme_state \<times> nvme_xfer) option" where
  "nvme_emit_read st sqid x nsid lba =
    (if nx_xfer_bytes x mod 2 ^ nv_lba_shift st \<noteq> 0 then Some (False, st, x)
     else if \<not> sqid < length (nv_sq st) \<or> \<not> unat (sq_tail (nv_sq st ! sqid)) < length (sq_buf (nv_sq st ! sqid)) then None
     else if nx_prp_size x > 2 \<and> \<not> nx_prp_size x - 2 < length (nx_prp_list x) then None
     else
       let sq = nv_sq st ! sqid;
           cmd = zero_cmd\<lparr>c_opc := NVME_NVM_READ, c_fuse_psdt := NVME_PSDT_PRP, c_nsid := nsid, c_dptr0 := of_nat (nx_first x),
             c_dptr1 := (if nx_prp_size x = 2 then ucast (of_nat (nx_last x) :: u32)
                         else if nx_prp_size x > 2 then ucast (of_nat (nx_prp_list_addr x) :: u32) else 0),
             c_dw10 := ucast lba, c_dw11 := ucast (drop_bit 32 lba),
             c_dw12 := of_nat (nx_xfer_bytes x div 2 ^ nv_lba_shift st) - 1\<rparr>;
           x = (if nx_prp_size x > 2 then x\<lparr>nx_prp_list := (nx_prp_list x)[nx_prp_size x - 2 := of_nat (nx_last x)]\<rparr> else x)
       in Some (True, set_sq sqid (sq\<lparr>sq_buf := (sq_buf sq)[unat (sq_tail sq) := cmd]\<rparr>) st, x))"

definition nvme_read_wait :: "(nat \<Rightarrow> nvme_state \<Rightarrow> nvme_state) \<Rightarrow> (nat \<Rightarrow> u32) \<Rightarrow> nvme_state \<Rightarrow> nat \<Rightarrow> nat \<Rightarrow> nvme_xfer \<Rightarrow> u32 \<Rightarrow> u64 \<Rightarrow>
    (iost \<times> nvme_state \<times> nvme_xfer) option" where
  "nvme_read_wait env csts st sqid req x nsid lba = do {
     (ok, st, x) \<leftarrow> nvme_emit_read st sqid x nsid lba;
     if \<not> ok then Some (IOST_INVALID, st, x)
     else do {
       (res, st) \<leftarrow> wait_single_command env csts st sqid req;
       Some (res, st, x)
     }
   }"

section \<open>The completion queue is a queue\<close>

text \<open>
  The queue holds the completions q that are not yet processed: seen from the position of the
  driver, an entry has the expected phase exactly if it is one of them.
\<close>

definition cq_len :: "nvme_cq \<Rightarrow> nat" where "cq_len cq = unat (cq_size cq) + 1"

definition cq_at :: "nvme_cq \<Rightarrow> nat \<Rightarrow> nvme_completion" where
  "cq_at cq i = cq_buf cq ! ((unat (cq_pos cq) + i) mod cq_len cq)"

definition cq_expect :: "nvme_cq \<Rightarrow> nat \<Rightarrow> bool" where
  "cq_expect cq i \<longleftrightarrow> cq_phase cq \<noteq> (cq_len cq \<le> unat (cq_pos cq) + i)"

definition cq_rep :: "nvme_cq \<Rightarrow> nvme_completion list \<Rightarrow> bool" where
  "cq_rep cq q \<longleftrightarrow> length (cq_buf cq) = cq_len cq \<and> unat (cq_pos cq) < cq_len cq \<and> length q \<le> cq_len cq \<and>
     (\<forall>i < length q. cq_at cq i = q ! i) \<and>
     (\<forall>i < cq_len cq. cqe_phase (cq_at cq i) = cq_expect cq i \<longleftrightarrow> i < length q)"

text \<open>The controller posts a completion behind the pending ones, with the phase of its place.\<close>

definition with_phase :: "bool \<Rightarrow> nvme_completion \<Rightarrow> nvme_completion" where
  "with_phase b c = c\<lparr>cqe_status := (if b then set_bit 0 (cqe_status c) else unset_bit 0 (cqe_status c))\<rparr>"

definition cq_post :: "nvme_cq \<Rightarrow> nat \<Rightarrow> nvme_completion \<Rightarrow> nvme_cq" where
  "cq_post cq n c = cq\<lparr>cq_buf := (cq_buf cq)[(unat (cq_pos cq) + n) mod cq_len cq := with_phase (cq_expect cq n) c]\<rparr>"

text \<open>The step of the driver over one entry.\<close>

definition cq_advance :: "nvme_cq \<Rightarrow> nvme_cq" where
  "cq_advance cq = (let cq = (if unat (cq_pos cq) < unat (cq_size cq) then cq\<lparr>cq_pos := cq_pos cq + 1\<rparr>
       else cq\<lparr>cq_pos := 0, cq_phase := \<not> cq_phase cq\<rparr>)
     in cq\<lparr>cq_doorbell := ucast (cq_pos cq)\<rparr>)"

lemma phase_with_phase [simp]: "cqe_phase (with_phase b c) = b"
  by (simp add: cqe_phase_def with_phase_def bit_set_bit_iff bit_unset_bit_iff)

lemma ring_mod: "(x :: nat) < 2 * n \<Longrightarrow> x mod n = (if x < n then x else x - n)"
  by (simp add: mod_if)

lemma ring_inj:
  assumes "p < n" "i < n" "j < (n :: nat)"
  shows "(p + i) mod n = (p + j) mod n \<longleftrightarrow> i = j"
  using assms by (auto simp: ring_mod split: if_splits)

lemma cq_rep_post:
  assumes r: "cq_rep cq q" and n: "length q < cq_len cq"
  shows "cq_rep (cq_post cq (length q) c) (q @ [with_phase (cq_expect cq (length q)) c])"
proof -
  let ?cq = "cq_post cq (length q) c" and ?c = "with_phase (cq_expect cq (length q)) c" and ?N = "cq_len cq"
  have N: "cq_len ?cq = ?N" "cq_expect ?cq = cq_expect cq" "unat (cq_pos ?cq) = unat (cq_pos cq)"
    by (auto simp: cq_post_def cq_len_def cq_expect_def fun_eq_iff)
  have len: "length (cq_buf cq) = ?N" "0 < ?N" using r n by (auto simp: cq_rep_def)
  have at: "cq_at ?cq i = (if i = length q then ?c else cq_at cq i)" if "i < ?N" for i
  proof -
    have "(unat (cq_pos cq) + i) mod ?N = (unat (cq_pos cq) + length q) mod ?N \<longleftrightarrow> i = length q"
      using that n r by (intro ring_inj) (auto simp: cq_rep_def)
    then show ?thesis
      using len unfolding cq_at_def N by (auto simp: cq_post_def nth_list_update)
  qed
  show ?thesis
    unfolding cq_rep_def N using r n at
    by (auto simp: cq_rep_def cq_post_def nth_append less_Suc_eq)
qed

lemma cq_advance_shift:
  assumes "unat (cq_pos cq) < cq_len cq"
  shows "cq_len (cq_advance cq) = cq_len cq" "cq_buf (cq_advance cq) = cq_buf cq" "unat (cq_pos (cq_advance cq)) < cq_len cq"
    "cq_at (cq_advance cq) i = cq_at cq (i + 1)" "i < cq_len cq \<Longrightarrow> cq_expect (cq_advance cq) i = cq_expect cq (i + 1)"
proof -
  have l: "cq_len (cq_advance cq) = cq_len cq" "cq_buf (cq_advance cq) = cq_buf cq"
    by (simp_all add: cq_advance_def cq_len_def Let_def)
  have "unat (cq_pos (cq_advance cq)) < cq_len cq \<and> cq_at (cq_advance cq) i = cq_at cq (i + 1) \<and>
      (i < cq_len cq \<longrightarrow> cq_expect (cq_advance cq) i = cq_expect cq (i + 1))"
  proof (cases "unat (cq_pos cq) < unat (cq_size cq)")
    case True
    then have "unat (cq_pos cq) + 1 < 65536"
      using unsigned_less [of "cq_size cq", where 'a = nat] by simp
    then have "unat (cq_pos cq + 1) = unat (cq_pos cq) + 1"
      by (simp add: unat_word_ariths)
    then show ?thesis
      using True l by (simp add: cq_at_def cq_expect_def) (simp add: cq_advance_def cq_len_def)
  next
    case False
    then have p: "unat (cq_pos cq) + 1 = cq_len cq" using assms by (simp add: cq_len_def)
    have "(unat (cq_pos cq) + (i + 1)) mod cq_len cq = i mod cq_len cq"
      using p by (metis add.assoc add.commute mod_add_self2)
    moreover have "cq_pos (cq_advance cq) = 0" "cq_phase (cq_advance cq) = (\<not> cq_phase cq)"
      using False by (simp_all add: cq_advance_def)
    ultimately show ?thesis
      using p l by (auto simp: cq_at_def cq_expect_def)
  qed
  then show "cq_len (cq_advance cq) = cq_len cq" "cq_buf (cq_advance cq) = cq_buf cq" "unat (cq_pos (cq_advance cq)) < cq_len cq"
    "cq_at (cq_advance cq) i = cq_at cq (i + 1)" "i < cq_len cq \<Longrightarrow> cq_expect (cq_advance cq) i = cq_expect cq (i + 1)"
    using l by auto
qed

lemma cq_rep_advance:
  assumes r: "cq_rep cq (c # q)"
  shows "cq_rep (cq_advance cq) q"
proof -
  have pos: "unat (cq_pos cq) < cq_len cq" using r by (simp add: cq_rep_def)
  note sh = cq_advance_shift [OF pos]
  let ?N = "cq_len cq"
  have old: "cqe_phase (cq_at cq i) = cq_expect cq i \<longleftrightarrow> i < length (c # q)" if "i < ?N" for i
    using r that by (simp add: cq_rep_def)
  have "cqe_phase (cq_at cq (i + 1)) = cq_expect cq (i + 1) \<longleftrightarrow> i < length q" if "i < ?N" for i
  proof (cases "i + 1 < ?N")
    case True
    then show ?thesis using old [OF True] by simp
  next
    case False
    then have i: "i + 1 = ?N" using that by simp
    have "cq_at cq ?N = cq_at cq 0" "cq_expect cq ?N = (\<not> cq_expect cq 0)"
      using pos by (auto simp: cq_at_def cq_expect_def)
    moreover have "length q < ?N" using r by (simp add: cq_rep_def)
    ultimately show ?thesis
      using i old [of 0] by (auto simp: that)
  qed
  then show ?thesis
    using r sh unfolding cq_rep_def by auto
qed

lemma fresh_cq_rep: "cq_rep (fresh_cq cq) []"
proof -
  have "cq_at (fresh_cq cq) i = zero_completion" if "i < cq_len (fresh_cq cq)" for i
    using that by (simp add: fresh_cq_def cq_len_def cq_at_def del: replicate_Suc)
  then show ?thesis
    by (auto simp: cq_rep_def cqe_phase_def zero_completion_def) (simp_all add: fresh_cq_def cq_len_def cq_expect_def)
qed

text \<open>The completion c is for the request at p, which has been submitted on a queue that reports to cqid.\<close>

definition expected :: "nvme_state \<Rightarrow> nat \<Rightarrow> nvme_completion \<Rightarrow> nat \<Rightarrow> bool" where
  "expected st cqid c p \<longleftrightarrow> cqe_sqid c \<le> nv_num_iosq st \<and> unat (cqe_sqid c) < length (nv_sq st) \<and> p \<noteq> 0 \<and>
     (let sq = nv_sq st ! unat (cqe_sqid c) in unat (sq_cq sq) = cqid \<and> cqe_cid c \<le> sq_max_cid sq \<and>
       (\<exists>slots. sq_cmd sq = Some slots \<and> unat (cqe_cid c) < length slots \<and> slots ! unat (cqe_cid c) = p))"

text \<open>What the driver knows of a completion once it is processed.\<close>

definition completed :: "nvme_completion \<Rightarrow> nvme_req" where
  "completed c = \<lparr>rq_data0 = cqe_cmd_spec c, rq_data1 = cqe_reserved c, rq_aux = 0, rq_status = cqe_status c OR 1\<rparr>"

definition free_cid :: "nvme_completion \<Rightarrow> nvme_sq \<Rightarrow> nvme_sq" where
  "free_cid c sq = sq\<lparr>sq_cmd := map_option (\<lambda>slots. slots[unat (cqe_cid c) := 0]) (sq_cmd sq), sq_head := cqe_sqhd c\<rparr>"

lemma cq_rep_head:
  assumes "cq_rep cq (c # q)"
  shows "unat (cq_pos cq) < cq_len cq" "length (cq_buf cq) = cq_len cq" "cq_at cq 0 = c" "cqe_phase c = cq_expect cq 0"
proof -
  have "0 < length (c # q)" "0 < cq_len cq" by (simp_all add: cq_len_def)
  with assms show "unat (cq_pos cq) < cq_len cq" "length (cq_buf cq) = cq_len cq" "cq_at cq 0 = c" "cqe_phase c = cq_expect cq 0"
    unfolding cq_rep_def by (blast, blast, (metis nth_Cons_0)+)
qed

lemma process_cqe_empty:
  assumes "cqid < length (nv_cq st)" "cq_rep (nv_cq st ! cqid) []"
  shows "nvme_process_cqe st cqid = Some (IOST_TRANSIENT, st)"
proof -
  let ?cq = "nv_cq st ! cqid"
  have p: "unat (cq_pos ?cq) < cq_len ?cq" "length (cq_buf ?cq) = cq_len ?cq"
    "cqe_phase (cq_at ?cq 0) \<noteq> cq_expect ?cq 0"
    using assms(2) by (auto simp: cq_rep_def)
  then have "cqe_phase (cq_buf ?cq ! unat (cq_pos ?cq)) \<noteq> cq_phase ?cq"
    by (simp add: cq_at_def cq_expect_def)
  then show ?thesis
    using assms(1) p by (simp add: nvme_process_cqe_def Let_def)
qed

lemma process_cqe_next:
  assumes "cqid < length (nv_cq st)" "cq_rep (nv_cq st ! cqid) (c # q)" "expected st cqid c p"
  shows "nvme_process_cqe st cqid = Some (IOST_OK, set_cq cqid (cq_advance (nv_cq st ! cqid))
    (set_sq (unat (cqe_sqid c)) (free_cid c (nv_sq st ! unat (cqe_sqid c))) (set_req p (completed c) st)))"
proof -
  let ?cq = "nv_cq st ! cqid" and ?sq = "nv_sq st ! unat (cqe_sqid c)"
  note r = cq_rep_head [OF assms(2)]
  then have c: "cq_buf ?cq ! unat (cq_pos ?cq) = c" "cqe_phase c = cq_phase ?cq"
    by (auto simp: cq_at_def cq_expect_def)
  obtain slots where sl: "sq_cmd ?sq = Some slots" "unat (cqe_cid c) < length slots" "slots ! unat (cqe_cid c) = p" "p \<noteq> 0"
    "unat (sq_cq ?sq) = cqid" "\<not> sq_max_cid ?sq < cqe_cid c" "\<not> nv_num_iosq st < cqe_sqid c" "unat (cqe_sqid c) < length (nv_sq st)"
    using assms(3) by (auto simp: expected_def Let_def not_less)
  show ?thesis
    using assms(1) r(1,2) c sl
    by (simp add: nvme_process_cqe_def Let_def completed_def free_cid_def cq_advance_def del: not_less)
qed

section \<open>Submitting commands\<close>

lemma free_slot_Some:
  "free_slot ps i = Some j \<Longrightarrow> i \<le> j \<and> j - i < length ps \<and> ps ! (j - i) = 0"
proof (induction ps i rule: free_slot.induct)
  case (2 p ps i)
  show ?case
  proof (cases "p = 0")
    case False
    then have "i + 1 \<le> j \<and> j - (i + 1) < length ps \<and> ps ! (j - (i + 1)) = 0"
      using 2 by simp
    then show ?thesis by (auto simp: nth_Cons' Suc_diff_le)
  qed (use 2 in auto)
qed simp

lemma free_slot_None: "free_slot ps i = None \<longleftrightarrow> 0 \<notin> set ps"
  by (induction ps i rule: free_slot.induct) auto

text \<open>A submission queue as the driver sets it up: a ring of commands and a table of requests.\<close>

definition sq_ok :: "nvme_sq \<Rightarrow> bool" where
  "sq_ok sq \<longleftrightarrow> length (sq_buf sq) = unat (sq_size sq) + 1 \<and> sq_tail sq \<le> sq_size sq \<and>
     (\<exists>slots. sq_cmd sq = Some slots \<and> length slots = unat (sq_max_cid sq) + 1)"

definition sq_next :: "nvme_sq \<Rightarrow> u16" where
  "sq_next sq = (if sq_tail sq = sq_size sq then 0 else sq_tail sq + 1)"

definition sq_slots :: "nvme_sq \<Rightarrow> nat list" where
  "sq_slots sq = (case sq_cmd sq of None \<Rightarrow> [] | Some slots \<Rightarrow> slots)"

lemma submit_result:
  fixes st sqid req
  assumes "sqid \<le> unat (nv_num_iosq st)" "sqid < length (nv_sq st)" "sq_ok (nv_sq st ! sqid)"
  defines "sq \<equiv> nv_sq st ! sqid" and "st1 \<equiv> set_req req ((nv_req st req)\<lparr>rq_status := NVME_SUBMITTED\<rparr>) st"
  shows "sq_next sq = sq_head sq \<Longrightarrow> nvme_submit_single_command st sqid req = Some (False, st)"
    and "sq_next sq \<noteq> sq_head sq \<Longrightarrow> 0 \<notin> set (sq_slots sq) \<Longrightarrow> nvme_submit_single_command st sqid req = Some (False, st1)"
    and "sq_next sq \<noteq> sq_head sq \<Longrightarrow> free_slot (sq_slots sq) 0 = Some i \<Longrightarrow>
        nvme_submit_single_command st sqid req = Some (True, set_sq sqid (sq\<lparr>sq_cmd := Some ((sq_slots sq)[i := req]),
          sq_buf := (sq_buf sq)[unat (sq_tail sq) := (sq_buf sq ! unat (sq_tail sq))\<lparr>c_cid := of_nat i\<rparr>],
          sq_tail := sq_next sq, sq_doorbell := ucast (sq_next sq)\<rparr>) st1)"
proof -
  obtain slots where sl: "sq_cmd sq = Some slots" "length slots = unat (sq_max_cid sq) + 1"
    using assms(3) by (auto simp: sq_ok_def sq_def)
  have t: "unat (sq_tail sq) < length (sq_buf sq)"
    using assms(3) by (auto simp: sq_ok_def sq_def word_le_nat_alt)
  have eq: "nvme_submit_single_command st sqid req = (if sq_next sq = sq_head sq then Some (False, st)
      else case free_slot slots 0 of None \<Rightarrow> Some (False, st1)
        | Some i \<Rightarrow> Some (True, set_sq sqid (sq\<lparr>sq_cmd := Some (slots[i := req]),
            sq_buf := (sq_buf sq)[unat (sq_tail sq) := (sq_buf sq ! unat (sq_tail sq))\<lparr>c_cid := of_nat i\<rparr>],
            sq_tail := sq_next sq, sq_doorbell := ucast (sq_next sq)\<rparr>) st1))"
    using assms(1,2) sl t unfolding nvme_submit_single_command_def sq_def [symmetric] st1_def
    by (simp add: Let_def sq_next_def cong: option.case_cong)
  have s: "sq_slots sq = slots" using sl by (simp add: sq_slots_def)
  show "sq_next sq = sq_head sq \<Longrightarrow> nvme_submit_single_command st sqid req = Some (False, st)"
    by (simp add: eq)
  show "sq_next sq \<noteq> sq_head sq \<Longrightarrow> 0 \<notin> set (sq_slots sq) \<Longrightarrow> nvme_submit_single_command st sqid req = Some (False, st1)"
    by (simp add: eq s free_slot_None [THEN iffD2])
  show "sq_next sq \<noteq> sq_head sq \<Longrightarrow> free_slot (sq_slots sq) 0 = Some i \<Longrightarrow>
        nvme_submit_single_command st sqid req = Some (True, set_sq sqid (sq\<lparr>sq_cmd := Some ((sq_slots sq)[i := req]),
          sq_buf := (sq_buf sq)[unat (sq_tail sq) := (sq_buf sq ! unat (sq_tail sq))\<lparr>c_cid := of_nat i\<rparr>],
          sq_tail := sq_next sq, sq_doorbell := ucast (sq_next sq)\<rparr>) st1)"
    by (simp add: eq s)
qed

section \<open>All pending completions, in order\<close>

text \<open>The effect of one completion on the state of the driver.\<close>

definition deliver :: "nat \<Rightarrow> nvme_completion \<Rightarrow> nvme_state \<Rightarrow> nvme_state" where
  "deliver cqid c st =
    (let sq = nv_sq st ! unat (cqe_sqid c)
     in set_cq cqid (cq_advance (nv_cq st ! cqid))
          (set_sq (unat (cqe_sqid c)) (free_cid c sq) (set_req (sq_slots sq ! unat (cqe_cid c)) (completed c) st)))"

fun all_expected :: "nat \<Rightarrow> nvme_state \<Rightarrow> nvme_completion list \<Rightarrow> bool" where
  "all_expected cqid st [] \<longleftrightarrow> True"
| "all_expected cqid st (c # q) \<longleftrightarrow> (\<exists>p. expected st cqid c p) \<and> all_expected cqid (deliver cqid c st) q"

lemma expected_slot: "expected st cqid c p \<Longrightarrow> sq_slots (nv_sq st ! unat (cqe_sqid c)) ! unat (cqe_cid c) = p"
  by (auto simp: expected_def sq_slots_def Let_def)

lemma deliver_simps [simp]:
  "length (nv_cq (deliver cqid c st)) = length (nv_cq st)" "length (nv_sq (deliver cqid c st)) = length (nv_sq st)"
  "cqid < length (nv_cq st) \<Longrightarrow> nv_cq (deliver cqid c st) ! cqid = cq_advance (nv_cq st ! cqid)"
  "j \<noteq> cqid \<Longrightarrow> nv_cq (deliver cqid c st) ! j = nv_cq st ! j"
  "nv_num_iocq (deliver cqid c st) = nv_num_iocq st" "nv_num_iosq (deliver cqid c st) = nv_num_iosq st"
  by (simp_all add: deliver_def Let_def set_cq_def set_sq_def set_req_def)

lemma drain_in_order:
  assumes "cqid < length (nv_cq st)" "cq_rep (nv_cq st ! cqid) q" "all_expected cqid st q"
  shows "iterate (drain_step cqid) st = Some (IOST_TRANSIENT, fold (deliver cqid) q st)"
  using assms
proof (induction q arbitrary: st)
  case Nil
  then show ?case
    using process_cqe_empty [of cqid st] by (simp add: iterate.simps drain_step_def)
next
  case (Cons c q)
  then obtain p where p: "expected st cqid c p" by auto
  have "drain_step cqid st = Some (Inl (deliver cqid c st))"
    using process_cqe_next [OF Cons.prems(1,2) p] expected_slot [OF p] by (simp add: drain_step_def deliver_def Let_def)
  moreover have "iterate (drain_step cqid) (deliver cqid c st) = Some (IOST_TRANSIENT, fold (deliver cqid) q (deliver cqid c st))"
    using Cons.prems cq_rep_advance [OF Cons.prems(2)] by (intro Cons.IH) auto
  ultimately show ?case
    by (simp add: iterate.simps [of "drain_step cqid" st])
qed

lemma drain_queues_empty:
  assumes "\<And>j. cqid \<le> j \<Longrightarrow> j < cqid + n \<Longrightarrow> j < length (nv_cq st) \<and> cq_rep (nv_cq st ! j) []"
  shows "drain_queues cqid n st = Some (True, st)"
  using assms
proof (induction n arbitrary: cqid)
  case (Suc n)
  then have "iterate (drain_step cqid) st = Some (IOST_TRANSIENT, st)"
    using drain_in_order [of cqid st "[]"] by simp
  then show ?case
    using Suc by simp
qed simp

text \<open>C8: the completion queue is a queue: whatever completions the controller has posted and
  the driver has not yet processed are processed in the order of their posting, each once, and
  the driver stops at the first entry that is not new, across the wrap-around of the ring.\<close>

theorem nvme_completions_in_order:
  assumes "cqid < length (nv_cq st)" "cq_rep (nv_cq st ! cqid) q" "length q < cq_len (nv_cq st ! cqid)"
    "all_expected cqid (set_cq cqid (cq_post (nv_cq st ! cqid) (length q) c) st) (q @ [with_phase (cq_expect (nv_cq st ! cqid) (length q)) c])"
  shows "let st1 = set_cq cqid (cq_post (nv_cq st ! cqid) (length q) c) st;
             st2 = fold (deliver cqid) (q @ [with_phase (cq_expect (nv_cq st ! cqid) (length q)) c]) st1
    in iterate (drain_step cqid) st1 = Some (IOST_TRANSIENT, st2) \<and> nvme_process_cqe st2 cqid = Some (IOST_TRANSIENT, st2)"
proof -
  let ?q = "q @ [with_phase (cq_expect (nv_cq st ! cqid) (length q)) c]"
  let ?st1 = "set_cq cqid (cq_post (nv_cq st ! cqid) (length q) c) st"
  have r: "cqid < length (nv_cq ?st1)" "cq_rep (nv_cq ?st1 ! cqid) ?q"
    using assms(1) cq_rep_post [OF assms(2,3)] by (simp_all add: set_cq_def)
  have "cqid < length (nv_cq (fold (deliver cqid) xs s)) \<and> cq_rep (nv_cq (fold (deliver cqid) xs s) ! cqid) []"
    if "cqid < length (nv_cq s)" "cq_rep (nv_cq s ! cqid) xs" for xs s
    using that by (induction xs arbitrary: s) (auto dest: cq_rep_advance)
  from this [OF r] process_cqe_empty show ?thesis
    using drain_in_order [OF r assms(4)] unfolding Let_def by blast
qed

text \<open>One pending completion in one of the queues.\<close>

lemma drain_queues_one:
  assumes "k < n" "\<And>j. cqid \<le> j \<Longrightarrow> j < cqid + n \<Longrightarrow> j < length (nv_cq st) \<and> cq_rep (nv_cq st ! j) (if j = cqid + k then [c] else [])"
    "expected st (cqid + k) c p"
  shows "drain_queues cqid n st = Some (True, deliver (cqid + k) c st)"
  using assms
proof (induction n arbitrary: cqid k)
  case (Suc n)
  show ?case
  proof (cases k)
    case 0
    have "iterate (drain_step cqid) st = Some (IOST_TRANSIENT, deliver cqid c st)"
      using drain_in_order [of cqid st "[c]"] Suc.prems(2) [of cqid] Suc.prems(3) 0 by auto
    moreover have "drain_queues (cqid + 1) n (deliver cqid c st) = Some (True, deliver cqid c st)"
    proof (rule drain_queues_empty)
      fix j assume "cqid + 1 \<le> j" "j < cqid + 1 + n"
      then show "j < length (nv_cq (deliver cqid c st)) \<and> cq_rep (nv_cq (deliver cqid c st) ! j) []"
        using Suc.prems(2) [of j] 0 by simp
    qed
    ultimately show ?thesis using 0 by simp
  next
    case (Suc k')
    have "iterate (drain_step cqid) st = Some (IOST_TRANSIENT, st)"
      using drain_in_order [of cqid st "[]"] Suc.prems(2) [of cqid] Suc by auto
    moreover have "drain_queues (cqid + 1) n st = Some (True, deliver (cqid + 1 + k') c st)"
      using Suc.prems Suc by (intro Suc.IH) auto
    ultimately show ?thesis using Suc by simp
  qed
qed simp

section \<open>A command and its completion\<close>

text \<open>The controller answers in round t: it posts a completion of the command.\<close>

definition answers :: "nat \<Rightarrow> nat \<Rightarrow> nvme_completion \<Rightarrow> nat \<Rightarrow> nvme_state \<Rightarrow> nvme_state" where
  "answers t cqid c i st = (if i = t then set_cq cqid (cq_post (nv_cq st ! cqid) 0 c) st else st)"

definition queues_idle :: "nvme_state \<Rightarrow> bool" where
  "queues_idle st \<longleftrightarrow> (\<forall>j \<le> unat (nv_num_iocq st). j < length (nv_cq st) \<and> cq_rep (nv_cq st ! j) [])"

lemma wait_req_silent:
  assumes "queues_idle st" "rq_status (nv_req st req) = NVME_SUBMITTED" "n \<le> t" "\<And>i. csts i AND NVME_CSTS_CFS = 0"
  shows "iterate (wait_step (answers t cqid c) csts req) (t - n, st) = iterate (wait_step (answers t cqid c) csts req) (t, st)"
  using assms(3)
proof (induction n)
  case (Suc n)
  have "drain_queues 0 (unat (nv_num_iocq st) + 1) st = Some (True, st)"
    using assms(1) by (intro drain_queues_empty) (auto simp: queues_idle_def)
  moreover have "t - Suc n \<noteq> t" using Suc.prems by simp
  ultimately have "wait_step (answers t cqid c) csts req (t - Suc n, st) = Some (Inl (t - n, st))"
    using assms(2,4) Suc.prems by (simp add: wait_step_def answers_def Let_def Suc_diff_Suc del: drain_queues.simps)
  then have "iterate (wait_step (answers t cqid c) csts req) (t - Suc n, st) = iterate (wait_step (answers t cqid c) csts req) (t - n, st)"
    by (subst iterate.simps) simp
  then show ?case
    using Suc by simp
qed simp

lemma expected_post: "expected (set_cq cqid cq st) cqid' c p = expected st cqid' c p"
  by (simp add: expected_def set_cq_def)

lemma expected_phase: "expected st cqid (with_phase b c) p = expected st cqid c p"
  by (simp add: expected_def with_phase_def)

lemma status_mask: "(cqe_status (with_phase b c) OR 1) AND 0xfffe = cqe_status c AND 0xfffe"
proof -
  have e: "(0xfffe :: u16) = NOT 1" by simp
  show ?thesis
    unfolding e
    by (rule bit_word_eqI)
      (auto simp: bit_and_iff bit_or_iff bit_not_iff bit_1_iff with_phase_def bit_set_bit_iff bit_unset_bit_iff)
qed

lemma wait_req_answered:
  assumes idle: "queues_idle st" and req: "rq_status (nv_req st req) = NVME_SUBMITTED" "\<And>i. csts i AND NVME_CSTS_CFS = 0"
    and c: "expected st cqid c req" "cqid \<le> unat (nv_num_iocq st)"
  defines "c' \<equiv> with_phase (cq_expect (nv_cq st ! cqid) 0) c"
  shows "nvme_wait_req (answers t cqid c) csts st req = Some (if cqe_status c AND 0xfffe \<noteq> 0 then IOST_LOCAL else IOST_OK,
    deliver cqid c' (set_cq cqid (cq_post (nv_cq st ! cqid) 0 c) st))"
proof -
  let ?cq = "nv_cq st ! cqid" and ?st = "set_cq cqid (cq_post (nv_cq st ! cqid) 0 c) st"
  have l: "cqid < length (nv_cq st)" "cq_rep ?cq []" using idle c(2) by (auto simp: queues_idle_def)
  have "0 < cq_len ?cq" by (simp add: cq_len_def)
  with cq_rep_post [OF l(2)] have p: "cq_rep (cq_post ?cq 0 c) [c']" by (simp add: c'_def)
  have e: "expected ?st cqid c' req"
    using c(1) by (simp add: expected_post c'_def expected_phase)
  have "drain_queues 0 (unat (nv_num_iocq ?st) + 1) ?st = Some (True, deliver (0 + cqid) c' ?st)"
    by (rule drain_queues_one [where p = req]) (use l p idle c(2) e in \<open>auto simp: queues_idle_def set_cq_def nth_list_update\<close>)
  then have d: "drain_queues 0 (unat (nv_num_iocq st) + 1) ?st = Some (True, deliver cqid c' ?st)"
    by (simp add: set_cq_def)
  have st: "rq_status (nv_req (deliver cqid c' ?st) req) = cqe_status c' OR 1"
    using expected_slot [OF e] by (simp add: deliver_def Let_def set_cq_def set_sq_def set_req_def completed_def)
  have "bit (cqe_status c' OR 1) 0" "\<not> bit NVME_SUBMITTED 0"
    by (simp_all add: bit_or_iff NVME_SUBMITTED_def)
  then have ne: "cqe_status c' OR 1 \<noteq> NVME_SUBMITTED" by metis
  have m: "(cqe_status c' OR 1) AND 0xfffe = cqe_status c AND 0xfffe"
    unfolding c'_def by (rule status_mask)
  have "wait_step (answers t cqid c) csts req (t, st) =
      Some (Inr (if cqe_status c AND 0xfffe \<noteq> 0 then IOST_LOCAL else IOST_OK, deliver cqid c' ?st))"
    using d st ne m by (simp add: wait_step_def answers_def Let_def del: drain_queues.simps)
  then have "iterate (wait_step (answers t cqid c) csts req) (t, st) =
      Some (if cqe_status c AND 0xfffe \<noteq> 0 then IOST_LOCAL else IOST_OK, deliver cqid c' ?st)"
    by (subst iterate.simps) simp
  then show ?thesis
    unfolding nvme_wait_req_def using wait_req_silent [OF idle req(1), of t t] req(2) by simp
qed

lemma deliver_idle:
  assumes "queues_idle st" "cqid \<le> unat (nv_num_iocq st)"
  shows "queues_idle (deliver cqid (with_phase (cq_expect (nv_cq st ! cqid) 0) c) (set_cq cqid (cq_post (nv_cq st ! cqid) 0 c) st))"
proof -
  let ?cq = "nv_cq st ! cqid"
  have l: "cqid < length (nv_cq st)" "cq_rep ?cq []" using assms by (auto simp: queues_idle_def)
  have "0 < cq_len ?cq" by (simp add: cq_len_def)
  with cq_rep_post [OF l(2)] have "cq_rep (cq_advance (cq_post ?cq 0 c)) []"
    by (intro cq_rep_advance) simp
  then show ?thesis
    using assms l by (auto simp: queues_idle_def set_cq_def nth_list_update deliver_def Let_def set_sq_def set_req_def)
qed

text \<open>C25: a command that is submitted on a queue with a free place and a free identifier
  comes back: when the controller completes it after any number of polling rounds, waiting
  for it returns the verdict of the completion, hands over its data, frees the
  identifier and leaves the completion queues empty.\<close>

theorem nvme_command_roundtrip:
  fixes st sqid req c i t csts
  defines "sq \<equiv> nv_sq st ! sqid"
  assumes idle: "queues_idle st" and sq: "sqid \<le> unat (nv_num_iosq st)" "sqid < length (nv_sq st)" "sq_ok sq" "unat (sq_cq sq) \<le> unat (nv_num_iocq st)"
    and req: "req \<noteq> 0" "sq_next sq \<noteq> sq_head sq" "free_slot (sq_slots sq) 0 = Some i"
    and c: "cqe_sqid c = of_nat sqid" "cqe_cid c = of_nat i" and csts: "\<And>r. csts r AND NVME_CSTS_CFS = 0"
  shows "\<exists>st'. wait_single_command (answers t (unat (sq_cq sq)) c) csts st sqid req =
      Some (if cqe_status c AND 0xfffe \<noteq> 0 then IOST_LOCAL else IOST_OK, st') \<and>
    rq_data0 (nv_req st' req) = cqe_cmd_spec c \<and> sq_slots (nv_sq st' ! sqid) = sq_slots sq \<and> queues_idle st'"
proof -
  let ?cqid = "unat (sq_cq sq)"
  obtain slots where sl: "sq_cmd sq = Some slots" "length slots = unat (sq_max_cid sq) + 1" "sq_slots sq = slots"
    using sq(3) by (auto simp: sq_ok_def sq_slots_def)
  have i: "i < length slots" "slots ! i = 0" "i \<le> unat (sq_max_cid sq)"
    using free_slot_Some [OF req(3)] sl by auto
  have w: "unat (of_nat i :: u16) = i" "unat (of_nat sqid :: u16) = sqid"
    using i(3) sq(1) unsigned_less [of "sq_max_cid sq", where 'a = nat] unsigned_less [of "nv_num_iosq st", where 'a = nat]
    by (simp_all add: unat_of_nat)
  let ?st0 = "set_req req \<lparr>rq_data0 = 0, rq_data1 = 0, rq_aux = 0, rq_status = 0\<rparr> st"
  have q: "nv_sq ?st0 = nv_sq st" "nv_num_iosq ?st0 = nv_num_iosq st" by (simp_all add: set_req_def)
  obtain st1 where st1: "nvme_submit_single_command ?st0 sqid req = Some (True, st1)"
    "nv_cq st1 = nv_cq st" "nv_num_iocq st1 = nv_num_iocq st" "nv_num_iosq st1 = nv_num_iosq st"
    "rq_status (nv_req st1 req) = NVME_SUBMITTED" "length (nv_sq st1) = length (nv_sq st)"
    "nv_sq st1 ! sqid = sq\<lparr>sq_cmd := Some (slots[i := req]),
      sq_buf := (sq_buf sq)[unat (sq_tail sq) := (sq_buf sq ! unat (sq_tail sq))\<lparr>c_cid := of_nat i\<rparr>],
      sq_tail := sq_next sq, sq_doorbell := ucast (sq_next sq)\<rparr>"
    using submit_result(3) [of sqid ?st0 i req] q sq req sl(3) sq_def
    by (auto simp: set_sq_def set_req_def)
  have e: "expected st1 ?cqid c req"
    using st1 c w i req(1) sq sl
    by (simp add: expected_def Let_def word_le_nat_alt)
  have idle1: "queues_idle st1" using idle st1(2,3) by (simp add: queues_idle_def)
  have cq: "?cqid \<le> unat (nv_num_iocq st1)" using sq(4) st1(3) by simp
  let ?st2 = "deliver ?cqid (with_phase (cq_expect (nv_cq st1 ! ?cqid) 0) c) (set_cq ?cqid (cq_post (nv_cq st1 ! ?cqid) 0 c) st1)"
  have "wait_single_command (answers t ?cqid c) csts st sqid req =
      Some (if cqe_status c AND 0xfffe \<noteq> 0 then IOST_LOCAL else IOST_OK, ?st2)"
    using st1(1) wait_req_answered [OF idle1 st1(5) csts e cq] by (simp add: wait_single_command_def Let_def)
  moreover have "rq_data0 (nv_req ?st2 req) = cqe_cmd_spec c \<and> sq_slots (nv_sq ?st2 ! sqid) = slots"
    using st1(6,7) c w i sq(2) list_update_id [of slots i]
    by (simp add: deliver_def Let_def set_cq_def set_sq_def set_req_def completed_def free_cid_def sq_slots_def with_phase_def)
  ultimately show ?thesis
    using deliver_idle [OF idle1 cq, of c] sl(3) by (intro exI [of _ ?st2]) simp
qed

section \<open>The pages of a transfer\<close>

text \<open>How the controller reads the pages of a command, for n bytes; fetch gives the list at an address.\<close>

fun list_segs :: "u64 list \<Rightarrow> nat \<Rightarrow> (nat \<times> nat) list" where
  "list_segs [] n = []"
| "list_segs (e # es) n = (if n \<le> PAGE then [(unat e, n)] else (unat e, PAGE) # list_segs es (n - PAGE))"

definition prp_segs :: "(nat \<Rightarrow> u64 list) \<Rightarrow> nvme_cmd \<Rightarrow> nat \<Rightarrow> (nat \<times> nat) list" where
  "prp_segs fetch cmd n =
    (let a = unat (c_dptr0 cmd); n1 = min n (PAGE - a mod PAGE); rest = n - n1
     in (a, n1) # (if rest = 0 then [] else if rest \<le> PAGE then [(unat (c_dptr1 cmd), rest)]
                   else list_segs (fetch (unat (c_dptr1 cmd))) rest))"

text \<open>The transfer lists the pages from p on, all but the last of them in the list.\<close>

definition prp_pages :: "nat \<Rightarrow> nat \<Rightarrow> u64 list" where
  "prp_pages p k = map (\<lambda>j. of_nat (p + PAGE * j)) [0..<k]"

definition prp_inv :: "nvme_xfer \<Rightarrow> nat \<Rightarrow> nat \<Rightarrow> nvme_xfer \<Rightarrow> bool" where
  "prp_inv x0 p k x \<longleftrightarrow> nx_prp_size x = k + 2 \<and> nx_last x = p + PAGE * k \<and> nx_first x = nx_first x0 \<and>
     nx_prp_cap x = nx_prp_cap x0 \<and> nx_prp_list_addr x = nx_prp_list_addr x0 \<and> nx_list_ptr x = nx_list_ptr x0 \<and>
     length (nx_prp_list x) = nx_prp_cap x \<and> k < nx_prp_cap x \<and> take k (nx_prp_list x) = prp_pages p k"

lemma prp_step_cases:
  assumes "prp_inv x0 p k x" "nx_xfer_bytes x = n1 + PAGE * (k + 1)" "p + PAGE * (k + 1) < bend"
    "nx_list_ptr x mod PAGE = 0" "nx_prp_cap x \<le> 512" "bend \<le> p + PAGE * nx_prp_cap x"
  shows "if bend \<le> p + PAGE * (k + 2)
    then \<exists>x'. prp_step bend (x, p + PAGE * (k + 1)) = Some (Inr (True, x')) \<and> prp_inv x0 p (k + 1) x' \<and> nx_xfer_bytes x' = n1 + (bend - p)
    else \<exists>x'. prp_step bend (x, p + PAGE * (k + 1)) = Some (Inl (x', p + PAGE * (k + 2))) \<and> prp_inv x0 p (k + 1) x' \<and> nx_xfer_bytes x' = n1 + PAGE * (k + 2)"
proof -
  have "PAGE * (k + 1) < PAGE * nx_prp_cap x" using assms(3,6) by simp
  then have k: "k + 1 < nx_prp_cap x" using mult_less_cancel1 by blast
  have sz: "nx_prp_size x = k + 2" "length (nx_prp_list x) = nx_prp_cap x" "nx_last x = p + PAGE * k"
    using assms(1) by (auto simp: prp_inv_def)
  have nc: "(nx_list_ptr x + 8 * (k + 1)) mod PAGE \<noteq> 0"
  proof -
    have "8 * (k + 1) < PAGE" "0 < 8 * (k + 1)" using k assms(5) by (simp_all add: PAGE_def)
    then have "(nx_list_ptr x + 8 * (k + 1)) mod PAGE = 8 * (k + 1)"
      using assms(4) by (metis add.commute add_0 mod_add_left_eq mod_less)
    then show ?thesis by simp
  qed
  let ?x = "x\<lparr>nx_prp_list := (nx_prp_list x)[k := of_nat (nx_last x)], nx_prp_size := k + 3, nx_last := p + PAGE * (k + 1)\<rparr>"
  have i: "prp_inv x0 p (k + 1) (?x\<lparr>nx_xfer_bytes := b\<rparr>)" for b
    using assms(1) k sz by (auto simp: prp_inv_def prp_pages_def take_Suc_conv_app_nth)
  have e: "prp_step bend (x, p + PAGE * (k + 1)) = (if bend - (p + PAGE * (k + 1)) \<le> PAGE
      then Some (Inr (True, ?x\<lparr>nx_xfer_bytes := nx_xfer_bytes x + (bend - (p + PAGE * (k + 1)))\<rparr>))
      else Some (Inl (?x\<lparr>nx_xfer_bytes := nx_xfer_bytes x + PAGE\<rparr>, p + PAGE * (k + 1) + PAGE)))"
    using k sz nc by (simp add: prp_step_def Let_def)
  show ?thesis
    using i [of "n1 + (bend - p)"] i [of "n1 + PAGE * (k + 2)"] assms(2,3) e by (auto simp: algebra_simps)
qed

lemma prp_loop:
  assumes "prp_inv x0 p k x" "nx_xfer_bytes x = n1 + PAGE * (k + 1)" "p + PAGE * (k + 1) < bend"
    "nx_list_ptr x mod PAGE = 0" "nx_prp_cap x \<le> 512" "bend \<le> p + PAGE * nx_prp_cap x"
  shows "\<exists>x' k'. iterate (prp_step bend) (x, p + PAGE * (k + 1)) = Some (True, x') \<and> prp_inv x0 p k' x' \<and> 0 < k' \<and>
    nx_xfer_bytes x' = n1 + (bend - p) \<and> p + PAGE * k' < bend \<and> bend \<le> p + PAGE * (k' + 1)"
  using assms
proof (induction "bend - (p + PAGE * k)" arbitrary: k x rule: less_induct)
  case less
  note st = prp_step_cases [OF less.prems]
  show ?case
  proof (cases "bend \<le> p + PAGE * (k + 2)")
    case True
    then obtain x' where "prp_step bend (x, p + PAGE * (k + 1)) = Some (Inr (True, x'))" "prp_inv x0 p (k + 1) x'" "nx_xfer_bytes x' = n1 + (bend - p)"
      using st by auto
    then show ?thesis
      using True less.prems(3) by (subst iterate.simps) (auto intro!: exI [of _ "k + 1"])
  next
    case False
    then obtain x' where x': "prp_step bend (x, p + PAGE * (k + 1)) = Some (Inl (x', p + PAGE * (k + 1 + 1)))" "prp_inv x0 p (k + 1) x'"
      "nx_xfer_bytes x' = n1 + PAGE * (k + 1 + 1)"
      using st by auto
    have g: "nx_list_ptr x' = nx_list_ptr x" "nx_prp_cap x' = nx_prp_cap x"
      using x'(2) less.prems(1) by (auto simp: prp_inv_def)
    have "\<exists>y k'. iterate (prp_step bend) (x', p + PAGE * (k + 1 + 1)) = Some (True, y) \<and> prp_inv x0 p k' y \<and> 0 < k' \<and>
        nx_xfer_bytes y = n1 + (bend - p) \<and> p + PAGE * k' < bend \<and> bend \<le> p + PAGE * (k' + 1)"
    proof (rule less.hyps [OF _ x'(2,3)])
      show "bend - (p + PAGE * (k + 1)) < bend - (p + PAGE * k)"
        using less.prems(3) by (simp add: PAGE_def)
      show "p + PAGE * (k + 1 + 1) < bend" using False by simp
    qed (use less.prems g in auto)
    then show ?thesis
      using x'(1) by (subst iterate.simps) simp
  qed
qed

lemma list_segs_covers:
  assumes "PAGE * k < n" "n \<le> PAGE * (k + 1)" "p + n \<le> 2 ^ 32" "k < length es" "take (k + 1) es = prp_pages p (k + 1)"
  shows "covers (list_segs es n) p (p + n)"
  using assms
proof (induction k arbitrary: p n es)
  case 0
  then obtain es' where "es = of_nat p # es'" by (cases es) (auto simp: prp_pages_def)
  then show ?case
    using 0 by (simp add: unat_of_nat)
next
  case (Suc k)
  have pg: "prp_pages p (Suc k + 1) = of_nat p # prp_pages (p + PAGE) (k + 1)"
    unfolding prp_pages_def Suc_eq_plus1 [symmetric] by (subst upt_conv_Cons) (simp_all add: map_Suc_upt [symmetric] comp_def algebra_simps del: upt_Suc)
  then obtain es' where es: "es = of_nat p # es'" "take (k + 1) es' = prp_pages (p + PAGE) (k + 1)" "k < length es'"
    using Suc.prems(4,5) by (cases es) auto
  have "covers (list_segs es' (n - PAGE)) (p + PAGE) (p + PAGE + (n - PAGE))"
    by (rule Suc.IH) (use Suc.prems es in auto)
  then show ?case
    using Suc.prems es(1) by (simp add: unat_of_nat)
qed

text \<open>The three shapes of a finished transfer: one page, two pages, a list of pages.\<close>

definition prp_done :: "nat \<Rightarrow> nat \<Rightarrow> nvme_xfer \<Rightarrow> nvme_xfer \<Rightarrow> bool" where
  "prp_done start bend x0 x \<longleftrightarrow> nx_first x = start \<and> nx_xfer_bytes x = bend - start \<and> nx_prp_list_addr x = nx_prp_list_addr x0 \<and>
     (let n1 = PAGE - start mod PAGE; p = start + n1 in
        bend \<le> p \<and> nx_prp_size x = 1 \<or>
        p < bend \<and> bend \<le> p + PAGE \<and> nx_prp_size x = 2 \<and> nx_last x = p \<or>
        (\<exists>k > 0. nx_prp_size x = k + 2 \<and> nx_last x = p + PAGE * k \<and> p + PAGE * k < bend \<and> bend \<le> p + PAGE * (k + 1) \<and>
           k < length (nx_prp_list x) \<and> take k (nx_prp_list x) = prp_pages p k))"

lemma add_phys_buffer_done:
  assumes x: "rq_status (nv_req st (nx_req x)) = NVME_CREATING" "nx_prp_size x = 0" "nx_list_ptr x mod PAGE = 0"
      "nx_prp_cap x \<le> 512" "length (nx_prp_list x) = nx_prp_cap x"
    and b: "start mod 4 = 0" "bend mod 4 = 0" "start < bend" "bend - start \<le> PAGE * nx_prp_cap x"
  shows "\<exists>x'. nvme_add_phys_buffer st x start bend = Some (True, x') \<and> prp_done start bend x x'"
proof -
  define n1 where "n1 = PAGE - start mod PAGE"
  define p where "p = start - start mod PAGE + PAGE"
  have pg: "0 < PAGE" "start mod PAGE < PAGE" by (simp_all add: PAGE_def)
  have p: "p = start + n1" "0 < n1" using pg(2) mod_less_eq_dividend [of start PAGE] unfolding n1_def p_def by linarith+
  have pp: "p = PAGE * (start div PAGE + 1)" by (simp add: p_def minus_mod_eq_mult_div)
  then have pm: "p mod PAGE = 0" by simp
  have same: "start div PAGE \<ge> bend div PAGE \<longleftrightarrow> bend < p"
    unfolding pp using pg(1) by (metis Suc_eq_plus1 div_less_iff_less_mult less_Suc_eq_le mult.commute)
  have fst: "prp_first x start bend = Some (if bend < p
      then (x\<lparr>nx_first := start, nx_prp_size := 1, nx_xfer_bytes := bend - start\<rparr>, None)
      else (x\<lparr>nx_first := start, nx_prp_size := 1, nx_xfer_bytes := n1\<rparr>, Some p))"
    using x(2) same unfolding prp_first_def Let_def n1_def [symmetric] p_def [symmetric] by simp
  have dn: "prp_done start bend x x' \<longleftrightarrow> nx_first x' = start \<and> nx_xfer_bytes x' = bend - start \<and> nx_prp_list_addr x' = nx_prp_list_addr x \<and>
      (bend \<le> p \<and> nx_prp_size x' = 1 \<or> p < bend \<and> bend \<le> p + PAGE \<and> nx_prp_size x' = 2 \<and> nx_last x' = p \<or>
        (\<exists>k > 0. nx_prp_size x' = k + 2 \<and> nx_last x' = p + PAGE * k \<and> p + PAGE * k < bend \<and> bend \<le> p + PAGE * (k + 1) \<and>
           k < length (nx_prp_list x') \<and> take k (nx_prp_list x') = prp_pages p k))" for x'
    unfolding prp_done_def Let_def n1_def [symmetric] p(1) [symmetric] by (rule refl)
  consider "bend \<le> p" | "p < bend" "bend \<le> p + PAGE" | "p + PAGE < bend" by linarith
  then show ?thesis
  proof cases
    case 1
    then show ?thesis
      using x b fst pm p unfolding dn by (auto simp: nvme_add_phys_buffer_def)
  next
    case 2
    then have "bend - p \<le> PAGE" "n1 + (bend - p) = bend - start" "\<not> bend < p" "\<not> bend \<le> p" using p by simp_all
    then show ?thesis
      using x b fst pm 2 unfolding dn by (simp add: nvme_add_phys_buffer_def Let_def)
  next
    case 3
    let ?x = "x\<lparr>nx_first := start, nx_last := p, nx_prp_size := 2, nx_xfer_bytes := n1 + PAGE\<rparr>"
    have no: "\<not> bend - p \<le> PAGE" "\<not> bend < p" "\<not> bend \<le> p" using 3 by simp_all
    have cap: "0 < nx_prp_cap x" using b(3,4) by (cases "nx_prp_cap x") auto
    have "prp_inv ?x p 0 ?x" "nx_xfer_bytes ?x = n1 + PAGE * (0 + 1)" "p + PAGE * (0 + 1) < bend"
      "nx_list_ptr ?x mod PAGE = 0" "nx_prp_cap ?x \<le> 512" "bend \<le> p + PAGE * nx_prp_cap ?x"
      using x b 3 cap p by (simp_all add: prp_inv_def prp_pages_def)
    from prp_loop [OF this] obtain x' k where k: "iterate (prp_step bend) (?x, p + PAGE) = Some (True, x')" "prp_inv ?x p k x'" "0 < k"
      "nx_xfer_bytes x' = n1 + (bend - p)" "p + PAGE * k < bend" "bend \<le> p + PAGE * (k + 1)"
      by auto
    have "nvme_add_phys_buffer st x start bend = iterate (prp_step bend) (?x, p + PAGE)"
      using x b fst pm no by (simp add: nvme_add_phys_buffer_def Let_def)
    moreover have "prp_done start bend x x'"
      unfolding dn using k p 3 by (auto simp: prp_inv_def)
    ultimately show ?thesis
      using k(1) by simp
  qed
qed

lemma emit_read_done:
  assumes d: "prp_done start bend x0 x" and b: "start < bend" "bend < 2 ^ 32" "(bend - start) mod 2 ^ nv_lba_shift st = 0"
      "nx_prp_list_addr x0 < 2 ^ 32"
    and sq: "sqid < length (nv_sq st)" "unat (sq_tail (nv_sq st ! sqid)) < length (sq_buf (nv_sq st ! sqid))"
  shows "\<exists>st' x'. nvme_emit_read st sqid x nsid lba = Some (True, st', x') \<and>
    (let cmd = sq_buf (nv_sq st' ! sqid) ! unat (sq_tail (nv_sq st ! sqid)) in
      c_opc cmd = NVME_NVM_READ \<and> c_nsid cmd = nsid \<and> c_dw12 cmd = of_nat ((bend - start) div 2 ^ nv_lba_shift st) - 1 \<and>
      covers (prp_segs (\<lambda>a. if a = nx_prp_list_addr x0 then nx_prp_list x' else []) cmd (bend - start)) start bend)"
proof -
  define n1 where "n1 = PAGE - start mod PAGE"
  define p where "p = start + n1"
  have n1: "0 < n1" using mod_less_divisor [of PAGE start] by (simp add: n1_def PAGE_def)
  note d = d [unfolded prp_done_def Let_def, folded n1_def, folded p_def]
  have bytes: "nx_xfer_bytes x = bend - start" "nx_first x = start" "nx_prp_list_addr x = nx_prp_list_addr x0" using d by auto
  have u: "unat (of_nat start :: u64) = start" using b(1,2) by (simp add: unat_of_nat)
  consider "bend \<le> p" "nx_prp_size x = 1" | "p < bend" "bend \<le> p + PAGE" "nx_prp_size x = 2" "nx_last x = p"
    | k where "0 < k" "nx_prp_size x = k + 2" "nx_last x = p + PAGE * k" "p + PAGE * k < bend" "bend \<le> p + PAGE * (k + 1)"
        "k < length (nx_prp_list x)" "take k (nx_prp_list x) = prp_pages p k"
    using d by blast
  then show ?thesis
  proof cases
    case 1
    then have "min (bend - start) n1 = bend - start" by (simp add: p_def)
    then show ?thesis
      using 1 bytes b sq u
      by (simp add: nvme_emit_read_def Let_def set_sq_def prp_segs_def zero_cmd_def n1_def)
  next
    case 2
    then have "min (bend - start) n1 = n1" "bend - start - n1 = bend - p" "bend - p \<noteq> 0" "bend - p \<le> PAGE" by (auto simp: p_def)
    moreover have "unat (ucast (of_nat p :: u32) :: u64) = p"
      using 2 b by (simp add: unat_of_nat unsigned_ucast_eq unsigned_take_bit_eq take_bit_nat_eq_self_iff)
    ultimately show ?thesis
      using 2 bytes b sq u
      by (simp add: nvme_emit_read_def Let_def set_sq_def prp_segs_def zero_cmd_def n1_def [symmetric] p_def)
  next
    case (3 k)
    let ?l = "(nx_prp_list x)[k := of_nat (p + PAGE * k)]"
    have "PAGE * 1 \<le> PAGE * k" using 3(1) by (intro mult_le_mono2) simp
    with 3(4) have "p + PAGE < bend" by linarith
    then have r: "min (bend - start) n1 = n1" "bend - start - n1 = bend - p" "bend - p \<noteq> 0" "\<not> bend - p \<le> PAGE"
      by (auto simp: p_def)
    have "take (k + 1) ?l = prp_pages p (k + 1)"
      using 3(6,7) by (simp add: take_Suc_conv_app_nth prp_pages_def)
    then have "covers (list_segs ?l (bend - p)) p (p + (bend - p))"
      using 3 b(2) by (intro list_segs_covers [of k]) auto
    then have c: "covers (list_segs ?l (bend - p)) p bend" using 3(4) by simp
    have "unat (ucast (of_nat (nx_prp_list_addr x0) :: u32) :: u64) = nx_prp_list_addr x0"
      using b(4) by (simp add: unat_of_nat unsigned_ucast_eq unsigned_take_bit_eq take_bit_nat_eq_self_iff)
    then show ?thesis
      using 3 bytes b sq u r c
      by (simp add: nvme_emit_read_def Let_def set_sq_def prp_segs_def zero_cmd_def n1_def [symmetric] p_def [symmetric])
  qed
qed

text \<open>C26: the read command for a buffer covers the buffer: as the controller reads the page
  entries of the command, they describe the buffer from its start to its end, without a gap and
  without a byte outside, and the command asks for the blocks that fill it.\<close>

theorem nvme_read_covers_buffer:
  assumes "rq_status (nv_req st (nx_req x)) = NVME_CREATING" "nx_prp_size x = 0" "nx_list_ptr x mod PAGE = 0"
      "nx_prp_cap x \<le> 512" "length (nx_prp_list x) = nx_prp_cap x" "nx_prp_list_addr x < 2 ^ 32"
    and "start mod 4 = 0" "bend mod 4 = 0" "start < bend" "bend < 2 ^ 32" "bend - start \<le> PAGE * nx_prp_cap x"
      "(bend - start) mod 2 ^ nv_lba_shift st = 0"
    and "sqid < length (nv_sq st)" "unat (sq_tail (nv_sq st ! sqid)) < length (sq_buf (nv_sq st ! sqid))"
  shows "\<exists>x1 st' x2. nvme_add_phys_buffer st x start bend = Some (True, x1) \<and> nvme_emit_read st sqid x1 nsid lba = Some (True, st', x2) \<and>
    (let cmd = sq_buf (nv_sq st' ! sqid) ! unat (sq_tail (nv_sq st ! sqid)) in
      c_opc cmd = NVME_NVM_READ \<and> c_nsid cmd = nsid \<and> c_dw12 cmd = of_nat ((bend - start) div 2 ^ nv_lba_shift st) - 1 \<and>
      covers (prp_segs (\<lambda>a. if a = nx_prp_list_addr x then nx_prp_list x2 else []) cmd (bend - start)) start bend)"
  using add_phys_buffer_done [OF assms(1-5,7-9,11)] emit_read_done [OF _ assms(9,10,12,6,13,14)] by blast

text \<open>Claiming a transfer that is already being set up never ends.\<close>

lemma nvme_reset_xfer_stuck:
  assumes "rq_status (nv_req st (nx_req x)) = NVME_CREATING"
  shows "nvme_reset_xfer st x = None"
proof -
  have "False" if "iterate (reset_step (nx_req x)) (st, rq_status (nv_req st (nx_req x))) = Some y" for y
    by (rule iterate_partial [where I = "\<lambda>(s, v). v = NVME_CREATING \<and> rq_status (nv_req s (nx_req x)) = NVME_CREATING" and Q = "\<lambda>_. False", OF that])
      (use assms in \<open>auto simp: reset_step_def set_req_def NVME_CREATING_def NVME_SUBMITTED_def split: if_splits\<close>)
  then have "iterate (reset_step (nx_req x)) (st, rq_status (nv_req st (nx_req x))) = None"
    by (meson not_Some_eq)
  then show ?thesis
    by (simp add: nvme_reset_xfer_def)
qed

lemma nvme_reset_xfer_ok:
  assumes "rq_status (nv_req st (nx_req x)) \<notin> {NVME_CREATING, NVME_SUBMITTED}"
  shows "nvme_reset_xfer st x = Some (IOST_OK, set_req (nx_req x) ((nv_req st (nx_req x))\<lparr>rq_status := NVME_CREATING\<rparr>) st,
    x\<lparr>nx_prp_size := 0, nx_first := 0, nx_last := 0\<rparr>)"
  using assms by (simp add: nvme_reset_xfer_def iterate.simps reset_step_def set_req_def NVME_CREATING_def NVME_SUBMITTED_def)

section \<open>Witnesses\<close>

definition sample_sq :: nvme_sq where
  "sample_sq = \<lparr>sq_doorbell = 0, sq_buf = replicate 4 zero_cmd, sq_size = 3, sq_tail = 0, sq_cq = 0, sq_head = 0, sq_max_cid = 1, sq_cmd = Some [0, 0]\<rparr>"

definition sample_cq :: nvme_cq where
  "sample_cq = fresh_cq \<lparr>cq_doorbell = 0, cq_buf = [], cq_phase = False, cq_size = 3, cq_pos = 0\<rparr>"

definition sample_nvme :: nvme_state where
  "sample_nvme = \<lparr>nv_cap = 0, nv_cfg = 1, nv_rtd3e = 0, nv_lba_shift = 9, nv_num_iosq = 0, nv_num_iocq = 0, nv_sq = [sample_sq], nv_cq = [sample_cq],
     nv_req = (\<lambda>_. \<lparr>rq_data0 = 0, rq_data1 = 0, rq_aux = 0, rq_status = 0\<rparr>)\<rparr>"

definition sample_completion :: nvme_completion where
  "sample_completion = \<lparr>cqe_cmd_spec = 77, cqe_reserved = 0, cqe_sqhd = 1, cqe_sqid = 0, cqe_cid = 0, cqe_status = 0\<rparr>"

lemma sample_nvme_ok: "queues_idle sample_nvme" "sq_ok (nv_sq sample_nvme ! 0)"
  by (simp_all add: queues_idle_def sample_nvme_def sample_cq_def fresh_cq_rep sq_ok_def sample_sq_def)

theorem nvme_command_roundtrip_witness:
  "\<exists>st'. wait_single_command (answers 5 0 sample_completion) (\<lambda>_. 1) sample_nvme 0 16 = Some (IOST_OK, st') \<and>
    rq_data0 (nv_req st' 16) = 77"
proof -
  have "\<exists>st'. wait_single_command (answers 5 (unat (sq_cq (nv_sq sample_nvme ! 0))) sample_completion) (\<lambda>_. 1) sample_nvme 0 16 =
      Some (if cqe_status sample_completion AND 0xfffe \<noteq> 0 then IOST_LOCAL else IOST_OK, st') \<and>
    rq_data0 (nv_req st' 16) = cqe_cmd_spec sample_completion \<and> sq_slots (nv_sq st' ! 0) = sq_slots (nv_sq sample_nvme ! 0) \<and> queues_idle st'"
    by (rule nvme_command_roundtrip [where i = 0, OF sample_nvme_ok(1)])
      (simp_all add: sq_ok_def sample_nvme_def sample_sq_def sq_next_def sq_slots_def
        sample_completion_def NVME_CSTS_CFS_def)
  then show ?thesis
    by (auto simp: sample_nvme_def sample_sq_def sample_completion_def)
qed

definition sample_xfer :: nvme_xfer where
  "sample_xfer = \<lparr>nx_req = 16, nx_prp_list_addr = 0x10000, nx_first = 0, nx_last = 0, nx_prp_size = 0, nx_prp_cap = 8, nx_xfer_bytes = 0,
     nx_prp_list = replicate 8 0, nx_list_ptr = 0x10000\<rparr>"

theorem nvme_read_covers_buffer_witness:
  "\<exists>x1 st' x2. nvme_add_phys_buffer sample_nvme sample_xfer 0x2200 0x5400 = Some (True, x1) \<and> nvme_emit_read sample_nvme 0 x1 1 42 = Some (True, st', x2) \<and>
    (let cmd = sq_buf (nv_sq st' ! 0) ! 0 in c_dw12 cmd = 24 \<and>
      covers (prp_segs (\<lambda>a. if a = 0x10000 then nx_prp_list x2 else []) cmd 0x3200) 0x2200 0x5400)"
proof -
  have "\<exists>x1 st' x2. nvme_add_phys_buffer sample_nvme sample_xfer 0x2200 0x5400 = Some (True, x1) \<and> nvme_emit_read sample_nvme 0 x1 1 42 = Some (True, st', x2) \<and>
    (let cmd = sq_buf (nv_sq st' ! 0) ! unat (sq_tail (nv_sq sample_nvme ! 0)) in
      c_opc cmd = NVME_NVM_READ \<and> c_nsid cmd = 1 \<and> c_dw12 cmd = of_nat ((0x5400 - 0x2200) div 2 ^ nv_lba_shift sample_nvme) - 1 \<and>
      covers (prp_segs (\<lambda>a. if a = nx_prp_list_addr sample_xfer then nx_prp_list x2 else []) cmd (0x5400 - 0x2200)) 0x2200 0x5400)"
    by (rule nvme_read_covers_buffer)
      (simp_all add: sample_nvme_def sample_xfer_def sample_sq_def NVME_CREATING_def PAGE_def)
  then show ?thesis
    by (simp add: sample_nvme_def sample_xfer_def sample_sq_def Let_def) (blast)
qed

text \<open>One command is under way; its completion is posted and processed.\<close>

definition busy_nvme :: nvme_state where
  "busy_nvme = sample_nvme\<lparr>nv_sq := [sample_sq\<lparr>sq_cmd := Some [16, 0]\<rparr>]\<rparr>"

theorem nvme_completions_in_order_witness:
  "let st1 = set_cq 0 (cq_post sample_cq 0 sample_completion) busy_nvme;
       st2 = deliver 0 (with_phase (cq_expect sample_cq 0) sample_completion) st1
   in iterate (drain_step 0) st1 = Some (IOST_TRANSIENT, st2) \<and> nvme_process_cqe st2 0 = Some (IOST_TRANSIENT, st2)"
proof -
  have q: "nv_cq busy_nvme ! 0 = sample_cq" "0 < length (nv_cq busy_nvme)" by (simp_all add: busy_nvme_def sample_nvme_def)
  have r: "cq_rep sample_cq []" by (simp add: sample_cq_def fresh_cq_rep)
  have "expected busy_nvme 0 sample_completion 16"
    by (simp add: expected_def busy_nvme_def sample_nvme_def sample_sq_def sample_completion_def Let_def)
  then have "all_expected 0 (set_cq 0 (cq_post sample_cq 0 sample_completion) busy_nvme) ([] @ [with_phase (cq_expect sample_cq 0) sample_completion])"
    by (auto simp: expected_post expected_phase)
  with nvme_completions_in_order [of 0 busy_nvme "[]" sample_completion] q r show ?thesis
    by (simp add: cq_len_def)
qed

end
