(* ===== verification/Nvme_Controller.thy ===== *)
theory Nvme_Controller
  imports Nvme Decompress_Driver
begin

text \<open>
  Start-up and shutdown of the NVMe controller (nvme\_init, nvme\_init\_queues and nvme\_reset
  of lib/nvme.c) and the block device on top of it (the pump and start functions of
  dramstage/blk\_nvme.c).  The controller is given by the values of its registers: the status
  register and the clock are read once in each round of a polling loop, and csts i and now i
  are what round i reads.
\<close>

section \<open>Registers\<close>

record nvme_regs =
  r_capabilities :: u64
  r_version :: u32
  r_csts :: "nat \<Rightarrow> u32"
  r_now :: "nat \<Rightarrow> nat"
  r_config :: u32
  r_adminq_attr :: u32
  r_adminsq_base :: u64
  r_admincq_base :: u64

definition nvme_extr_cap_css :: "u64 \<Rightarrow> u64" where "nvme_extr_cap_css cap = take_bit 8 (drop_bit 37 cap)"
definition nvme_extr_cap_mpsmin :: "u64 \<Rightarrow> u64" where "nvme_extr_cap_mpsmin cap = take_bit 4 (drop_bit 48 cap)"
definition nvme_extr_cap_mqes :: "u64 \<Rightarrow> u64" where "nvme_extr_cap_mqes cap = take_bit 16 cap"
definition nvme_extr_cap_to :: "u64 \<Rightarrow> u64" where "nvme_extr_cap_to cap = take_bit 8 (drop_bit 24 cap)"
definition nvme_extr_csts_shst :: "u32 \<Rightarrow> u32" where "nvme_extr_csts_shst csts = take_bit 2 (drop_bit 2 csts)"

definition NVME_CSTS_RDY :: u32 where "NVME_CSTS_RDY = 1"
definition NVME_CC_EN :: u32 where "NVME_CC_EN = 1"

definition TICKS_PER_MICROSECOND :: nat where "TICKS_PER_MICROSECOND = 24"

definition MSECS :: "nat \<Rightarrow> nat" where "MSECS n = n * 1024 * TICKS_PER_MICROSECOND"

text \<open>
  A polling loop: until the status register is as wanted, or until more than the timeout has
  passed since t0.  The result is the time of the last round, if the status was seen, and
  the number of the next round.
\<close>

definition poll_step :: "nvme_regs \<Rightarrow> (u32 \<Rightarrow> bool) \<Rightarrow> nat \<Rightarrow> nat \<Rightarrow> nat \<Rightarrow> (nat + nat option \<times> nat) option" where
  "poll_step regs want t0 timeout i =
    (if want (r_csts regs i) then Some (Inr (Some (r_now regs i), i + 1))
     else if r_now regs i - t0 > timeout then Some (Inr (None, i + 1))
     else Some (Inl (i + 1)))"

definition poll :: "nvme_regs \<Rightarrow> (u32 \<Rightarrow> bool) \<Rightarrow> nat \<Rightarrow> nat \<Rightarrow> nat \<Rightarrow> (nat option \<times> nat) option" where
  "poll regs want t0 timeout i = iterate (poll_step regs want t0 timeout) i"

section \<open>Start-up\<close>

definition nvme_init :: "nvme_regs \<Rightarrow> nvme_state \<Rightarrow> nat \<Rightarrow> nat \<Rightarrow> (iost \<times> nvme_regs \<times> nvme_state) option" where
  "nvme_init regs st sq_addr cq_addr =
    (let cap = r_capabilities regs; version = r_version regs; st = st\<lparr>nv_cap := cap\<rparr> in
     if drop_bit 16 version \<noteq> 1 then Some (IOST_INVALID, regs, st)
     else if NOT (nvme_extr_cap_css cap) AND 1 \<noteq> 0 then Some (IOST_INVALID, regs, st)
     else if nvme_extr_cap_mpsmin cap \<noteq> 0 then Some (IOST_INVALID, regs, st)
     else if nvme_extr_cap_mqes cap < 3 then Some (IOST_INVALID, regs, st)
     else if length (nv_sq st) = 0 \<or> length (nv_cq st) = 0 then None
     else do {
       let timeout = unat (nvme_extr_cap_to cap) * MSECS 500;
       let t_wait_idle = r_now regs 0;
       let regs = regs\<lparr>r_config := 0\<rparr>;
       (idle, i) \<leftarrow> poll regs (\<lambda>s. s AND NVME_CSTS_RDY = 0) t_wait_idle timeout 1;
       case idle of
         None \<Rightarrow> Some (IOST_GLOBAL, regs, st)
       | Some t_idle \<Rightarrow> do {
           let cq = fresh_cq (nv_cq st ! 0);
           let sq = (nv_sq st ! 0)\<lparr>sq_tail := 0, sq_cq := 0, sq_head := 0\<rparr>;
           let st = set_sq 0 sq (set_cq 0 cq (st\<lparr>nv_num_iocq := 0, nv_num_iosq := 0\<rparr>));
           let regs = regs\<lparr>r_adminq_attr := push_bit 16 (ucast (cq_size cq)) OR ucast (sq_size sq),
             r_adminsq_base := of_nat sq_addr, r_admincq_base := of_nat cq_addr, r_config := NVME_CC_EN\<rparr>;
           (ready, i) \<leftarrow> poll regs (\<lambda>s. s AND NVME_CSTS_RDY \<noteq> 0) t_idle timeout i;
           case ready of
             None \<Rightarrow> Some (IOST_GLOBAL, regs, st)
           | Some _ \<Rightarrow> Some (IOST_OK, regs, st\<lparr>nv_cfg := NVME_CC_EN, nv_rtd3e := 1000000\<rparr>)
         }
     })"

section \<open>Creating the I/O queues\<close>

text \<open>What the Identify command wrote.\<close>

record idctl =
  id_rtd3e :: u32
  id_sqes :: u8
  id_cqes :: u8

definition NVME_ADMIN_CREATE_IOSQ :: u8 where "NVME_ADMIN_CREATE_IOSQ = 1"
definition NVME_ADMIN_CREATE_IOCQ :: u8 where "NVME_ADMIN_CREATE_IOCQ = 5"
definition NVME_ADMIN_IDENTIFY :: u8 where "NVME_ADMIN_IDENTIFY = 6"
definition NVME_ADMIN_SET_FEATURES :: u8 where "NVME_ADMIN_SET_FEATURES = 9"
definition NVME_IDENTIFY_CONTROLLER :: u32 where "NVME_IDENTIFY_CONTROLLER = 1"
definition NVME_FEATURE_NUM_QUEUES :: u32 where "NVME_FEATURE_NUM_QUEUES = 7"

text \<open>
  A command on the admin queue; env and csts are the answers of the controller to it, req is
  the address of the request on the stack.
\<close>

type_synonym answer = "(nat \<Rightarrow> nvme_state \<Rightarrow> nvme_state) \<times> (nat \<Rightarrow> u32)"

definition admin_command :: "answer \<Rightarrow> nat \<Rightarrow> nvme_cmd \<Rightarrow> nvme_state \<Rightarrow> (iost \<times> nvme_state) option" where
  "admin_command ans req cmd st =
    (if length (nv_sq st) = 0 \<or> \<not> unat (sq_tail (nv_sq st ! 0)) < length (sq_buf (nv_sq st ! 0)) then None
     else let sq = nv_sq st ! 0; st = set_sq 0 (sq\<lparr>sq_buf := (sq_buf sq)[unat (sq_tail sq) := cmd]\<rparr>) st
       in wait_single_command (fst ans) (snd ans) st 0 req)"

definition nvme_init_queues :: "(nat \<Rightarrow> answer) \<Rightarrow> nat \<Rightarrow> idctl \<Rightarrow> nat \<Rightarrow> nat \<Rightarrow> nat \<Rightarrow> u16 \<Rightarrow> u16 \<Rightarrow> nvme_regs \<Rightarrow> nvme_state \<Rightarrow>
    (iost \<times> nvme_regs \<times> nvme_state) option" where
  "nvme_init_queues ans req idctl idctl_addr cq_addr sq_addr num_iocq num_iosq regs st =
    (if num_iocq = 0 \<or> num_iosq = 0 then None
     else do {
       (res, st) \<leftarrow> admin_command (ans 0) req (zero_cmd\<lparr>c_opc := NVME_ADMIN_IDENTIFY, c_dptr0 := of_nat idctl_addr,
         c_dw10 := NVME_IDENTIFY_CONTROLLER\<rparr>) st;
       if res \<noteq> IOST_OK then Some (res, regs, st)
       else do {
         let st = (if id_rtd3e idctl = 0 then st\<lparr>nv_rtd3e := id_rtd3e idctl\<rparr> else st);
         if id_sqes idctl AND 15 > 6 \<or> id_cqes idctl AND 15 > 4 then Some (IOST_INVALID, regs, st)
         else do {
           let st = st\<lparr>nv_cfg := nv_cfg st OR push_bit 20 4 OR push_bit 16 6\<rparr>;
           let regs = regs\<lparr>r_config := nv_cfg st\<rparr>;
           (res, st) \<leftarrow> admin_command (ans 1) req (zero_cmd\<lparr>c_opc := NVME_ADMIN_SET_FEATURES, c_dw10 := NVME_FEATURE_NUM_QUEUES,
             c_dw11 := push_bit 16 (ucast num_iocq - 1) OR (ucast num_iosq - 1)\<rparr>) st;
           if res \<noteq> IOST_OK then Some (res, regs, st)
           else if \<not> 1 < length (nv_cq st) \<or> \<not> 1 < length (nv_sq st) then None
           else do {
             let st = set_cq 1 (fresh_cq (nv_cq st ! 1)) st;
             (res, st) \<leftarrow> admin_command (ans 2) req (zero_cmd\<lparr>c_opc := NVME_ADMIN_CREATE_IOCQ, c_dptr0 := of_nat cq_addr,
               c_dw10 := 1 OR push_bit 16 (ucast (cq_size (nv_cq st ! 1))), c_dw11 := 1\<rparr>) st;
             if res \<noteq> IOST_OK then Some (res, regs, st)
             else do {
               let st = st\<lparr>nv_num_iocq := 1\<rparr>;
               (res, st) \<leftarrow> admin_command (ans 3) req (zero_cmd\<lparr>c_opc := NVME_ADMIN_CREATE_IOSQ, c_dptr0 := of_nat sq_addr,
                 c_dw10 := 1 OR push_bit 16 3, c_dw11 := push_bit 16 1 OR 1\<rparr>) st;
               if res \<noteq> IOST_OK then Some (res, regs, st)
               else Some (IOST_OK, regs, (set_sq 1 ((nv_sq st ! 1)\<lparr>sq_cq := 1\<rparr>) st)\<lparr>nv_num_iosq := 1\<rparr>)
             }
           }
         }
       }
     })"

section \<open>Shutdown\<close>

definition nvme_reset :: "nvme_regs \<Rightarrow> nvme_state \<Rightarrow> nvme_regs option" where
  "nvme_reset regs st = do {
     let regs = regs\<lparr>r_config := nv_cfg st OR push_bit 14 1\<rparr>;
     let shutdown_timeout = unat (nv_rtd3e st) * TICKS_PER_MICROSECOND;
     let t_wait_shutdown = r_now regs 0;
     (done, i) \<leftarrow> poll regs (\<lambda>s. nvme_extr_csts_shst s = 2) t_wait_shutdown shutdown_timeout 1;
     case done of
       Some _ \<Rightarrow> Some (regs\<lparr>r_config := nv_cfg st AND NOT NVME_CC_EN\<rparr>)
     | None \<Rightarrow> do {
         let regs = regs\<lparr>r_config := nv_cfg st OR push_bit 14 2\<rparr>;
         (_, i) \<leftarrow> poll regs (\<lambda>s. nvme_extr_csts_shst s = 2) t_wait_shutdown (2 * shutdown_timeout) i;
         Some (regs\<lparr>r_config := nv_cfg st AND NOT NVME_CC_EN\<rparr>)
       }
   }"

section \<open>The block device\<close>

record nvme_blockdev =
  nb_block_size :: nat
  nb_num_blocks :: nat
  nb_consume :: nat
  nb_end :: nat
  nb_next_end :: nat
  nb_stop :: nat
  nb_next_lba :: u64
  nb_xfer_shift :: nat
  nb_nsid :: u32
  nb_xfer :: nvme_xfer
  nb_st :: nvme_state
  nb_iost_u8 :: nat

text \<open>The answers of the controller to the request that is waited for, and its effect on memory.\<close>

type_synonym nvme_hw = "(nvme_state \<Rightarrow> answer) \<times> (nvme_state \<Rightarrow> mem \<Rightarrow> mem)"

definition nvme_err :: "nvme_blockdev \<Rightarrow> iost \<Rightarrow> async_buf" where
  "nvme_err dev res = \<lparr>buf_start = nb_iost_u8 dev + iost_num res, buf_end = nb_iost_u8 dev\<rparr>"

definition nvme_pump_step :: "nvme_hw \<Rightarrow> nat \<Rightarrow> nvme_blockdev \<times> mem \<Rightarrow> (nvme_blockdev \<times> mem + async_buf \<times> nvme_blockdev \<times> mem) option" where
  "nvme_pump_step hw min_size = (\<lambda>(dev, m).
    if nb_end dev - nb_consume dev \<ge> min_size then Some (Inr (\<lparr>buf_start = nb_consume dev, buf_end = nb_end dev\<rparr>, dev, m))
    else do {
      (res, dev, m) \<leftarrow>
        (if nb_end dev \<noteq> nb_next_end dev then do {
           let (env, csts) = fst hw (nb_st dev);
           (res, st) \<leftarrow> nvme_wait_req env csts (nb_st dev) (nx_req (nb_xfer dev));
           let m = snd hw (nb_st dev) m;
           Some (res, (if res = IOST_OK then dev\<lparr>nb_st := st, nb_end := nb_next_end dev\<rparr> else dev\<lparr>nb_st := st\<rparr>), m)
         } else Some (IOST_OK, dev, m));
      if res \<noteq> IOST_OK then Some (Inr (nvme_err dev res, dev, m))
      else if nb_stop dev = nb_end dev then Some (Inr (\<lparr>buf_start = nb_consume dev, buf_end = nb_end dev\<rparr>, dev, m))
      else do {
        let xfer_size = 2 ^ nb_xfer_shift dev;
        let bend = (if nb_stop dev - nb_end dev > xfer_size then nb_end dev + xfer_size else nb_stop dev);
        (res, st, x) \<leftarrow> nvme_reset_xfer (nb_st dev) (nb_xfer dev);
        let dev = dev\<lparr>nb_st := st, nb_xfer := x\<rparr>;
        if res \<noteq> IOST_OK then Some (Inr (nvme_err dev res, dev, m))
        else do {
          (success, x) \<leftarrow> nvme_add_phys_buffer st x (nb_end dev) bend;
          if \<not> success then None
          else do {
            (ok, st, x) \<leftarrow> nvme_emit_read st 1 x (nb_nsid dev) (nb_next_lba dev);
            let dev = dev\<lparr>nb_st := st, nb_xfer := x\<rparr>;
            if \<not> ok then Some (Inr (nvme_err dev IOST_INVALID, dev, m))
            else do {
              (ok, st) \<leftarrow> nvme_submit_single_command st 1 (nx_req x);
              let dev = dev\<lparr>nb_st := st\<rparr>;
              if \<not> ok then Some (Inr (nvme_err dev IOST_TRANSIENT, dev, m))
              else Some (Inl (dev\<lparr>nb_next_lba := nb_next_lba dev + of_nat (xfer_size div nb_block_size dev), nb_next_end := bend\<rparr>, m))
            }
          }
        }
      }
    })"

definition nvme_pump :: "nvme_hw \<Rightarrow> nvme_blockdev pump_fn" where
  "nvme_pump hw dev m consume min_size =
    (if \<not> nb_end dev - nb_consume dev \<ge> consume then None
     else iterate (nvme_pump_step hw min_size) (dev\<lparr>nb_consume := nb_consume dev + consume\<rparr>, m))"

definition nvme_start :: "nvme_blockdev \<Rightarrow> mem \<Rightarrow> nat \<Rightarrow> nat \<Rightarrow> nat \<Rightarrow> (nat \<times> nvme_blockdev \<times> mem) option" where
  "nvme_start dev m addr buf bend =
    (if bend < buf \<or> (bend - buf) mod nb_block_size dev \<noteq> 0 \<or> addr \<ge> nb_num_blocks dev
     then Some (iost_num IOST_INVALID, dev, m)
     else Some (iost_num IOST_OK, dev\<lparr>nb_next_lba := ucast (of_nat addr :: u32), nb_consume := buf, nb_end := buf,
       nb_next_end := buf, nb_stop := bend\<rparr>, m))"

section \<open>Polling ends\<close>

text \<open>The clock goes on: it passes every time.\<close>

definition clock_runs :: "nvme_regs \<Rightarrow> bool" where
  "clock_runs regs \<longleftrightarrow> (\<forall>t i. \<exists>j \<ge> i. r_now regs j > t)"

lemma poll_returns:
  assumes "clock_runs regs"
  shows "\<exists>r j. poll regs want t0 timeout i = Some (r, j) \<and> (\<forall>t. r = Some t \<longrightarrow> (\<exists>k. want (r_csts regs k)))"
proof -
  obtain j where j: "i \<le> j" "r_now regs j > t0 + timeout"
    using assms by (auto simp: clock_runs_def)
  have "\<exists>x. iterate (poll_step regs want t0 timeout) i = Some x \<and>
      (\<forall>t. fst x = Some t \<longrightarrow> (\<exists>k. want (r_csts regs k)))"
  proof (rule iterate_total [where I = "\<lambda>i. i \<le> j" and f = "\<lambda>i. j - i"])
    fix i assume i: "i \<le> j"
    show "(\<exists>s'. poll_step regs want t0 timeout i = Some (Inl s') \<and> s' \<le> j \<and> j - s' < j - i) \<or>
        (\<exists>x. poll_step regs want t0 timeout i = Some (Inr x) \<and> (\<forall>t. fst x = Some t \<longrightarrow> (\<exists>k. want (r_csts regs k))))"
    proof (cases "i = j")
      case True
      then have "r_now regs i - t0 > timeout" using j(2) by simp
      then show ?thesis by (auto simp: poll_step_def)
    next
      case False
      then show ?thesis using i by (auto simp: poll_step_def)
    qed
  qed (rule j(1))
  then show ?thesis
    by (auto simp: poll_def)
qed

text \<open>C27: starting the controller ends, whatever the controller answers, as long as the clock
  runs.  It is successful only for a controller that supports the driver's needs and has
  reported to be ready; then the controller is enabled, the admin completion queue is an empty
  queue and the admin submission queue is empty.\<close>

theorem nvme_init_ends:
  assumes "clock_runs regs" "nv_sq st \<noteq> []" "nv_cq st \<noteq> []"
  shows "\<exists>res regs' st'. nvme_init regs st sq_addr cq_addr = Some (res, regs', st') \<and>
    (res = IOST_OK \<longrightarrow> (\<exists>k. r_csts regs k AND NVME_CSTS_RDY \<noteq> 0) \<and> drop_bit 16 (r_version regs) = 1 \<and>
      nvme_extr_cap_mqes (r_capabilities regs) \<ge> 3 \<and> r_config regs' AND NVME_CC_EN \<noteq> 0 \<and>
      cq_rep (nv_cq st' ! 0) [] \<and> sq_tail (nv_sq st' ! 0) = sq_head (nv_sq st' ! 0))"
proof -
  let ?cap = "r_capabilities regs" and ?r0 = "regs\<lparr>r_config := 0\<rparr>"
  let ?to = "unat (nvme_extr_cap_to ?cap) * MSECS 500"
  consider "drop_bit 16 (r_version regs) \<noteq> 1 \<or> NOT (nvme_extr_cap_css ?cap) AND 1 \<noteq> 0 \<or> nvme_extr_cap_mpsmin ?cap \<noteq> 0 \<or> nvme_extr_cap_mqes ?cap < 3"
    | "drop_bit 16 (r_version regs) = 1" "NOT (nvme_extr_cap_css ?cap) AND 1 = 0" "nvme_extr_cap_mpsmin ?cap = 0" "\<not> nvme_extr_cap_mqes ?cap < 3"
    by auto
  then show ?thesis
  proof cases
    case 1
    then have "\<exists>regs' st'. nvme_init regs st sq_addr cq_addr = Some (IOST_INVALID, regs', st')"
      unfolding nvme_init_def Let_def by auto
    then show ?thesis by auto
  next
    case 2
    obtain idle i where p: "poll ?r0 (\<lambda>s. s AND NVME_CSTS_RDY = 0) (r_now regs 0) ?to 1 = Some (idle, i)"
      using poll_returns [of ?r0] assms(1) unfolding clock_runs_def by fastforce
    show ?thesis
    proof (cases idle)
      case None
      then show ?thesis
        using 2 p assms by (simp add: nvme_init_def Let_def)
    next
      case (Some t)
      let ?cq = "fresh_cq (nv_cq st ! 0)" and ?sq = "(nv_sq st ! 0)\<lparr>sq_tail := 0, sq_cq := 0, sq_head := 0\<rparr>"
      let ?r1 = "?r0\<lparr>r_adminq_attr := push_bit 16 (ucast (cq_size ?cq)) OR ucast (sq_size ?sq),
             r_adminsq_base := of_nat sq_addr, r_admincq_base := of_nat cq_addr, r_config := NVME_CC_EN\<rparr>"
      have "clock_runs ?r1" using assms(1) by (simp add: clock_runs_def)
      from poll_returns [OF this] obtain ready k where q: "poll ?r1 (\<lambda>s. s AND NVME_CSTS_RDY \<noteq> 0) t ?to i = Some (ready, k)"
        "\<forall>t. ready = Some t \<longrightarrow> (\<exists>k. r_csts ?r1 k AND NVME_CSTS_RDY \<noteq> 0)"
        by blast
      let ?st = "set_sq 0 ?sq (set_cq 0 ?cq (st\<lparr>nv_cap := ?cap, nv_num_iocq := 0, nv_num_iosq := 0\<rparr>))"
      have e: "nvme_init regs st sq_addr cq_addr = (case ready of None \<Rightarrow> Some (IOST_GLOBAL, ?r1, ?st)
          | Some _ \<Rightarrow> Some (IOST_OK, ?r1, ?st\<lparr>nv_cfg := NVME_CC_EN, nv_rtd3e := 1000000\<rparr>))"
        using 2 p q(1) assms(2,3) Some by (cases ready) (simp_all add: nvme_init_def Let_def)
      show ?thesis
        unfolding e using q(2) 2 assms(2,3) fresh_cq_rep
        by (cases ready) (auto simp: NVME_CC_EN_def set_sq_def set_cq_def)
    qed
  qed
qed

text \<open>
  The shutdown ends as well, within the time of the abrupt shutdown, and always leaves
  the controller disabled.\<close>

theorem nvme_reset_disables:
  assumes "clock_runs regs"
  shows "\<exists>regs'. nvme_reset regs st = Some regs' \<and> r_config regs' AND NVME_CC_EN = 0"
proof -
  let ?r1 = "regs\<lparr>r_config := nv_cfg st OR push_bit 14 1\<rparr>" and ?r2 = "regs\<lparr>r_config := nv_cfg st OR push_bit 14 2\<rparr>"
  let ?to = "unat (nv_rtd3e st) * TICKS_PER_MICROSECOND" and ?want = "\<lambda>s. nvme_extr_csts_shst s = 2"
  have c: "clock_runs ?r1" "clock_runs ?r2" using assms by (simp_all add: clock_runs_def)
  obtain d i where p: "poll ?r1 ?want (r_now regs 0) ?to 1 = Some (d, i)"
    using poll_returns [OF c(1)] by blast
  obtain d' j where q: "poll ?r2 ?want (r_now regs 0) (2 * ?to) i = Some (d', j)"
    using poll_returns [OF c(2)] by blast
  have en: "(nv_cfg st AND NOT NVME_CC_EN) AND NVME_CC_EN = 0"
    by (rule bit_word_eqI) (simp add: bit_and_iff bit_not_iff)
  show ?thesis
    using p q en by (cases d) (auto simp: nvme_reset_def Let_def)
qed

text \<open>A controller that needs two rounds for either, and a clock that counts the rounds.\<close>

definition sample_regs :: nvme_regs where
  "sample_regs = \<lparr>r_capabilities = 0x2001010003, r_version = 0x10300, r_csts = (\<lambda>i. if i < 3 then 0 else 1), r_now = (\<lambda>i. i),
     r_config = 0, r_adminq_attr = 0, r_adminsq_base = 0, r_admincq_base = 0\<rparr>"

lemma sample_clock: "clock_runs sample_regs"
  unfolding clock_runs_def sample_regs_def
proof (intro allI)
  fix t i :: nat
  show "\<exists>j \<ge> i. r_now \<lparr>r_capabilities = 0x2001010003, r_version = 0x10300, r_csts = (\<lambda>i. if i < 3 then 0 else 1), r_now = (\<lambda>i. i),
     r_config = 0, r_adminq_attr = 0, r_adminsq_base = 0, r_admincq_base = 0\<rparr> j > t"
    by (intro exI [of _ "i + t + 1"]) simp
qed

theorem nvme_init_ends_witness:
  "\<exists>res regs' st'. nvme_init sample_regs sample_nvme 0x1000 0x2000 = Some (res, regs', st') \<and>
    (res = IOST_OK \<longrightarrow> cq_rep (nv_cq st' ! 0) [])"
proof -
  have "nv_sq sample_nvme \<noteq> []" "nv_cq sample_nvme \<noteq> []" by (simp_all add: sample_nvme_def)
  from nvme_init_ends [OF sample_clock this] show ?thesis by blast
qed

theorem nvme_reset_disables_witness:
  "\<exists>regs'. nvme_reset sample_regs sample_nvme = Some regs' \<and> r_config regs' AND NVME_CC_EN = 0"
  by (rule nvme_reset_disables [OF sample_clock])


definition sample_nvme_dev :: nvme_blockdev where
  "sample_nvme_dev = \<lparr>nb_block_size = 512, nb_num_blocks = 1000, nb_consume = 0, nb_end = 0, nb_next_end = 0, nb_stop = 0, nb_next_lba = 0,
     nb_xfer_shift = 17, nb_nsid = 1, nb_xfer = sample_xfer, nb_st = sample_nvme, nb_iost_u8 = 16\<rparr>"


text \<open>The start of a stream keeps only the low 32 bits of its block number.\<close>

lemma nvme_start_truncates:
  assumes "2 ^ 32 < nb_num_blocks dev"
  shows "\<exists>dev'. nvme_start dev m (2 ^ 32) buf buf = Some (iost_num IOST_OK, dev', m) \<and> nb_next_lba dev' = 0"
  using assms by (simp add: nvme_start_def)

end
