(* ===== verification/Sched.thy ===== *)
theory Sched
  imports Levin_Prelude
begin

text \<open>
  The cooperative scheduler of lib/sched.c and include/runqueue.h: runnable
  lists (singly linked, newest entry first), the run queue that turns them into
  FIFO order, and the finish functions that park a thread on a waiter list.
\<close>

section \<open>State\<close>

text \<open>
  A pointer to a runnable is a nat, 0 the null pointer.  The next field of every
  runnable and the head field of every runnable list live in explicit stores.
  The address rq_fresh stands for the fresh member of the current run queue, and
  list address 0 for CURRENT_RUNQUEUE.  The tail member points to a pointer: it
  is null, the address of the head member, or the address of a next field.
\<close>

type_synonym ptr = nat

datatype tailptr = TNull | THead | TNext ptr

record sched =
  next_of :: "ptr \<Rightarrow> ptr"
  list_head :: "ptr \<Rightarrow> ptr"
  rq_head :: ptr
  rq_tail :: tailptr

definition CURRENT_RUNQUEUE :: ptr where
  "CURRENT_RUNQUEUE = 0"

definition rq_fresh :: ptr where
  "rq_fresh = 1"

section \<open>Operations\<close>

definition resolve_list :: "ptr \<Rightarrow> ptr" where
  "resolve_list l = (if l = CURRENT_RUNQUEUE then rq_fresh else l)"

definition sched_queue_many :: "ptr \<Rightarrow> ptr \<Rightarrow> ptr \<Rightarrow> sched \<Rightarrow> sched" where
  "sched_queue_many l first lst s =
    (let l = resolve_list l;
         next = list_head s l;
         s = s\<lparr>next_of := (next_of s)(lst := next)\<rparr>
     in s\<lparr>list_head := (list_head s)(l := first)\<rparr>)"

definition sched_queue_single :: "ptr \<Rightarrow> ptr \<Rightarrow> sched \<Rightarrow> sched" where
  "sched_queue_single l r s = sched_queue_many l r r s"

partial_function (option) find_last :: "(ptr \<Rightarrow> ptr) \<Rightarrow> ptr \<Rightarrow> ptr option" where
  [code]: "find_last nx lst = (if nx lst = 0 then Some lst else find_last nx (nx lst))"

definition sched_queue_list :: "ptr \<Rightarrow> ptr \<Rightarrow> sched \<Rightarrow> sched option" where
  "sched_queue_list dest src s =
    (let head = list_head s src;
         s = s\<lparr>list_head := (list_head s)(src := 0)\<rparr>
     in if head = 0 then Some s
        else do {
          lst \<leftarrow> find_last (next_of s) head;
          Some (sched_queue_many dest head lst s)
        })"

text \<open>The do-while loop of sched_unqueue that reverses the fresh entries.\<close>

partial_function (option) reverse_fresh ::
    "(ptr \<Rightarrow> ptr) \<Rightarrow> ptr \<Rightarrow> ptr \<Rightarrow> ((ptr \<Rightarrow> ptr) \<times> ptr) option" where
  [code]: "reverse_fresh nx fresh next =
    (let tmp = nx fresh;
         nx = nx(fresh := next)
     in if tmp = 0 then Some (nx, fresh) else reverse_fresh nx tmp fresh)"

fun write_tail :: "tailptr \<Rightarrow> ptr \<Rightarrow> sched \<Rightarrow> sched" where
  "write_tail (TNext p) v s = s\<lparr>next_of := (next_of s)(p := v)\<rparr>"
| "write_tail _ v s = s\<lparr>rq_head := v\<rparr>"

definition take_fresh :: "sched \<Rightarrow> sched option" where
  "take_fresh s =
    (let fresh = list_head s rq_fresh;
         s = s\<lparr>list_head := (list_head s)(rq_fresh := 0)\<rparr>
     in if fresh = 0 then Some s
        else do {
          let old_tail = (if rq_tail s = TNull then THead else rq_tail s);
          let s = s\<lparr>rq_tail := TNext fresh\<rparr>;
          (nx, next) \<leftarrow> reverse_fresh (next_of s) fresh 0;
          Some (write_tail old_tail next (s\<lparr>next_of := nx\<rparr>))
        })"

definition sched_unqueue :: "sched \<Rightarrow> (ptr \<times> sched) option" where
  "sched_unqueue s = do {
     s \<leftarrow> take_fresh s;
     let res = rq_head s;
     if res = 0 then Some (0, s)
     else do {
       let s = s\<lparr>rq_head := next_of s res\<rparr>;
       Some (res, if rq_head s = 0 then s\<lparr>rq_tail := THead\<rparr> else s)
     }
   }"

definition sched_thread_preempted :: "ptr \<Rightarrow> sched \<Rightarrow> sched" where
  "sched_thread_preempted thread s = sched_queue_single CURRENT_RUNQUEUE thread s"

definition yield_finish :: "ptr \<Rightarrow> sched \<Rightarrow> sched" where
  "yield_finish continuation s = sched_queue_single CURRENT_RUNQUEUE continuation s"

text \<open>
  The finish functions: the register or variable is an argument, its value the
  one the relaxed load returns.  The comparison is made at the width of ureg_t.
\<close>

definition sched_finish_u32 :: "ptr \<Rightarrow> u32 \<Rightarrow> ptr \<Rightarrow> u64 \<Rightarrow> u64 \<Rightarrow> sched \<Rightarrow> sched option" where
  "sched_finish_u32 continuation reg l msk expected s =
    (let s = sched_queue_single l continuation s;
         val = reg
     in if ucast val AND msk \<noteq> expected
        then sched_queue_list CURRENT_RUNQUEUE l s else Some s)"

definition sched_finish_u8 :: "ptr \<Rightarrow> u8 \<Rightarrow> ptr \<Rightarrow> u64 \<Rightarrow> u64 \<Rightarrow> sched \<Rightarrow> sched option" where
  "sched_finish_u8 continuation reg l msk expected s =
    (let s = sched_queue_single l continuation s;
         val = reg
     in if ucast val AND msk \<noteq> expected
        then sched_queue_list CURRENT_RUNQUEUE l s else Some s)"

definition sched_finish_u8ptr :: "ptr \<Rightarrow> u64 \<Rightarrow> ptr \<Rightarrow> u64 \<Rightarrow> sched \<Rightarrow> sched option" where
  "sched_finish_u8ptr continuation p l expected s =
    (let s = sched_queue_single l continuation s;
         val = p
     in if val \<noteq> expected
        then sched_queue_list CURRENT_RUNQUEUE l s else Some s)"

definition finish_u16 :: "ptr \<Rightarrow> u16 \<Rightarrow> ptr \<Rightarrow> u64 \<Rightarrow> u64 \<Rightarrow> sched \<Rightarrow> sched option" where
  "finish_u16 continuation reg l msk expected s =
    (let s = sched_queue_single l continuation s;
         val = (ucast reg :: u8)
     in if ucast val AND msk \<noteq> expected
        then sched_queue_list CURRENT_RUNQUEUE l s else Some s)"

definition sched_wait_u16 :: "ptr \<Rightarrow> ptr \<Rightarrow> u16 \<Rightarrow> u16 \<Rightarrow> u16 \<Rightarrow> sched \<Rightarrow> sched option" where
  "sched_wait_u16 continuation l var msk expected s =
    finish_u16 continuation var l (ucast msk) (ucast expected) s"

definition sched_wait_u8 :: "ptr \<Rightarrow> ptr \<Rightarrow> u8 \<Rightarrow> u8 \<Rightarrow> u8 \<Rightarrow> sched \<Rightarrow> sched option" where
  "sched_wait_u8 continuation l var msk expected s =
    sched_finish_u8 continuation var l (ucast msk) (ucast expected) s"

section \<open>Linked chains\<close>

text \<open>
  The list of runnables reached from a pointer by following the next fields, as a
  function that may fail to return, and the same as a predicate on lists.
\<close>

partial_function (option) walk :: "(ptr \<Rightarrow> ptr) \<Rightarrow> ptr \<Rightarrow> ptr list option" where
  [code]: "walk nx p = (if p = 0 then Some [] else do { xs \<leftarrow> walk nx (nx p); Some (p # xs) })"

primrec chain :: "(ptr \<Rightarrow> ptr) \<Rightarrow> ptr \<Rightarrow> ptr list \<Rightarrow> bool" where
  "chain nx p [] \<longleftrightarrow> p = 0"
| "chain nx p (x # xs) \<longleftrightarrow> p = x \<and> x \<noteq> 0 \<and> chain nx (nx x) xs"

lemma chain_walk: "chain nx p xs \<Longrightarrow> walk nx p = Some xs"
  by (induction xs arbitrary: p) (subst walk.simps, simp)+

lemma walk_chain: "walk nx p = Some xs \<Longrightarrow> chain nx p xs"
proof (induction xs arbitrary: p)
  case Nil
  then show ?case
    by (subst (asm) walk.simps) (auto split: if_splits bind_splits)
next
  case (Cons x xs)
  then show ?case
    by (subst (asm) (2) walk.simps) (auto split: if_splits bind_splits)
qed

lemma chain_iff_walk: "chain nx p xs \<longleftrightarrow> walk nx p = Some xs"
  using chain_walk walk_chain by blast

lemma chain_unique: "chain nx p xs \<Longrightarrow> chain nx p ys \<Longrightarrow> xs = ys"
  by (simp add: chain_iff_walk)

lemma chain_upd [simp]: "x \<notin> set xs \<Longrightarrow> chain (nx(x := v)) p xs \<longleftrightarrow> chain nx p xs"
  by (induction xs arbitrary: p) auto

lemma chain_upd_if [simp]:
  "x \<notin> set xs \<Longrightarrow> chain (\<lambda>a. if a = x then v else nx a) p xs \<longleftrightarrow> chain nx p xs"
  using chain_upd [of x xs nx v p] by (simp add: fun_upd_def)

lemma chain_cong: "(\<And>x. x \<in> set xs \<Longrightarrow> nx x = nx' x) \<Longrightarrow> chain nx p xs \<longleftrightarrow> chain nx' p xs"
  by (induction xs arbitrary: p) auto

lemma chain_nonnull: "chain nx p xs \<Longrightarrow> 0 \<notin> set xs"
  by (induction xs arbitrary: p) auto

lemma chain_suffix: "chain nx p (ys @ x # zs) \<Longrightarrow> chain nx x (x # zs)"
  by (induction ys arbitrary: p) auto

lemma chain_distinct: "chain nx p xs \<Longrightarrow> distinct xs"
proof (induction xs arbitrary: p)
  case (Cons x xs)
  have "x \<notin> set xs"
  proof
    assume "x \<in> set xs"
    then obtain ys zs where "xs = ys @ x # zs"
      by (auto simp: in_set_conv_decomp)
    with Cons.prems have "chain nx x (x # ys @ x # zs)" "chain nx x (x # zs)"
      using chain_suffix [of nx p "x # ys" x zs] by auto
    then show False
      by (auto dest: chain_unique)
  qed
  with Cons show ?case by auto
qed simp

lemma chain_null [simp]: "chain nx 0 xs \<longleftrightarrow> xs = []"
  by (cases xs) auto

lemma chain_link:
  assumes "chain nx p xs" "xs \<noteq> []" "chain nx q ys" "set xs \<inter> set ys = {}"
  shows "chain (nx(last xs := q)) p (xs @ ys)"
  using assms
proof (induction xs arbitrary: p)
  case (Cons x xs)
  have "distinct (x # xs)"
    using Cons.prems(1) by (rule chain_distinct)
  then show ?case
    using Cons by (cases "xs = []") auto
qed simp

lemma find_last_chain: "chain nx p xs \<Longrightarrow> xs \<noteq> [] \<Longrightarrow> find_last nx p = Some (last xs)"
proof (induction xs arbitrary: p)
  case (Cons x xs)
  then show ?case
    by (cases xs) (subst find_last.simps, auto)+
qed simp

lemma reverse_fresh_chain:
  assumes "chain nx fresh xs" "xs \<noteq> []" "chain nx nxt ys" "set xs \<inter> set ys = {}"
  shows "\<exists>nx'. reverse_fresh nx fresh nxt = Some (nx', last xs) \<and>
    chain nx' (last xs) (rev xs @ ys) \<and> (\<forall>p. p \<notin> set xs \<longrightarrow> nx' p = nx p)"
  using assms
proof (induction xs arbitrary: nx fresh nxt ys)
  case (Cons x xs)
  have d: "x \<notin> set xs"
    using chain_distinct [OF Cons.prems(1)] by simp
  have c: "chain (nx(x := nxt)) x (x # ys)"
    using Cons.prems by auto
  show ?case
  proof (cases "xs = []")
    case True
    then show ?thesis
      using Cons.prems c by (subst reverse_fresh.simps) auto
  next
    case False
    then have n0: "nx x \<noteq> 0"
      using Cons.prems by auto
    have "chain (nx(x := nxt)) (nx x) xs" "set xs \<inter> set (x # ys) = {}"
      using d Cons.prems by simp_all
    with Cons.IH False c
    obtain nx' where "reverse_fresh (nx(x := nxt)) (nx x) x = Some (nx', last xs)"
      "chain nx' (last xs) (rev xs @ x # ys)" "\<forall>p. p \<notin> set xs \<longrightarrow> nx' p = (nx(x := nxt)) p"
      by blast
    with False n0 Cons.prems show ?thesis
      by (subst reverse_fresh.simps) (auto simp: Let_def)
  qed
qed simp

section \<open>Representation invariant\<close>

text \<open>
  sched_rep s q L: the consumer part of the run queue holds q, every runnable list
  l holds L l, no runnable is in two places, and the tail member addresses the end
  of q.
\<close>

fun tail_ok :: "tailptr \<Rightarrow> ptr list \<Rightarrow> bool" where
  "tail_ok (TNext p) q \<longleftrightarrow> q \<noteq> [] \<and> p = last q"
| "tail_ok _ q \<longleftrightarrow> q = []"

definition sched_rep :: "sched \<Rightarrow> ptr list \<Rightarrow> (ptr \<Rightarrow> ptr list) \<Rightarrow> bool" where
  "sched_rep s q L \<longleftrightarrow>
     chain (next_of s) (rq_head s) q \<and> (\<forall>l. chain (next_of s) (list_head s l) (L l)) \<and>
     (\<forall>l. \<forall>x \<in> set (L l). x \<notin> set q) \<and> (\<forall>l l'. \<forall>x \<in> set (L l). x \<in> set (L l') \<longrightarrow> l = l') \<and>
     tail_ok (rq_tail s) q"

definition unlinked :: "ptr \<Rightarrow> ptr list \<Rightarrow> (ptr \<Rightarrow> ptr list) \<Rightarrow> bool" where
  "unlinked x q L \<longleftrightarrow> x \<noteq> 0 \<and> x \<notin> set q \<and> (\<forall>l. x \<notin> set (L l))"

lemma tail_ok_Cons: "tail_ok t (x # xs) \<Longrightarrow> xs \<noteq> [] \<Longrightarrow> tail_ok t xs"
  by (cases t) auto

lemma sched_repI:
  assumes "chain (next_of s) (rq_head s) q" "\<And>l. chain (next_of s) (list_head s l) (L l)"
    "\<And>l x. x \<in> set (L l) \<Longrightarrow> x \<notin> set q"
    "\<And>l l' x. x \<in> set (L l) \<Longrightarrow> x \<in> set (L l') \<Longrightarrow> l = l'"
    "tail_ok (rq_tail s) q"
  shows "sched_rep s q L"
  using assms unfolding sched_rep_def by blast

lemma sched_repD:
  assumes "sched_rep s q L"
  shows "chain (next_of s) (rq_head s) q" "chain (next_of s) (list_head s l) (L l)"
    "tail_ok (rq_tail s) q"
  using assms unfolding sched_rep_def by blast+

lemma sched_rep_disj:
  assumes "sched_rep s q L"
  shows "x \<in> set (L l) \<Longrightarrow> x \<notin> set q"
    "x \<in> set (L l) \<Longrightarrow> x \<in> set (L l') \<Longrightarrow> l = l'"
  using assms unfolding sched_rep_def by blast+

lemma queue_single_rep:
  assumes "sched_rep s q L" "unlinked x q L"
  shows "sched_rep (sched_queue_single l x s) q
    (L(resolve_list l := x # L (resolve_list l)))"
proof (rule sched_repI)
  fix y k k'
  show "y \<in> set ((L(resolve_list l := x # L (resolve_list l))) k) \<Longrightarrow> y \<notin> set q"
    using assms sched_rep_disj(1) [OF assms(1), of y k] by (auto simp: unlinked_def split: if_splits)
  show "y \<in> set ((L(resolve_list l := x # L (resolve_list l))) k) \<Longrightarrow>
      y \<in> set ((L(resolve_list l := x # L (resolve_list l))) k') \<Longrightarrow> k = k'"
    using assms(2) sched_rep_disj(2) [OF assms(1), of y k k']
    by (auto simp: unlinked_def split: if_splits)
qed (use assms sched_repD [OF assms(1)] in
  \<open>simp_all add: unlinked_def sched_queue_single_def sched_queue_many_def Let_def\<close>)

lemma queue_many_rep:
  assumes rep: "sched_rep (s\<lparr>list_head := (list_head s)(src := hd xs)\<rparr>) q (L(src := xs))"
    and src: "list_head s src = 0" and ne: "xs \<noteq> []" and d: "src \<noteq> resolve_list dest"
  shows "sched_rep (sched_queue_many dest (hd xs) (last xs) s) q
    (L(src := [], resolve_list dest := xs @ L (resolve_list dest)))"
proof -
  let ?d = "resolve_list dest" and ?s = "s\<lparr>list_head := (list_head s)(src := hd xs)\<rparr>"
  have c: "chain (next_of s) (hd xs) xs" "l \<noteq> src \<Longrightarrow> chain (next_of s) (list_head s l) (L l)" for l
    using sched_repD(2) [OF rep, of src] sched_repD(2) [OF rep, of l] by simp_all
  have dq: "x \<in> set xs \<Longrightarrow> x \<notin> set q" "l \<noteq> src \<Longrightarrow> x \<in> set (L l) \<Longrightarrow> x \<notin> set q" for x l
    using sched_rep_disj(1) [OF rep, of x src] sched_rep_disj(1) [OF rep, of x l] by simp_all
  have dl: "l \<noteq> src \<Longrightarrow> x \<in> set xs \<Longrightarrow> x \<notin> set (L l)"
    "l \<noteq> src \<Longrightarrow> l' \<noteq> src \<Longrightarrow> x \<in> set (L l) \<Longrightarrow> x \<in> set (L l') \<Longrightarrow> l = l'" for x l l'
    using sched_rep_disj(2) [OF rep, of x src l] sched_rep_disj(2) [OF rep, of x l l'] by auto
  have n: "chain ((next_of s)(last xs := list_head s ?d)) (hd xs) (xs @ L ?d)"
    using c(1) c(2) [of ?d] dl(1) [of ?d] d ne by (intro chain_link) auto
  show ?thesis
  proof (rule sched_repI)
    fix y k k'
    let ?L = "L(src := [], ?d := xs @ L ?d)"
    show "y \<in> set (?L k) \<Longrightarrow> y \<notin> set q"
      using dq(1) [of y] dq(2) [of k y] d by (auto split: if_splits)
    show "y \<in> set (?L k) \<Longrightarrow> y \<in> set (?L k') \<Longrightarrow> k = k'"
      using dl(1) [of k y] dl(1) [of k' y] dl(2) [of k k' y] d by (auto split: if_splits)
  qed (use n c(2) sched_repD(1,3) [OF rep] dq(1) dl(1) src ne d in
    \<open>simp_all add: sched_queue_many_def Let_def\<close>)
qed

lemma queue_list_rep:
  assumes "sched_rep s q L" "src \<noteq> resolve_list dest"
  shows "\<exists>s'. sched_queue_list dest src s = Some s' \<and>
    sched_rep s' q (L(src := [], resolve_list dest := L src @ L (resolve_list dest)))"
proof (cases "list_head s src = 0")
  case True
  moreover have "chain (next_of s) (list_head s src) (L src)"
    using assms(1) by (simp add: sched_rep_def)
  ultimately have e: "L src = []" by simp
  with True have "L(src := [], resolve_list dest := L src @ L (resolve_list dest)) = L"
    "s\<lparr>list_head := (list_head s)(src := 0)\<rparr> = s"
    by (auto simp: fun_eq_iff)
  with True assms show ?thesis
    by (simp add: sched_queue_list_def)
next
  case False
  have c: "chain (next_of s) (list_head s src) (L src)"
    using assms(1) by (simp add: sched_rep_def)
  with False have ne: "L src \<noteq> []" and hd: "hd (L src) = list_head s src"
    by (cases "L src"; auto)+
  let ?s = "s\<lparr>list_head := (list_head s)(src := 0)\<rparr>"
  have "sched_rep (?s\<lparr>list_head := (list_head ?s)(src := hd (L src))\<rparr>) q (L(src := L src))"
    using assms(1) by (simp add: hd)
  from queue_many_rep [OF this _ ne assms(2)] show ?thesis
    using False find_last_chain [OF c ne] hd
    by (simp add: sched_queue_list_def Let_def)
qed

lemma take_fresh_rep:
  assumes "sched_rep s q L"
  shows "\<exists>s'. take_fresh s = Some s' \<and> sched_rep s' (q @ rev (L rq_fresh)) (L(rq_fresh := []))"
proof (cases "list_head s rq_fresh = 0")
  case True
  moreover have "chain (next_of s) (list_head s rq_fresh) (L rq_fresh)"
    using assms(1) by (simp add: sched_rep_def)
  ultimately have "L rq_fresh = []" by simp
  with True assms show ?thesis
    by (auto simp: take_fresh_def sched_rep_def)
next
  case False
  let ?f = "list_head s rq_fresh" and ?F = "L rq_fresh"
  have c: "chain (next_of s) ?f ?F"
    using assms(1) by (simp add: sched_rep_def)
  with False have ne: "?F \<noteq> []" and hd: "hd ?F = ?f"
    by (cases ?F; auto)+
  obtain nx where nx: "reverse_fresh (next_of s) ?f 0 = Some (nx, last ?F)"
    "chain nx (last ?F) (rev ?F)" "\<And>p. p \<notin> set ?F \<Longrightarrow> nx p = next_of s p"
    using reverse_fresh_chain [OF c ne, of 0 "[]"] by auto
  have dq: "set ?F \<inter> set q = {}" "\<And>l. l \<noteq> rq_fresh \<Longrightarrow> set ?F \<inter> set (L l) = {}"
    using sched_rep_disj [OF assms] by blast+
  have keep: "chain nx p xs = chain (next_of s) p xs" if "set ?F \<inter> set xs = {}" for p xs
    using nx(3) that by (intro chain_cong) auto
  have q: "chain nx (rq_head s) q" and L: "\<And>l. l \<noteq> rq_fresh \<Longrightarrow> chain nx (list_head s l) (L l)"
    using assms dq keep by (simp_all add: sched_rep_def)
  have t: "tail_ok (rq_tail s) q"
    using assms by (simp add: sched_rep_def)
  have lst: "last (q @ rev ?F) = ?f"
    using ne hd by (simp add: last_rev)
  let ?s = "s\<lparr>list_head := (list_head s)(rq_fresh := 0), rq_tail := TNext ?f, next_of := nx\<rparr>"
  have dj: "\<And>l l' y. y \<in> set ((L(rq_fresh := [])) l) \<Longrightarrow> y \<in> set ((L(rq_fresh := [])) l') \<Longrightarrow> l = l'"
    "\<And>l y. y \<in> set ((L(rq_fresh := [])) l) \<Longrightarrow> y \<notin> set (q @ rev ?F)"
    using sched_rep_disj [OF assms] dq by (fastforce split: if_splits)+
  show ?thesis
  proof (cases "q = []")
    case True
    with t have "rq_tail s = TNull \<or> rq_tail s = THead"
      by (cases "rq_tail s") auto
    then have "take_fresh s = Some (?s\<lparr>rq_head := last ?F\<rparr>)"
      using False nx(1) by (auto simp: take_fresh_def Let_def)
    moreover have "sched_rep (?s\<lparr>rq_head := last ?F\<rparr>) (q @ rev ?F) (L(rq_fresh := []))"
      by (rule sched_repI [OF _ _ dj(2) dj(1)]) (use True nx(2) L lst ne in simp_all)
    ultimately show ?thesis by blast
  next
    case nq: False
    with t have "rq_tail s = TNext (last q)"
      by (cases "rq_tail s") auto
    then have "take_fresh s = Some (?s\<lparr>next_of := nx(last q := last ?F)\<rparr>)"
      using False nx(1) by (auto simp: take_fresh_def Let_def)
    moreover have "chain (nx(last q := last ?F)) (rq_head s) (q @ rev ?F)"
      using chain_link [OF q nq nx(2)] dq(1) by auto
    moreover have "last q \<notin> set (L l)" for l
      using sched_rep_disj(1) [OF assms] last_in_set [OF nq] by blast
    ultimately have "sched_rep (?s\<lparr>next_of := nx(last q := last ?F)\<rparr>) (q @ rev ?F) (L(rq_fresh := []))"
      by (intro sched_repI [OF _ _ dj(2) dj(1)]) (use L lst ne in simp_all)
    then show ?thesis
      using \<open>take_fresh s = _\<close> by blast
  qed
qed

lemma unqueue_rep_Nil:
  assumes "sched_rep s q L" "q @ rev (L rq_fresh) = []"
  shows "\<exists>s'. sched_unqueue s = Some (0, s') \<and> sched_rep s' [] (L(rq_fresh := []))"
proof -
  obtain s' where "take_fresh s = Some s'" "sched_rep s' [] (L(rq_fresh := []))"
    using take_fresh_rep [OF assms(1)] assms(2) by auto
  moreover from this(2) have "rq_head s' = 0"
    using sched_repD(1) by fastforce
  ultimately show ?thesis
    by (simp add: sched_unqueue_def)
qed

lemma unqueue_rep_Cons:
  assumes "sched_rep s q L" "q @ rev (L rq_fresh) = x # xs"
  shows "\<exists>s'. sched_unqueue s = Some (x, s') \<and> sched_rep s' xs (L(rq_fresh := []))"
proof -
  obtain s' where s': "take_fresh s = Some s'" "sched_rep s' (x # xs) (L(rq_fresh := []))"
    using take_fresh_rep [OF assms(1)] assms(2) by auto
  then have h: "rq_head s' = x" "x \<noteq> 0" "chain (next_of s') (next_of s' x) xs"
    using sched_repD(1) by fastforce+
  then have "next_of s' x = 0 \<longleftrightarrow> xs = []"
    by (cases xs) auto
  then have "sched_unqueue s = Some (x, s'\<lparr>rq_head := next_of s' x,
      rq_tail := if xs = [] then THead else rq_tail s'\<rparr>)"
    using s'(1) h by (simp add: sched_unqueue_def Let_def)
  moreover have "sched_rep (s'\<lparr>rq_head := next_of s' x,
      rq_tail := if xs = [] then THead else rq_tail s'\<rparr>) xs (L(rq_fresh := []))"
  proof (rule sched_repI)
    fix y k k'
    show "y \<in> set ((L(rq_fresh := [])) k) \<Longrightarrow> y \<notin> set xs"
      using sched_rep_disj(1) [OF s'(2), of y k] by simp
    show "y \<in> set ((L(rq_fresh := [])) k) \<Longrightarrow> y \<in> set ((L(rq_fresh := [])) k') \<Longrightarrow> k = k'"
      by (rule sched_rep_disj(2) [OF s'(2)])
  qed (use h sched_repD [OF s'(2)] in \<open>simp_all add: tail_ok_Cons\<close>)
  ultimately show ?thesis by blast
qed

section \<open>Abstraction to queues\<close>

definition list_contents :: "sched \<Rightarrow> ptr \<Rightarrow> ptr list" where
  "list_contents s l = the (walk (next_of s) (list_head s l))"

definition run_queue :: "sched \<Rightarrow> ptr list" where
  "run_queue s = the (walk (next_of s) (rq_head s)) @ rev (list_contents s rq_fresh)"

definition sched_inv :: "sched \<Rightarrow> bool" where
  "sched_inv s \<longleftrightarrow> (\<exists>q L. sched_rep s q L)"

definition can_queue :: "sched \<Rightarrow> ptr \<Rightarrow> bool" where
  "can_queue s x \<longleftrightarrow> (\<exists>q L. sched_rep s q L \<and> unlinked x q L)"

lemma rep_contents:
  assumes "sched_rep s q L"
  shows "list_contents s l = L l" "run_queue s = q @ rev (L rq_fresh)"
  using sched_repD [OF assms] chain_walk
  by (metis list_contents_def option.sel, metis list_contents_def run_queue_def option.sel)

lemma rep_unique:
  assumes "sched_rep s q L" "sched_rep s q' L'"
  shows "q' = q" "L' = L"
  using sched_repD(1) [OF assms(1)] sched_repD(1) [OF assms(2)]
    rep_contents(1) [OF assms(1)] rep_contents(1) [OF assms(2)]
  by (auto dest: chain_unique simp: fun_eq_iff)

lemma sched_invE:
  assumes "sched_inv s"
  obtains q where "sched_rep s q (list_contents s)" "run_queue s = q @ rev (list_contents s rq_fresh)"
proof -
  from assms obtain q L where r: "sched_rep s q L"
    by (auto simp: sched_inv_def)
  moreover have "L = list_contents s"
    using rep_contents(1) [OF r] by (auto simp: fun_eq_iff)
  ultimately show ?thesis
    using that rep_contents(2) [OF r] by blast
qed

lemma sched_inv_rep [intro]: "sched_rep s q L \<Longrightarrow> sched_inv s"
  by (auto simp: sched_inv_def)

lemma can_queue_inv: "can_queue s x \<Longrightarrow> sched_inv s"
  by (auto simp: can_queue_def)

lemma queue_single_inv:
  assumes "can_queue s x"
  shows "sched_inv (sched_queue_single l x s)"
    "list_contents (sched_queue_single l x s) =
      (list_contents s)(resolve_list l := x # list_contents s (resolve_list l))"
    "resolve_list l = rq_fresh \<Longrightarrow> run_queue (sched_queue_single l x s) = run_queue s @ [x]"
    "resolve_list l \<noteq> rq_fresh \<Longrightarrow> run_queue (sched_queue_single l x s) = run_queue s"
    "can_queue s y \<Longrightarrow> y \<noteq> x \<Longrightarrow> can_queue (sched_queue_single l x s) y"
proof -
  from assms obtain q L where r: "sched_rep s q L" "unlinked x q L"
    by (auto simp: can_queue_def)
  note n = queue_single_rep [OF r, of l]
  show "sched_inv (sched_queue_single l x s)"
    using n by auto
  show "list_contents (sched_queue_single l x s) =
      (list_contents s)(resolve_list l := x # list_contents s (resolve_list l))"
    using rep_contents(1) [OF n] rep_contents(1) [OF r(1)] by (auto simp: fun_eq_iff)
  show "resolve_list l = rq_fresh \<Longrightarrow> run_queue (sched_queue_single l x s) = run_queue s @ [x]"
    "resolve_list l \<noteq> rq_fresh \<Longrightarrow> run_queue (sched_queue_single l x s) = run_queue s"
    using rep_contents(2) [OF n] rep_contents(2) [OF r(1)] by simp_all
  assume "can_queue s y" "y \<noteq> x"
  then have "unlinked y q (L(resolve_list l := x # L (resolve_list l)))"
    using rep_unique [OF r(1)] by (auto simp: can_queue_def unlinked_def)
  with n show "can_queue (sched_queue_single l x s) y"
    by (auto simp: can_queue_def)
qed

lemma unqueue_inv:
  assumes "sched_inv s" "run_queue s = x # xs"
  shows "\<exists>s'. sched_unqueue s = Some (x, s') \<and> sched_inv s' \<and> run_queue s' = xs \<and>
    can_queue s' x \<and> (\<forall>y. can_queue s y \<longrightarrow> can_queue s' y) \<and>
    list_contents s' = (list_contents s)(rq_fresh := [])"
proof -
  obtain q where r: "sched_rep s q (list_contents s)" "q @ rev (list_contents s rq_fresh) = x # xs"
    using sched_invE [OF assms(1)] assms(2) by metis
  obtain s' where s': "sched_unqueue s = Some (x, s')"
    "sched_rep s' xs ((list_contents s)(rq_fresh := []))"
    using unqueue_rep_Cons [OF r] by blast
  have mem: "z \<in> set (x # xs) \<longleftrightarrow> z \<in> set q \<or> z \<in> set (list_contents s rq_fresh)" for z
    using r(2) [symmetric] by simp
  have "distinct (x # xs)"
    using chain_distinct [OF sched_repD(1) [OF r(1)]] sched_rep_disj(1) [OF r(1)]
      chain_distinct [OF sched_repD(2) [OF r(1)]] r(2) [symmetric] by auto
  moreover have "x \<notin> set (list_contents s l)" if "l \<noteq> rq_fresh" for l
    using mem [of x] that sched_rep_disj [OF r(1), of x l] by auto
  moreover have "x \<noteq> 0"
    using mem [of x] chain_nonnull [OF sched_repD(1) [OF r(1)]]
      chain_nonnull [OF sched_repD(2) [OF r(1)]] by (metis list.set_intros(1))
  ultimately have "unlinked x xs ((list_contents s)(rq_fresh := []))"
    by (auto simp: unlinked_def)
  moreover have "unlinked y xs ((list_contents s)(rq_fresh := []))" if "can_queue s y" for y
    using that rep_unique [OF r(1)] mem [of y] by (auto simp: can_queue_def unlinked_def)
  ultimately have "can_queue s' x" "\<forall>y. can_queue s y \<longrightarrow> can_queue s' y"
    using s'(2) unfolding can_queue_def by blast+
  then show ?thesis
    using s' rep_contents [OF s'(2)] by (auto simp: fun_eq_iff)
qed

lemma unqueue_inv_empty:
  assumes "sched_inv s" "run_queue s = []"
  shows "\<exists>s'. sched_unqueue s = Some (0, s') \<and> sched_inv s' \<and> run_queue s' = [] \<and>
    list_contents s' = list_contents s"
proof -
  obtain q where r: "sched_rep s q (list_contents s)" "q @ rev (list_contents s rq_fresh) = []"
    using sched_invE [OF assms(1)] assms(2) by metis
  obtain s' where s': "sched_unqueue s = Some (0, s')"
    "sched_rep s' [] ((list_contents s)(rq_fresh := []))"
    using unqueue_rep_Nil [OF r] by blast
  then show ?thesis
    using rep_contents [OF s'(2)] r(2) by (auto simp: fun_eq_iff)
qed

lemma queue_list_inv:
  assumes "sched_inv s" "src \<noteq> resolve_list dest"
  shows "\<exists>s'. sched_queue_list dest src s = Some s' \<and> sched_inv s' \<and>
    list_contents s' = (list_contents s)(src := [],
      resolve_list dest := list_contents s src @ list_contents s (resolve_list dest)) \<and>
    (resolve_list dest = rq_fresh \<longrightarrow> run_queue s' = run_queue s @ rev (list_contents s src)) \<and>
    (\<forall>y. can_queue s y \<longrightarrow> can_queue s' y)"
proof -
  obtain q where r: "sched_rep s q (list_contents s)"
    using sched_invE [OF assms(1)] by metis
  obtain s' where s': "sched_queue_list dest src s = Some s'"
    "sched_rep s' q ((list_contents s)(src := [],
      resolve_list dest := list_contents s src @ list_contents s (resolve_list dest)))"
    using queue_list_rep [OF r assms(2)] by blast
  have "can_queue s' y" if "can_queue s y" for y
  proof -
    have "unlinked y q ((list_contents s)(src := [],
        resolve_list dest := list_contents s src @ list_contents s (resolve_list dest)))"
      using that rep_unique [OF r] by (auto simp: can_queue_def unlinked_def)
    with s'(2) show ?thesis
      unfolding can_queue_def by blast
  qed
  then show ?thesis
    using s' rep_contents [OF s'(2)] rep_contents(2) [OF r] by (auto simp: fun_eq_iff)
qed

section \<open>The scheduler interface\<close>

text \<open>
  What the main loops of sramstage/main.c and dramstage/main.c rely on: pushing a
  runnable appends it, popping returns the oldest one.
\<close>

locale fifo_scheduler =
  fixes push :: "'a \<Rightarrow> 's \<Rightarrow> 's"
    and pop :: "'s \<Rightarrow> ('a \<times> 's) option"
    and queue :: "'s \<Rightarrow> 'a list"
    and inv :: "'s \<Rightarrow> bool"
    and free :: "'s \<Rightarrow> 'a \<Rightarrow> bool"
  assumes push_inv: "inv s \<Longrightarrow> free s x \<Longrightarrow> inv (push x s)"
    and push_queue: "inv s \<Longrightarrow> free s x \<Longrightarrow> queue (push x s) = queue s @ [x]"
    and push_free: "inv s \<Longrightarrow> free s x \<Longrightarrow> free s y \<Longrightarrow> y \<noteq> x \<Longrightarrow> free (push x s) y"
    and pop_queue: "inv s \<Longrightarrow> queue s = x # xs \<Longrightarrow>
      \<exists>s'. pop s = Some (x, s') \<and> inv s' \<and> queue s' = xs \<and> free s' x \<and> (\<forall>y. free s y \<longrightarrow> free s' y)"

text \<open>
  The main loop with threads that all yield: pop a runnable, run it, and queue it
  again when it yields.
\<close>

fun run_yielding :: "('a \<Rightarrow> 's \<Rightarrow> 's) \<Rightarrow> ('s \<Rightarrow> ('a \<times> 's) option) \<Rightarrow> nat \<Rightarrow> 's \<Rightarrow> ('a list \<times> 's) option" where
  "run_yielding push pop 0 s = Some ([], s)"
| "run_yielding push pop (Suc n) s = do {
     (r, s) \<leftarrow> pop s;
     (trace, s) \<leftarrow> run_yielding push pop n (push r s);
     Some (r # trace, s)
   }"

context fifo_scheduler
begin

lemma push_all:
  assumes "inv s" "distinct xs" "\<forall>x \<in> set xs. free s x"
  shows "inv (fold push xs s) \<and> queue (fold push xs s) = queue s @ xs"
  using assms
proof (induction xs arbitrary: s)
  case (Cons x xs)
  then have "\<forall>y \<in> set xs. free (push x s) y"
    by (metis distinct.simps(2) list.set_intros push_free)
  then show ?case
    using Cons push_inv push_queue by auto
qed simp

lemma round_robin:
  assumes "inv s" "queue s = xs @ ys"
  shows "\<exists>s'. run_yielding push pop (length xs) s = Some (xs, s') \<and> inv s' \<and> queue s' = ys @ xs"
  using assms
proof (induction xs arbitrary: s ys)
  case (Cons x xs)
  then obtain s' where s': "pop s = Some (x, s')" "inv s'" "queue s' = xs @ ys" "free s' x"
    using pop_queue [of s x "xs @ ys"] by auto
  with Cons.IH [of "push x s'" "ys @ [x]"] push_inv push_queue show ?case
    by auto
qed simp

end

interpretation rq: fifo_scheduler "sched_queue_single CURRENT_RUNQUEUE" sched_unqueue run_queue
  sched_inv can_queue
proof
  fix s x y xs
  have r: "resolve_list CURRENT_RUNQUEUE = rq_fresh"
    by (simp add: resolve_list_def)
  assume "sched_inv s"
  then show "run_queue s = x # xs \<Longrightarrow> \<exists>s'. sched_unqueue s = Some (x, s') \<and> sched_inv s' \<and>
      run_queue s' = xs \<and> can_queue s' x \<and> (\<forall>y. can_queue s y \<longrightarrow> can_queue s' y)"
    using unqueue_inv by blast
  assume x: "can_queue s x"
  show "sched_inv (sched_queue_single CURRENT_RUNQUEUE x s)"
    "run_queue (sched_queue_single CURRENT_RUNQUEUE x s) = run_queue s @ [x]"
    "can_queue s y \<Longrightarrow> y \<noteq> x \<Longrightarrow> can_queue (sched_queue_single CURRENT_RUNQUEUE x s) y"
    using queue_single_inv [OF x, of CURRENT_RUNQUEUE] queue_single_inv(5) [OF x, of y] r by simp_all
qed

text \<open>The same interface with the thread queued by the yield path.\<close>

interpretation yq: fifo_scheduler yield_finish sched_unqueue run_queue sched_inv can_queue
proof -
  have "yield_finish = sched_queue_single CURRENT_RUNQUEUE"
    by (simp add: fun_eq_iff yield_finish_def)
  then show "fifo_scheduler yield_finish sched_unqueue run_queue sched_inv can_queue"
    using rq.fifo_scheduler_axioms by simp
qed

section \<open>Waiting and waking\<close>

text \<open>
  A thread c that waits with one of the finish functions on list l until a variable
  changes, a notifier that stores a new value and then moves l to the run queue, and
  a CPU that pops runnables, interleaved at every access to the shared variable and
  the shared lists.  The waiter's steps are those of sched_finish_u32; the notifier's
  are a store followed by sched_queue_list, as in dramstage/main.c and the interrupt
  handlers.  The ran field collects the runnables that were popped.
\<close>

datatype waiter_pc = W_start | W_queued | W_loaded u32 | W_done
datatype notifier_pc = N_start | N_stored | N_done

record wake =
  sch :: sched
  var :: u32
  w_pc :: waiter_pc
  n_pc :: notifier_pc
  ran :: "ptr list"

inductive wake_step :: "ptr \<Rightarrow> ptr \<Rightarrow> u64 \<Rightarrow> u64 \<Rightarrow> u32 \<Rightarrow> wake \<Rightarrow> wake \<Rightarrow> bool"
  for c l msk expected new where
  enqueue: "w_pc w = W_start \<Longrightarrow> wake_step c l msk expected new w
    (w\<lparr>sch := sched_queue_single l c (sch w), w_pc := W_queued\<rparr>)"
| load: "w_pc w = W_queued \<Longrightarrow> wake_step c l msk expected new w (w\<lparr>w_pc := W_loaded (var w)\<rparr>)"
| park: "w_pc w = W_loaded v \<Longrightarrow> ucast v AND msk = expected \<Longrightarrow>
    wake_step c l msk expected new w (w\<lparr>w_pc := W_done\<rparr>)"
| requeue: "w_pc w = W_loaded v \<Longrightarrow> ucast v AND msk \<noteq> expected \<Longrightarrow>
    sched_queue_list CURRENT_RUNQUEUE l (sch w) = Some s \<Longrightarrow>
    wake_step c l msk expected new w (w\<lparr>sch := s, w_pc := W_done\<rparr>)"
| store: "n_pc w = N_start \<Longrightarrow> wake_step c l msk expected new w (w\<lparr>var := new, n_pc := N_stored\<rparr>)"
| notify: "n_pc w = N_stored \<Longrightarrow> sched_queue_list CURRENT_RUNQUEUE l (sch w) = Some s \<Longrightarrow>
    wake_step c l msk expected new w (w\<lparr>sch := s, n_pc := N_done\<rparr>)"
| run: "sched_unqueue (sch w) = Some (r, s) \<Longrightarrow> r \<noteq> 0 \<Longrightarrow>
    wake_step c l msk expected new w (w\<lparr>sch := s, ran := r # ran w\<rparr>)"

inductive_cases wake_stepE: "wake_step c l msk expected new w w'"

text \<open>The sequential finish function is a run of the waiter's steps.\<close>

lemma finish_u32_steps:
  assumes "w_pc w = W_start" "sched_finish_u32 c (var w) l msk expected (sch w) = Some s"
  shows "(wake_step c l msk expected new)\<^sup>*\<^sup>* w (w\<lparr>sch := s, w_pc := W_done\<rparr>)"
proof -
  let ?w1 = "w\<lparr>sch := sched_queue_single l c (sch w), w_pc := W_queued\<rparr>"
  let ?w2 = "?w1\<lparr>w_pc := W_loaded (var w)\<rparr>"
  have 1: "wake_step c l msk expected new w ?w1"
    using assms(1) by (rule wake_step.enqueue)
  have 2: "wake_step c l msk expected new ?w1 ?w2"
    using wake_step.load [of ?w1] by simp
  have 3: "wake_step c l msk expected new ?w2 (w\<lparr>sch := s, w_pc := W_done\<rparr>)"
  proof (cases "ucast (var w) AND msk = expected")
    case True
    then show ?thesis
      using assms(2) wake_step.park [of ?w2 "var w"] by (simp add: sched_finish_u32_def Let_def)
  next
    case False
    then show ?thesis
      using assms(2) wake_step.requeue [of ?w2 "var w"] by (simp add: sched_finish_u32_def Let_def)
  qed
  from 1 2 3 show ?thesis by (meson converse_rtranclp_into_rtranclp r_into_rtranclp)
qed

text \<open>
  The invariant: until it is queued the waiter can be queued; afterwards it is on l,
  in the run queue or has been run; and when the notifier is done, a waiter still on l
  has yet to load the variable or has loaded the new value.
\<close>

definition wake_inv :: "ptr \<Rightarrow> ptr \<Rightarrow> u32 \<Rightarrow> wake \<Rightarrow> bool" where
  "wake_inv c l new w \<longleftrightarrow> sched_inv (sch w) \<and>
     (if w_pc w = W_start then can_queue (sch w) c
      else c \<in> set (list_contents (sch w) l) \<union> set (run_queue (sch w)) \<union> set (ran w)) \<and>
     (n_pc w \<noteq> N_start \<longrightarrow> var w = new) \<and>
     (n_pc w = N_done \<and> c \<in> set (list_contents (sch w) l) \<longrightarrow>
        w_pc w = W_start \<or> w_pc w = W_queued \<or> w_pc w = W_loaded new)"

lemma can_queue_not_listed: "can_queue s c \<Longrightarrow> c \<notin> set (list_contents s l)"
  using rep_contents(1) by (auto simp: can_queue_def unlinked_def)

lemma wake_inv_move:
  assumes "wake_inv c l new w" "sched_queue_list CURRENT_RUNQUEUE l (sch w) = Some s" "l \<noteq> rq_fresh"
  shows "sched_inv s" "c \<notin> set (list_contents s l)"
    "w_pc w = W_start \<Longrightarrow> can_queue s c"
    "w_pc w \<noteq> W_start \<Longrightarrow> c \<in> set (run_queue s) \<union> set (ran w)"
  using assms queue_list_inv [of "sch w" l CURRENT_RUNQUEUE]
  by (auto simp: wake_inv_def resolve_list_def split: if_splits)

lemma wake_inv_run:
  assumes "sched_inv (sch w)" "sched_unqueue (sch w) = Some (r, s)" "r \<noteq> 0" "l \<noteq> rq_fresh"
  shows "sched_inv s" "list_contents s l = list_contents (sch w) l"
    "can_queue (sch w) c \<Longrightarrow> can_queue s c" "run_queue (sch w) = r # run_queue s"
proof -
  have "run_queue (sch w) \<noteq> []"
    using unqueue_inv_empty [OF assms(1)] assms(2,3) by auto
  then obtain x xs where "run_queue (sch w) = x # xs"
    by (cases "run_queue (sch w)") auto
  with unqueue_inv [OF assms(1) this] assms
  show "sched_inv s" "list_contents s l = list_contents (sch w) l"
    "can_queue (sch w) c \<Longrightarrow> can_queue s c" "run_queue (sch w) = r # run_queue s"
    by auto
qed

lemma wake_inv_step:
  assumes "wake_step c l msk expected new w w'" "wake_inv c l new w"
    "ucast new AND msk \<noteq> expected" "l \<noteq> rq_fresh" "l \<noteq> CURRENT_RUNQUEUE"
  shows "wake_inv c l new w'"
  using assms(1)
proof cases
  case enqueue
  then have "can_queue (sch w) c"
    using assms(2) by (simp add: wake_inv_def)
  with enqueue assms(2,5) show ?thesis
    using queue_single_inv [of "sch w" c l] by (auto simp: wake_inv_def resolve_list_def)
next
  case load
  with assms(2) show ?thesis by (auto simp: wake_inv_def)
next
  case (park v)
  with assms(2,3) show ?thesis by (auto simp: wake_inv_def)
next
  case (requeue v s)
  with wake_inv_move [OF assms(2) requeue(4) assms(4)] assms(2) show ?thesis
    by (auto simp: wake_inv_def)
next
  case store
  with assms(2) show ?thesis by (auto simp: wake_inv_def split: if_splits)
next
  case (notify s)
  with wake_inv_move [OF assms(2) notify(3) assms(4)] assms(2) show ?thesis
    by (auto simp: wake_inv_def)
next
  case (run r s)
  have "sched_inv (sch w)"
    using assms(2) by (simp add: wake_inv_def)
  from wake_inv_run [OF this run(2,3) assms(4)] assms(2) run(1) show ?thesis
    by (auto simp: wake_inv_def split: if_splits)
qed

section \<open>Properties\<close>

definition sched_init :: sched where
  "sched_init = \<lparr>next_of = \<lambda>_. 0, list_head = \<lambda>_. 0, rq_head = 0, rq_tail = TNull\<rparr>"

lemma sched_init_rep: "sched_rep sched_init [] (\<lambda>_. [])"
  by (simp add: sched_rep_def sched_init_def)

lemma sched_init_inv [simp]: "sched_inv sched_init" "list_contents sched_init l = []"
  "run_queue sched_init = []" "can_queue sched_init x \<longleftrightarrow> x \<noteq> 0"
proof -
  show "sched_inv sched_init" "list_contents sched_init l = []" "run_queue sched_init = []"
    using sched_init_rep rep_contents [OF sched_init_rep] by auto
  show "can_queue sched_init x \<longleftrightarrow> x \<noteq> 0"
    using sched_init_rep unfolding can_queue_def unlinked_def by fastforce
qed

text \<open>C5: sched_unqueue returns the runnable that was queued first (the null pointer
  exactly when the run queue is empty), removes only that runnable, keeps the invariant,
  and leaves every waiter list as it was.\<close>

theorem sched_unqueue_fifo:
  assumes "sched_inv s"
  shows "\<exists>s'. sched_unqueue s = Some (case run_queue s of [] \<Rightarrow> 0 | x # _ \<Rightarrow> x, s') \<and>
    sched_inv s' \<and> run_queue s' = tl (run_queue s) \<and>
    (\<forall>l. l \<noteq> rq_fresh \<longrightarrow> list_contents s' l = list_contents s l)"
proof (cases "run_queue s")
  case Nil
  then show ?thesis using unqueue_inv_empty [OF assms] by auto
next
  case (Cons x xs)
  then show ?thesis using unqueue_inv [OF assms Cons] by auto
qed

theorem sched_unqueue_fifo_witness:
  "\<exists>s'. sched_unqueue (sched_queue_single 0 20 (sched_queue_single 0 10 sched_init)) = Some (10, s') \<and>
    run_queue s' = [20]"
proof -
  let ?s1 = "sched_queue_single 0 10 sched_init"
  let ?s = "sched_queue_single 0 20 ?s1"
  have 1: "can_queue ?s1 20" "run_queue ?s1 = [10]"
    using queue_single_inv(3) [of sched_init 10 0] queue_single_inv(5) [of sched_init 10 20 0]
    by (auto simp: resolve_list_def CURRENT_RUNQUEUE_def)
  then have "sched_inv ?s" "run_queue ?s = [10, 20]"
    using queue_single_inv [of ?s1 20 0] by (auto simp: resolve_list_def CURRENT_RUNQUEUE_def)
  then show ?thesis
    using sched_unqueue_fifo [of ?s] by auto
qed

text \<open>C24: threads that yield are scheduled round robin: from any run queue xs, the next
  length xs iterations of the main loop run exactly the threads of xs, each once and in
  order, and leave the run queue as it was.\<close>

theorem sched_round_robin:
  assumes "sched_inv s"
  shows "\<exists>s'. run_yielding yield_finish sched_unqueue (length (run_queue s)) s = Some (run_queue s, s') \<and>
    sched_inv s' \<and> run_queue s' = run_queue s"
  using yq.round_robin [OF assms, of "run_queue s" "[]"] by simp

theorem sched_round_robin_witness:
  "\<exists>s'. run_yielding yield_finish sched_unqueue 3
      (fold (sched_queue_single CURRENT_RUNQUEUE) [8, 16, 24] sched_init) = Some ([8, 16, 24], s')"
proof -
  have "sched_inv (fold (sched_queue_single CURRENT_RUNQUEUE) [8, 16, 24] sched_init) \<and>
      run_queue (fold (sched_queue_single CURRENT_RUNQUEUE) [8, 16, 24] sched_init) = [8, 16, 24]"
    using rq.push_all [of sched_init "[8, 16, 24]"] by simp
  then show ?thesis
    using sched_round_robin [of "fold (sched_queue_single CURRENT_RUNQUEUE) [8, 16, 24] sched_init"]
    by (auto simp del: run_yielding.simps fold.simps simp: eval_nat_numeral)
qed



text \<open>
  sched_queue_list empties the source list and makes its threads runnable in
  the order in which they were queued on it, behind everything already runnable.\<close>

theorem sched_queue_list_order:
  assumes "sched_inv s" "src \<noteq> rq_fresh"
  shows "\<exists>s'. sched_queue_list CURRENT_RUNQUEUE src s = Some s' \<and> sched_inv s' \<and>
    list_contents s' src = [] \<and> run_queue s' = run_queue s @ rev (list_contents s src)"
  using queue_list_inv [OF assms(1), of src CURRENT_RUNQUEUE] assms(2)
  by (auto simp: resolve_list_def)

theorem sched_queue_list_order_witness:
  "\<exists>s'. sched_queue_list CURRENT_RUNQUEUE 2 (sched_queue_single 2 9 (sched_queue_single 2 5 sched_init)) =
      Some s' \<and> run_queue s' = [5, 9]"
proof -
  let ?s1 = "sched_queue_single 2 5 sched_init"
  let ?s = "sched_queue_single 2 9 ?s1"
  have r: "resolve_list 2 = 2" "2 \<noteq> rq_fresh"
    by (simp_all add: resolve_list_def CURRENT_RUNQUEUE_def rq_fresh_def)
  have c: "can_queue ?s1 9"
    using queue_single_inv(5) [of sched_init 5 9 2] by simp
  have l: "list_contents ?s1 2 = [5]" "list_contents ?s1 rq_fresh = []"
    using queue_single_inv(2) [of sched_init 5 2] r by simp_all
  have 2: "list_contents ?s 2 = [9, 5]" "sched_inv ?s"
    using queue_single_inv(1,2) [OF c, of 2] r l by simp_all
  moreover have "run_queue ?s = []"
    using queue_single_inv(4) [OF c, of 2] queue_single_inv(4) [of sched_init 5 2] r by simp
  ultimately show ?thesis
    using sched_queue_list_order [OF 2(2) r(2)] by auto
qed

text \<open>
  sched_wait_u8 parks the thread on the waiter list when the masked variable has
  the expected value, as include/runqueue.h documents, and leaves it runnable
  otherwise.\<close>

theorem sched_wait_u8_parks:
  assumes "can_queue s c" "l \<noteq> rq_fresh" "l \<noteq> CURRENT_RUNQUEUE"
  shows "\<exists>s'. sched_wait_u8 c l v msk expected s = Some s' \<and> sched_inv s' \<and>
    (if v AND msk = expected then list_contents s' l = c # list_contents s l \<and> run_queue s' = run_queue s
     else list_contents s' l = [] \<and> run_queue s' = run_queue s @ rev (list_contents s l) @ [c])"
proof -
  have r: "resolve_list l = l" "resolve_list CURRENT_RUNQUEUE = rq_fresh"
    using assms(3) by (simp_all add: resolve_list_def)
  let ?s = "sched_queue_single l c s"
  have q: "sched_inv ?s" "list_contents ?s l = c # list_contents s l" "run_queue ?s = run_queue s"
    using queue_single_inv [OF assms(1), of l] r assms(2) by simp_all
  obtain s' where s': "sched_queue_list CURRENT_RUNQUEUE l ?s = Some s'" "sched_inv s'"
    "list_contents s' l = []" "run_queue s' = run_queue ?s @ rev (list_contents ?s l)"
    using queue_list_inv [OF q(1), of l CURRENT_RUNQUEUE] assms(2) r by auto
  have "(ucast v AND ucast msk = (ucast expected :: u64)) = (v AND msk = expected)"
    by (simp flip: unsigned_and_eq add: ucast_up_inj)
  then show ?thesis
    using q s' by (simp add: sched_wait_u8_def sched_finish_u8_def Let_def)
qed

theorem sched_wait_u8_parks_witness:
  "(\<exists>s'. sched_wait_u8 7 2 0x15 0x0f 0x05 sched_init = Some s' \<and> list_contents s' 2 = [7]) \<and>
   (\<exists>s'. sched_wait_u8 7 2 0x16 0x0f 0x05 sched_init = Some s' \<and> run_queue s' = [7])"
  using sched_wait_u8_parks [of sched_init 7 2 "0x15" "0x0f" "0x05"]
    sched_wait_u8_parks [of sched_init 7 2 "0x16" "0x0f" "0x05"]
  by (auto simp: rq_fresh_def CURRENT_RUNQUEUE_def)

text \<open>
  finish_u16 loads the variable into a u8, so sched_wait_u16 ignores the upper byte:
  with the variable at 0x0100, the mask 0xff00 and the expected value 0, which the
  variable does not have, the thread is parked all the same.
\<close>

lemma sched_wait_u16_ignores_upper_byte:
  "(0x0100 :: u16) AND 0xff00 \<noteq> 0 \<and>
   sched_wait_u16 7 2 0x0100 0xff00 0 sched_init = Some (sched_queue_single 2 7 sched_init)"
  by (simp add: sched_wait_u16_def finish_u16_def)

end
