(* ===== verification/Spi_Flash.thy ===== *)
theory Spi_Flash
  imports Blockdev Sched
begin

text \<open>
  Reading the payload from SPI flash: the controller driver lib/rkspi.c, with its polling and
  its interrupt-driven way of reading, and the boot medium of rk3399/spi.c that streams the
  payload to the decompressor.
\<close>

section \<open>Controller and flash\<close>

text \<open>
  The flash is a parameter: its contents, and the address from which it sends after it has
  received the given bytes since it was selected.  The controller holds the registers the
  driver writes, the bytes sent since the flash was selected, the flash address of the next
  received byte and the number of 16-bit items that the running transfer still delivers.
  It requests an interrupt when more items than the threshold are to come; reading the
  receive register takes the next item, and reading more than the transfer delivers is an error.
\<close>

record spi_flash =
  sf_data :: "nat \<Rightarrow> u8"
  sf_addr :: "u8 list \<Rightarrow> nat"

record rkspi =
  r_ctrl0 :: u32
  r_ctrl1 :: u32
  r_enable :: bool
  r_slave_enable :: bool
  r_rx_fifo_threshold :: u32
  r_intr_mask :: u32
  r_tx :: "u8 list"
  r_pos :: nat
  r_left :: nat

definition RKSPI_XFM_TX :: u32 where "RKSPI_XFM_TX = push_bit 18 1"
definition RKSPI_XFM_RX :: u32 where "RKSPI_XFM_RX = push_bit 18 2"
definition RKSPI_BHT_APB_16BIT :: u32 where "RKSPI_BHT_APB_16BIT = 0"
definition RKSPI_BHT_APB_8BIT :: u32 where "RKSPI_BHT_APB_8BIT = push_bit 13 1"
definition RKSPI_RX_FULL_INTR :: u32 where "RKSPI_RX_FULL_INTR = 16"
definition RKSPI_MAX_RECV :: nat where "RKSPI_MAX_RECV = 0xfffe"

text \<open>Full-cycle slave select delay, clock polarity and phase 1, 8-bit frames.\<close>

definition rkspi_mode_base :: u32 where
  "rkspi_mode_base = push_bit 10 1 OR push_bit 7 1 OR push_bit 6 1 OR 1"

definition rx_mode :: "rkspi \<Rightarrow> bool" where
  "rx_mode hw \<longleftrightarrow> drop_bit 18 (r_ctrl0 hw) AND 3 = 2"

definition spi_enable :: "rkspi \<Rightarrow> rkspi" where
  "spi_enable hw = (if rx_mode hw then hw\<lparr>r_enable := True, r_left := (unat (r_ctrl1 hw) + 1) div 2\<rparr>
     else hw\<lparr>r_enable := True\<rparr>)"

definition spi_disable :: "rkspi \<Rightarrow> rkspi" where
  "spi_disable hw = hw\<lparr>r_enable := False, r_left := 0\<rparr>"

definition spi_deselect :: "rkspi \<Rightarrow> rkspi" where
  "spi_deselect hw = hw\<lparr>r_slave_enable := False, r_tx := []\<rparr>"

definition read_rx :: "spi_flash \<Rightarrow> rkspi \<Rightarrow> (u16 \<times> rkspi) option" where
  "read_rx fl hw = (if r_left hw = 0 then None
     else Some (le_word [sf_data fl (r_pos hw), sf_data fl (r_pos hw + 1)], hw\<lparr>r_pos := r_pos hw + 2, r_left := r_left hw - 1\<rparr>))"

definition rx_full :: "rkspi \<Rightarrow> bool" where
  "rx_full hw \<longleftrightarrow> r_enable hw \<and> unat (r_rx_fifo_threshold hw) < r_left hw"

section \<open>Commands\<close>

definition rkspi_tx_cmd4_dummy1 :: "spi_flash \<Rightarrow> u32 \<Rightarrow> rkspi \<Rightarrow> rkspi" where
  "rkspi_tx_cmd4_dummy1 fl cmd hw =
    (let hw = hw\<lparr>r_ctrl0 := rkspi_mode_base OR RKSPI_XFM_TX OR RKSPI_BHT_APB_8BIT\<rparr>;
         hw = spi_enable hw;
         hw = hw\<lparr>r_tx := r_tx hw @ [ucast (drop_bit 24 cmd), ucast (drop_bit 16 cmd AND 0xff),
           ucast (drop_bit 8 cmd AND 0xff), ucast (cmd AND 0xff), 0xff]\<rparr>;
         hw = hw\<lparr>r_pos := sf_addr fl (r_tx hw)\<rparr>
     in spi_disable hw)"

definition rkspi_tx_fast_read_cmd :: "spi_flash \<Rightarrow> u32 \<Rightarrow> rkspi \<Rightarrow> rkspi option" where
  "rkspi_tx_fast_read_cmd fl addr hw =
    (if drop_bit 24 addr \<noteq> 0 then None
     else Some (rkspi_tx_cmd4_dummy1 fl (push_bit 24 0x0b OR addr) hw))"

section \<open>Interrupt-driven transfers\<close>

record rkspi_xfer_state =
  this_xfer_items :: nat
  x_buf :: nat
  x_end :: nat

definition irq_threshold :: nat where
  "irq_threshold = 24"

definition max_transfer :: nat where
  "max_transfer = 0xffff div (2 * irq_threshold) * irq_threshold * 2"

definition rkspi_start_rx_xfer :: "nat \<Rightarrow> rkspi_xfer_state \<Rightarrow> rkspi \<Rightarrow> (rkspi_xfer_state \<times> rkspi) option" where
  "rkspi_start_rx_xfer bytes st hw =
    (if bytes mod 2 \<noteq> 0 then None
     else
       let (bytes, hw) =
         (if bytes div 2 < irq_threshold
          then (bytes, hw\<lparr>r_rx_fifo_threshold := of_nat (bytes div 2) - 1\<rparr>)
          else (if bytes > max_transfer then max_transfer
                else bytes div (irq_threshold * 2) * irq_threshold * 2,
                hw\<lparr>r_rx_fifo_threshold := of_nat (irq_threshold - 1)\<rparr>));
         st = st\<lparr>this_xfer_items := bytes div 2 mod 2 ^ 16\<rparr>;
         hw = hw\<lparr>r_ctrl1 := of_nat bytes - 1\<rparr>
       in Some (st, spi_enable hw))"

text \<open>The loop that stores the received items.\<close>

definition rx_item :: "spi_flash \<Rightarrow> rkspi \<times> nat \<times> mem \<Rightarrow> (rkspi \<times> nat \<times> mem) option" where
  "rx_item fl = (\<lambda>(hw, buf, m). do {
     (v, hw) \<leftarrow> read_rx fl hw;
     m \<leftarrow> store_le 2 m buf v;
     Some (hw, buf + 2, m)
   })"

definition rkspi_handle_interrupt :: "spi_flash \<Rightarrow> ptr \<Rightarrow> rkspi_xfer_state \<Rightarrow> rkspi \<Rightarrow> mem \<Rightarrow> sched \<Rightarrow>
    (rkspi_xfer_state \<times> rkspi \<times> mem \<times> sched) option" where
  "rkspi_handle_interrupt fl waiters st hw m s =
    (if \<not> rx_full hw then None
     else if x_buf st = 0 then None
     else
       let read_items = (if this_xfer_items st \<ge> irq_threshold then irq_threshold else this_xfer_items st)
       in if x_buf st \<le> x_end st \<and> (x_end st - x_buf st) div 2 < read_items then None
       else do {
         (hw, buf, m) \<leftarrow> mfold (\<lambda>_. rx_item fl) [0..<read_items] (hw, x_buf st, m);
         let st = st\<lparr>x_buf := buf\<rparr>;
         s \<leftarrow> sched_queue_list CURRENT_RUNQUEUE waiters s;
         let st = st\<lparr>this_xfer_items := this_xfer_items st - read_items\<rparr>;
         if this_xfer_items st = 0 then
           if x_end st \<le> buf then Some (st, hw, m, s)
           else do {
             let hw = spi_disable hw;
             (st, hw) \<leftarrow> rkspi_start_rx_xfer ((x_end st - buf) div 2 * 2) st hw;
             Some (st, hw, m, s)
           }
         else Some (st, hw, m, s)
       })"

section \<open>Polled transfers\<close>

text \<open>
  rkspi_recv_fast: lvl gives the fill level of the receive FIFO at each poll, the level 0 a poll
  at which nothing had arrived yet; running out of polls is the time-out.
\<close>

fun recv_items :: "spi_flash \<Rightarrow> nat \<Rightarrow> nat \<Rightarrow> rkspi \<times> nat \<times> mem \<Rightarrow> (bool \<times> rkspi \<times> nat \<times> mem) option" where
  "recv_items fl hi 0 s = Some (False, s)"
| "recv_items fl hi (Suc lvl) s = do {
     (hw, ptr, m) \<leftarrow> rx_item fl s;
     if ptr \<ge> hi then Some (True, hw, ptr, m) else recv_items fl hi lvl (hw, ptr, m)
   }"

fun recv_poll :: "spi_flash \<Rightarrow> nat \<Rightarrow> nat list \<Rightarrow> rkspi \<times> nat \<times> mem \<Rightarrow> (rkspi \<times> nat \<times> mem \<times> nat list) option" where
  "recv_poll fl hi [] s = None"
| "recv_poll fl hi (lvl # lvls) s = do {
     (fin, hw, ptr, m) \<leftarrow> recv_items fl hi lvl s;
     if fin then Some (hw, ptr, m, lvls) else recv_poll fl hi lvls (hw, ptr, m)
   }"

definition rkspi_recv_fast :: "spi_flash \<Rightarrow> nat \<Rightarrow> nat \<Rightarrow> nat list \<Rightarrow> rkspi \<Rightarrow> mem \<Rightarrow> (rkspi \<times> mem \<times> nat list) option" where
  "rkspi_recv_fast fl buf sz lvls hw m =
    (if \<not> (buf mod 2 = 0 \<and> sz mod 2 = 0 \<and> sz \<le> 0xffff) then None
     else do {
       let hw = hw\<lparr>r_ctrl1 := of_nat sz - 1\<rparr>;
       let hw = hw\<lparr>r_ctrl0 := rkspi_mode_base OR RKSPI_XFM_RX OR RKSPI_BHT_APB_16BIT\<rparr>;
       let hw = spi_enable hw;
       (hw, _, m, lvls) \<leftarrow> recv_poll fl (buf + sz) lvls (hw, buf, m);
       Some (spi_disable hw, m, lvls)
     })"

text \<open>The size of the next chunk, from the difference of two pointers.\<close>

definition chunk_size :: "nat \<Rightarrow> nat" where
  "chunk_size n =
    (let read_size = n mod 2 ^ 32
     in if read_size > RKSPI_MAX_RECV then RKSPI_MAX_RECV else read_size)"

function read_chunks :: "spi_flash \<Rightarrow> nat \<Rightarrow> nat \<Rightarrow> nat list \<Rightarrow> rkspi \<Rightarrow> mem \<Rightarrow> (rkspi \<times> mem \<times> nat list) option" where
  "read_chunks fl pos hi lvls hw m =
    (if pos < hi then
       let read_size = chunk_size (hi - pos)
       in if read_size mod 2 \<noteq> 0 then None
          else if read_size = 0 then None
          else do {
            (hw, m, lvls) \<leftarrow> rkspi_recv_fast fl pos read_size lvls hw m;
            read_chunks fl (pos + read_size) hi lvls hw m
          }
     else Some (hw, m, lvls))"
  by pat_completeness auto
termination
  by (relation "measure (\<lambda>(fl, pos, hi, lvls, hw, m). hi - pos)")
    auto

definition rkspi_read_flash_poll :: "spi_flash \<Rightarrow> nat \<Rightarrow> nat \<Rightarrow> u32 \<Rightarrow> nat list \<Rightarrow> rkspi \<Rightarrow> mem \<Rightarrow> (rkspi \<times> mem \<times> nat list) option" where
  "rkspi_read_flash_poll fl buf sz addr lvls hw m = do {
     let hw = hw\<lparr>r_slave_enable := True\<rparr>;
     hw \<leftarrow> rkspi_tx_fast_read_cmd fl addr hw;
     (hw, m, lvls) \<leftarrow> read_chunks fl buf (buf + sz) lvls hw m;
     Some (spi_deselect hw, m, lvls)
   }"

section \<open>The boot medium\<close>

definition start_irq_flash_read :: "spi_flash \<Rightarrow> u32 \<Rightarrow> nat \<Rightarrow> nat \<Rightarrow> rkspi_xfer_state \<Rightarrow> rkspi \<Rightarrow> (rkspi_xfer_state \<times> rkspi) option" where
  "start_irq_flash_read fl addr buf hi st hw =
    (let total_bytes = hi - buf
     in if total_bytes mod 2 \<noteq> 0 then None
     else do {
       let hw = hw\<lparr>r_intr_mask := RKSPI_RX_FULL_INTR, r_slave_enable := True\<rparr>;
       hw \<leftarrow> rkspi_tx_fast_read_cmd fl addr hw;
       let st = st\<lparr>x_end := hi, x_buf := buf\<rparr>;
       let hw = hw\<lparr>r_ctrl0 := rkspi_mode_base OR RKSPI_XFM_RX OR RKSPI_BHT_APB_16BIT\<rparr>;
       rkspi_start_rx_xfer total_bytes st hw
     })"

definition rkspi_end_irq_flash_read :: "rkspi \<Rightarrow> rkspi" where
  "rkspi_end_irq_flash_read hw =
    (let hw = spi_disable hw;
         hw = spi_deselect hw
     in hw\<lparr>r_intr_mask := 0\<rparr>)"

text \<open>
  The transfer object with the hardware it streams from.  sp_irqs says how many interrupts the
  processor has taken when the pump looks at the buffer pointer for the n-th time; the thread
  that runs the pump is parked in between (sched_finish_u8ptr of the scheduler).
\<close>

record spi_dev =
  sp_flash :: spi_flash
  sp_waiters :: ptr
  sp_st :: rkspi_xfer_state
  sp_hw :: rkspi
  sp_sched :: sched
  sp_buf :: async_buf
  sp_irqs :: "nat \<Rightarrow> nat"
  sp_looks :: nat

fun take_irqs :: "nat \<Rightarrow> spi_dev \<times> mem \<Rightarrow> (spi_dev \<times> mem) option" where
  "take_irqs 0 dm = Some dm"
| "take_irqs (Suc n) dm = (case dm of (d, m) \<Rightarrow>
    if rx_full (sp_hw d) then do {
      (st, hw, m, s) \<leftarrow> rkspi_handle_interrupt (sp_flash d) (sp_waiters d) (sp_st d) (sp_hw d) m (sp_sched d);
      take_irqs n (d\<lparr>sp_st := st, sp_hw := hw, sp_sched := s\<rparr>, m)
    } else Some dm)"

definition spi_pump_step :: "nat \<Rightarrow> spi_dev \<times> mem \<Rightarrow> ((spi_dev \<times> mem) + (spi_dev \<times> mem)) option" where
  "spi_pump_step min_size = (\<lambda>(d, m). do {
     (d, m) \<leftarrow> take_irqs (sp_irqs d (sp_looks d)) (d, m);
     let d = d\<lparr>sp_looks := sp_looks d + 1\<rparr>;
     let ptr = x_buf (sp_st d);
     let d = d\<lparr>sp_buf := (sp_buf d)\<lparr>buf_end := ptr\<rparr>\<rparr>;
     if sub64 ptr (buf_start (sp_buf d)) \<ge> min_size \<or> ptr = x_end (sp_st d)
     then Some (Inr (d, m)) else Some (Inl (d, m))
   })"

definition spi_pump :: "spi_dev pump_fn" where
  "spi_pump d m consume min_size = do {
     let d = d\<lparr>sp_buf := (sp_buf d)\<lparr>buf_start := buf_start (sp_buf d) + consume\<rparr>\<rparr>;
     (d, m) \<leftarrow> iterate (spi_pump_step min_size) (d, m);
     Some (sp_buf d, d, m)
   }"

text \<open>
  The part of boot_spi between the cue and the verdict: at most 16 MiB of the blob buffer are
  filled from offset 256 KiB of the flash, and the transfer is ended whatever the decompression
  says.  The decompression is the argument.
\<close>

definition SPI_LOAD_ADDR :: u32 where
  "SPI_LOAD_ADDR = push_bit 10 256"

definition spi_load :: "(spi_dev \<Rightarrow> mem \<Rightarrow> (nat \<times> spi_dev \<times> mem) option) \<Rightarrow> nat \<Rightarrow> nat \<Rightarrow> spi_dev \<Rightarrow> mem \<Rightarrow>
    (nat \<times> spi_dev \<times> mem) option" where
  "spi_load unpack lo hi d m = do {
     let hi = (if hi - lo > 2 ^ 24 then lo + 2 ^ 24 else hi);
     let d = d\<lparr>sp_buf := \<lparr>buf_start = lo, buf_end = lo\<rparr>\<rparr>;
     (st, hw) \<leftarrow> start_irq_flash_read (sp_flash d) SPI_LOAD_ADDR lo hi (sp_st d) (sp_hw d);
     (r, d, m) \<leftarrow> unpack (d\<lparr>sp_st := st, sp_hw := hw\<rparr>) m;
     Some (r, d\<lparr>sp_hw := rkspi_end_irq_flash_read (sp_hw d)\<rparr>, m)
   }"

section \<open>A running transfer\<close>

text \<open>
  The controller and the driver agree on the running transfer: the number of items to come is
  the one the driver counts, does not exceed the rest of the buffer, and is a multiple of the
  interrupt threshold, or smaller than it and then requested with a lower threshold.
\<close>

definition xfer_ok :: "rkspi_xfer_state \<Rightarrow> rkspi \<Rightarrow> bool" where
  "xfer_ok st hw \<longleftrightarrow> r_enable hw \<and> rx_mode hw \<and> 0 < this_xfer_items st \<and> r_left hw = this_xfer_items st \<and>
     2 * this_xfer_items st \<le> x_end st - x_buf st \<and>
     unat (r_rx_fifo_threshold hw) + 1 = min irq_threshold (this_xfer_items st) \<and>
     (this_xfer_items st < irq_threshold \<or> this_xfer_items st mod irq_threshold = 0)"

lemma start_rx_xfer_ok:
  assumes "bytes mod 2 = 0" "0 < bytes" "bytes \<le> x_end st - x_buf st" "rx_mode hw"
  shows "\<exists>n t c. rkspi_start_rx_xfer bytes st hw = Some (st\<lparr>this_xfer_items := n\<rparr>,
      hw\<lparr>r_rx_fifo_threshold := t, r_ctrl1 := c, r_enable := True, r_left := n\<rparr>) \<and>
    xfer_ok (st\<lparr>this_xfer_items := n\<rparr>) (hw\<lparr>r_rx_fifo_threshold := t, r_ctrl1 := c, r_enable := True, r_left := n\<rparr>)"
proof -
  define bb where "bb = (if bytes div 2 < 24 then bytes else if bytes > 65520 then 65520 else bytes div 48 * 48)"
  define t :: u32 where "t = (if bytes div 2 < 24 then of_nat (bytes div 2) - 1 else 23)"
  have bb: "0 < bb" "bb \<le> bytes" "bb mod 2 = 0" "bb < 65536" "bb div 2 mod 65536 = bb div 2"
    using assms(1,2) by (auto simp: bb_def)
  have mul: "bb div 2 < 24 \<or> bb div 2 mod 24 = 0"
  proof -
    have "bytes div 48 * 48 div 2 = bytes div 48 * 24" by (simp add: mult.commute)
    then show ?thesis by (auto simp: bb_def)
  qed
  have t: "unat t + 1 = min 24 (bb div 2)"
  proof (cases "bytes div 2 < 24")
    case True
    have "0 < bytes div 2" using assms(1,2) by auto
    then have "t = of_nat (bytes div 2 - 1)" using True by (simp add: t_def of_nat_diff)
    then have "unat t = bytes div 2 - 1" using True by (simp add: unat_of_nat take_bit_nat_eq_self)
    then show ?thesis using True \<open>0 < bytes div 2\<close> by (simp add: bb_def)
  next
    case False
    then have "24 \<le> bb div 2" by (auto simp: bb_def)
    then show ?thesis using False by (simp add: t_def)
  qed
  have c: "(unat (of_nat bb - 1 :: u32) + 1) div 2 = bb div 2"
  proof -
    have e: "of_nat bb - 1 = (of_nat (bb - 1) :: u32)" using bb by (simp add: of_nat_diff)
    have u: "unat (of_nat x :: u32) = x" if "x < 2 ^ 32" for x
      using that by (simp add: unat_of_nat take_bit_nat_eq_self)
    have "bb - 1 < 2 ^ 32" using bb by simp
    from u [OF this] show ?thesis unfolding e using bb by simp
  qed
  have p: "(if bytes div 2 < irq_threshold then (bytes, hw\<lparr>r_rx_fifo_threshold := of_nat (bytes div 2) - 1\<rparr>)
      else (if bytes > max_transfer then max_transfer else bytes div (irq_threshold * 2) * irq_threshold * 2,
        hw\<lparr>r_rx_fifo_threshold := of_nat (irq_threshold - 1)\<rparr>)) = (bb, hw\<lparr>r_rx_fifo_threshold := t\<rparr>)"
    by (simp add: bb_def t_def irq_threshold_def max_transfer_def)
  have "rkspi_start_rx_xfer bytes st hw = Some (st\<lparr>this_xfer_items := bb div 2\<rparr>,
      hw\<lparr>r_rx_fifo_threshold := t, r_ctrl1 := of_nat bb - 1, r_enable := True, r_left := bb div 2\<rparr>)"
    using assms(1,4) bb(5) c unfolding rkspi_start_rx_xfer_def p by (simp add: Let_def spi_enable_def rx_mode_def)
  moreover have "xfer_ok (st\<lparr>this_xfer_items := bb div 2\<rparr>)
      (hw\<lparr>r_rx_fifo_threshold := t, r_ctrl1 := of_nat bb - 1, r_enable := True, r_left := bb div 2\<rparr>)"
    using assms bb mul t by (auto simp: xfer_ok_def irq_threshold_def rx_mode_def)
  ultimately show ?thesis by blast
qed

text \<open>The items of an interrupt are the next bytes of the flash.\<close>

lemma rx_item_ok:
  assumes "0 < r_left hw" "mapped m buf 2"
  shows "rx_item fl (hw, buf, m) = Some (hw\<lparr>r_pos := r_pos hw + 2, r_left := r_left hw - 1\<rparr>, buf + 2,
    mem_write m buf (medium_bytes (sf_data fl) (r_pos hw) 2))"
proof -
  let ?bs = "[sf_data fl (r_pos hw), sf_data fl (r_pos hw + 1)]"
  have "medium_bytes (sf_data fl) (r_pos hw) 2 = ?bs" by (simp add: medium_bytes_def numeral_2_eq_2)
  moreover have "le_bytes 2 (le_word ?bs :: u16) = ?bs" using le_bytes_le_word [of 2 ?bs, where 'a = 16] by simp
  moreover have "store_bytes m buf ?bs = Some (mem_write m buf ?bs)"
    using assms(2) by (simp add: store_bytes_def numeral_2_eq_2)
  ultimately show ?thesis
    using assms by (simp add: rx_item_def read_rx_def store_le_def)
qed

lemma rx_items_ok:
  assumes "n \<le> r_left hw" "mapped m buf (2 * n)"
  shows "\<exists>m'. mfold (\<lambda>_. rx_item fl) [0..<n] (hw, buf, m) =
      Some (hw\<lparr>r_pos := r_pos hw + 2 * n, r_left := r_left hw - n\<rparr>, buf + 2 * n, m') \<and>
    only_within m m' buf (buf + 2 * n) \<and> bytes_at m' buf (2 * n) = medium_bytes (sf_data fl) (r_pos hw) (2 * n)"
  using assms
proof (induction n)
  case 0
  then show ?case by (simp add: medium_bytes_def)
next
  case (Suc n)
  then obtain m1 where m1: "mfold (\<lambda>_. rx_item fl) [0..<n] (hw, buf, m) =
      Some (hw\<lparr>r_pos := r_pos hw + 2 * n, r_left := r_left hw - n\<rparr>, buf + 2 * n, m1)"
    "only_within m m1 buf (buf + 2 * n)" "bytes_at m1 buf (2 * n) = medium_bytes (sf_data fl) (r_pos hw) (2 * n)"
    using mapped_sub [OF Suc.prems(2), of buf "2 * n"] by auto
  let ?m = "mem_write m1 (buf + 2 * n) (medium_bytes (sf_data fl) (r_pos hw + 2 * n) 2)"
  have mp: "mapped m1 (buf + 2 * n) 2"
    using only_within_mapped [OF m1(2)] mapped_sub [OF Suc.prems(2), of "buf + 2 * n" 2] by simp
  have w: "only_within m1 ?m (buf + 2 * n) (buf + 2 * n + 2)"
    using mem_write_within [of m1 "buf + 2 * n" "medium_bytes (sf_data fl) (r_pos hw + 2 * n) 2"] mp by simp
  have "only_within m ?m buf (buf + 2 * Suc n)"
    using only_within_trans [OF only_within_mono [OF m1(2), of buf "buf + 2 * Suc n"] w] by simp
  moreover have "bytes_at ?m buf (2 * n + 2) = medium_bytes (sf_data fl) (r_pos hw) (2 * n + 2)"
    unfolding bytes_at_append medium_bytes_append [symmetric]
    using only_within_bytes [OF w, of buf "2 * n"] m1(3)
      bytes_at_mem_write [of m1 "buf + 2 * n" "medium_bytes (sf_data fl) (r_pos hw + 2 * n) 2"] by simp
  moreover have "mfold (\<lambda>_. rx_item fl) [0..<Suc n] (hw, buf, m) =
      Some (hw\<lparr>r_pos := r_pos hw + 2 * Suc n, r_left := r_left hw - Suc n\<rparr>, buf + 2 * Suc n, ?m)"
    using m1(1) Suc.prems(1) rx_item_ok [of "hw\<lparr>r_pos := r_pos hw + 2 * n, r_left := r_left hw - n\<rparr>" m1 "buf + 2 * n" fl] mp
    by (simp add: mfold_append)
  ultimately show ?case by (simp add: numeral_2_eq_2)
qed

text \<open>What the handler does after it has stored n items.\<close>

lemma handle_next:
  assumes ok: "xfer_ok st hw" and n: "n = (if this_xfer_items st \<ge> irq_threshold then irq_threshold else this_xfer_items st)"
    and buf: "x_buf st \<le> x_end st" "even (x_end st - x_buf st)"
  shows "\<exists>st' hw'. (if this_xfer_items st - n = 0 then
         if x_end st \<le> x_buf st + 2 * n then Some (st\<lparr>x_buf := x_buf st + 2 * n, this_xfer_items := this_xfer_items st - n\<rparr>,
             hw\<lparr>r_pos := r_pos hw + 2 * n, r_left := r_left hw - n\<rparr>, m1, s')
         else do {
           (st', hw') \<leftarrow> rkspi_start_rx_xfer ((x_end st - (x_buf st + 2 * n)) div 2 * 2)
             (st\<lparr>x_buf := x_buf st + 2 * n, this_xfer_items := this_xfer_items st - n\<rparr>)
             (spi_disable (hw\<lparr>r_pos := r_pos hw + 2 * n, r_left := r_left hw - n\<rparr>));
           Some (st', hw', m1, s')
         }
       else Some (st\<lparr>x_buf := x_buf st + 2 * n, this_xfer_items := this_xfer_items st - n\<rparr>,
             hw\<lparr>r_pos := r_pos hw + 2 * n, r_left := r_left hw - n\<rparr>, m1, s')) = Some (st', hw', m1, s') \<and>
    x_buf st' = x_buf st + 2 * n \<and> x_end st' = x_end st \<and> (x_buf st' < x_end st' \<longrightarrow> xfer_ok st' hw') \<and>
    (x_buf st' = x_end st' \<longrightarrow> r_left hw' = 0) \<and> r_pos hw' = r_pos hw + 2 * n"
proof (cases "this_xfer_items st - n = 0 \<and> x_buf st + 2 * n < x_end st")
  case True
  let ?st = "st\<lparr>x_buf := x_buf st + 2 * n, this_xfer_items := this_xfer_items st - n\<rparr>"
  let ?hw = "spi_disable (hw\<lparr>r_pos := r_pos hw + 2 * n, r_left := r_left hw - n\<rparr>)"
  have "even (x_end st - (x_buf st + 2 * n))" using buf True by auto
  then have e0: "(x_end st - (x_buf st + 2 * n)) mod 2 = 0" and e: "(x_end st - (x_buf st + 2 * n)) div 2 * 2 = x_end st - (x_buf st + 2 * n)" by presburger+
  have "rx_mode ?hw" using ok by (simp add: xfer_ok_def rx_mode_def spi_disable_def)
  from start_rx_xfer_ok [of "x_end st - (x_buf st + 2 * n)" ?st, OF e0 _ _ this] True
  show ?thesis unfolding e by (auto simp: spi_disable_def)
next
  case False
  have "xfer_ok (st\<lparr>x_buf := x_buf st + 2 * n, this_xfer_items := this_xfer_items st - n\<rparr>)
      (hw\<lparr>r_pos := r_pos hw + 2 * n, r_left := r_left hw - n\<rparr>)" if "this_xfer_items st - n \<noteq> 0"
  proof -
    have "irq_threshold < this_xfer_items st" "n = irq_threshold" using that n by (auto split: if_splits)
    moreover from this have "(this_xfer_items st - irq_threshold) mod irq_threshold = 0"
      using ok by (simp add: xfer_ok_def mod_if flip: le_mod_geq)
    moreover from this have "irq_threshold \<le> this_xfer_items st - irq_threshold"
      using that calculation(1,2) by (metis mod_less not_le)
    ultimately show ?thesis using ok by (auto simp: xfer_ok_def rx_mode_def)
  qed
  moreover have "r_left hw - n = 0" if "x_buf st + 2 * n = x_end st"
    using ok that by (auto simp: xfer_ok_def)
  moreover have "r_left hw - n = 0" if "this_xfer_items st - n = 0"
    using ok that by (auto simp: xfer_ok_def)
  ultimately show ?thesis using False by auto
qed

text \<open>
  One interrupt during a transfer: the handler returns, the next 48 bytes of the flash or the
  rest are in the buffer, the waiting threads are queued, and unless the buffer is full the
  next transfer runs.
\<close>

lemma handle_interrupt_ok:
  assumes ok: "xfer_ok st hw" and buf: "x_buf st \<noteq> 0" "x_buf st \<le> x_end st" "even (x_end st - x_buf st)"
    and mem: "mapped m (x_buf st) (x_end st - x_buf st)" and sc: "sched_inv s" "waiters \<noteq> rq_fresh"
  shows "\<exists>st' hw' m' s' n. rkspi_handle_interrupt fl waiters st hw m s = Some (st', hw', m', s') \<and>
    0 < n \<and> x_buf st' = x_buf st + 2 * n \<and> x_end st' = x_end st \<and> x_buf st' \<le> x_end st \<and>
    (x_buf st' < x_end st' \<longrightarrow> xfer_ok st' hw') \<and> (x_buf st' = x_end st' \<longrightarrow> r_left hw' = 0) \<and>
    r_pos hw' = r_pos hw + 2 * n \<and> sched_inv s' \<and>
    only_within m m' (x_buf st) (x_buf st + 2 * n) \<and>
    bytes_at m' (x_buf st) (2 * n) = medium_bytes (sf_data fl) (r_pos hw) (2 * n)"
proof -
  define n where "n = (if this_xfer_items st \<ge> irq_threshold then irq_threshold else this_xfer_items st)"
  have n: "0 < n" "n \<le> r_left hw" "2 * n \<le> x_end st - x_buf st" "n \<le> this_xfer_items st"
    using ok by (auto simp: xfer_ok_def n_def irq_threshold_def)
  have full: "rx_full hw" using ok n by (auto simp: xfer_ok_def rx_full_def n_def)
  obtain m1 where m1: "mfold (\<lambda>_. rx_item fl) [0..<n] (hw, x_buf st, m) =
      Some (hw\<lparr>r_pos := r_pos hw + 2 * n, r_left := r_left hw - n\<rparr>, x_buf st + 2 * n, m1)"
    "only_within m m1 (x_buf st) (x_buf st + 2 * n)"
    "bytes_at m1 (x_buf st) (2 * n) = medium_bytes (sf_data fl) (r_pos hw) (2 * n)"
    using rx_items_ok [of n hw m "x_buf st" fl] mapped_sub [OF mem, of "x_buf st" "2 * n"] n by auto
  obtain s' where s': "sched_queue_list CURRENT_RUNQUEUE waiters s = Some s'" "sched_inv s'"
    using queue_list_inv [OF sc(1), of waiters CURRENT_RUNQUEUE] sc(2) by (auto simp: resolve_list_def)
  let ?hw = "hw\<lparr>r_pos := r_pos hw + 2 * n, r_left := r_left hw - n\<rparr>"
  let ?st = "st\<lparr>x_buf := x_buf st + 2 * n, this_xfer_items := this_xfer_items st - n\<rparr>"
  let ?rest = "x_end st - (x_buf st + 2 * n)"
  obtain st' hw' where nx: "(if this_xfer_items st - n = 0 then
         if x_end st \<le> x_buf st + 2 * n then Some (?st, ?hw, m1, s')
         else do { (st', hw') \<leftarrow> rkspi_start_rx_xfer (?rest div 2 * 2) ?st (spi_disable ?hw); Some (st', hw', m1, s') }
       else Some (?st, ?hw, m1, s')) = Some (st', hw', m1, s')"
    and st': "x_buf st' = x_buf st + 2 * n" "x_end st' = x_end st" "x_buf st' < x_end st' \<longrightarrow> xfer_ok st' hw'"
      "x_buf st' = x_end st' \<longrightarrow> r_left hw' = 0" "r_pos hw' = r_pos hw + 2 * n"
    using handle_next [OF ok n_def buf(2,3), of m1 s'] by blast
  have "\<not> (x_end st - x_buf st) div 2 < n" using n(3) by linarith
  then have "rkspi_handle_interrupt fl waiters st hw m s = Some (st', hw', m1, s')"
    using full buf(1) m1(1) s'(1) nx unfolding rkspi_handle_interrupt_def Let_def n_def [symmetric]
    by (simp add: Let_def cong: if_cong)
  then show ?thesis
    using st' n m1(2,3) s'(2) buf(2) by (intro exI [of _ st'] exI [of _ hw'] exI [of _ m1] exI [of _ s'] exI [of _ n]) simp
qed

section \<open>The stream\<close>

text \<open>
  The state of a stream that reads the flash from addr on into the buffer from lo to hi: the
  part handed out lies before the part received.  Interrupts do not cease.
\<close>

definition spi_stream :: "nat \<Rightarrow> nat \<Rightarrow> nat \<Rightarrow> spi_dev \<Rightarrow> bool" where
  "spi_stream addr lo hi d \<longleftrightarrow> 0 < lo \<and> lo \<le> buf_start (sp_buf d) \<and> buf_start (sp_buf d) \<le> buf_end (sp_buf d) \<and>
     buf_end (sp_buf d) \<le> x_buf (sp_st d) \<and> x_buf (sp_st d) \<le> hi \<and> x_end (sp_st d) = hi \<and>
     even (hi - x_buf (sp_st d)) \<and> (x_buf (sp_st d) < hi \<longrightarrow> xfer_ok (sp_st d) (sp_hw d)) \<and>
     (x_buf (sp_st d) = hi \<longrightarrow> r_left (sp_hw d) = 0) \<and>
     r_pos (sp_hw d) = addr + (x_buf (sp_st d) - lo) \<and> sched_inv (sp_sched d) \<and> sp_waiters d \<noteq> rq_fresh \<and>
     (\<forall>i. \<exists>e. 0 < sp_irqs d (i + e))"

definition spi_received :: "nat \<Rightarrow> nat \<Rightarrow> spi_dev \<Rightarrow> mem \<Rightarrow> bool" where
  "spi_received addr lo d m \<longleftrightarrow>
     bytes_at m lo (x_buf (sp_st d) - lo) = medium_bytes (sf_data (sp_flash d)) addr (x_buf (sp_st d) - lo)"

text \<open>What interrupts leave of a stream.\<close>

definition irq_after :: "nat \<Rightarrow> nat \<Rightarrow> nat \<Rightarrow> spi_dev \<times> mem \<Rightarrow> spi_dev \<times> mem \<Rightarrow> bool" where
  "irq_after addr lo hi = (\<lambda>(d, m) (d', m'). spi_stream addr lo hi d' \<and> sp_buf d' = sp_buf d \<and> sp_irqs d' = sp_irqs d \<and>
     sp_looks d' = sp_looks d \<and> sp_flash d' = sp_flash d \<and> x_buf (sp_st d) \<le> x_buf (sp_st d') \<and>
     only_within m m' (x_buf (sp_st d)) hi \<and> (spi_received addr lo d m \<longrightarrow> spi_received addr lo d' m'))"

lemma one_irq:
  assumes st: "spi_stream addr lo hi d" and lt: "x_buf (sp_st d) < hi" and mem: "mapped m lo (hi - lo)"
  shows "\<exists>st hw m' s. rkspi_handle_interrupt (sp_flash d) (sp_waiters d) (sp_st d) (sp_hw d) m (sp_sched d) = Some (st, hw, m', s) \<and>
    irq_after addr lo hi (d, m) (d\<lparr>sp_st := st, sp_hw := hw, sp_sched := s\<rparr>, m') \<and> x_buf (sp_st d) < x_buf st"
proof -
  let ?b = "x_buf (sp_st d)"
  have b: "lo \<le> ?b" "?b \<le> hi" "x_end (sp_st d) = hi" "even (hi - ?b)" "r_pos (sp_hw d) = addr + (?b - lo)" "0 < lo"
    using st by (auto simp: spi_stream_def)
  obtain st' hw' m' s' n where r: "rkspi_handle_interrupt (sp_flash d) (sp_waiters d) (sp_st d) (sp_hw d) m (sp_sched d) = Some (st', hw', m', s')"
    "0 < n" "x_buf st' = ?b + 2 * n" "x_end st' = hi" "x_buf st' \<le> hi" "x_buf st' < hi \<longrightarrow> xfer_ok st' hw'"
    "x_buf st' = hi \<longrightarrow> r_left hw' = 0" "r_pos hw' = r_pos (sp_hw d) + 2 * n" "sched_inv s'" "only_within m m' ?b (?b + 2 * n)"
    "bytes_at m' ?b (2 * n) = medium_bytes (sf_data (sp_flash d)) (r_pos (sp_hw d)) (2 * n)"
    using handle_interrupt_ok [of "sp_st d" "sp_hw d" m "sp_sched d" "sp_waiters d" "sp_flash d"] st lt b mapped_sub [OF mem, of ?b "hi - ?b"]
    by (auto simp: spi_stream_def)
  have rec: "bytes_at m' lo (x_buf st' - lo) = medium_bytes (sf_data (sp_flash d)) addr (x_buf st' - lo)"
    if "spi_received addr lo d m"
  proof -
    have e: "x_buf st' - lo = (?b - lo) + 2 * n" "lo + (?b - lo) = ?b" using r b by auto
    show ?thesis
      unfolding e(1) bytes_at_append medium_bytes_append [symmetric] e(2)
      using that r(11) only_within_bytes [OF r(10), of lo "?b - lo"] b by (simp add: spi_received_def)
  qed
  have ev: "even (hi - x_buf st')" using b r(3,5) by auto
  have "irq_after addr lo hi (d, m) (d\<lparr>sp_st := st', sp_hw := hw', sp_sched := s'\<rparr>, m')"
    using st r ev rec b only_within_mono [OF r(10), of ?b hi] by (auto simp: irq_after_def spi_stream_def spi_received_def)
  with r show ?thesis by auto
qed

lemma irq_after_trans:
  "irq_after addr lo hi x y \<Longrightarrow> irq_after addr lo hi y z \<Longrightarrow> irq_after addr lo hi x z"
  unfolding irq_after_def by (auto split: prod.splits elim: only_within_trans)

lemma irq_after_refl: "spi_stream addr lo hi d \<Longrightarrow> irq_after addr lo hi (d, m) (d, m)"
  by (simp add: irq_after_def)

lemma take_irqs_ok:
  assumes "spi_stream addr lo hi d" "mapped m lo (hi - lo)"
  shows "\<exists>d' m'. take_irqs n (d, m) = Some (d', m') \<and> irq_after addr lo hi (d, m) (d', m') \<and>
    (0 < n \<longrightarrow> x_buf (sp_st d) < hi \<longrightarrow> x_buf (sp_st d) < x_buf (sp_st d'))"
  using assms
proof (induction n arbitrary: d m)
  case 0
  then show ?case by (auto intro: irq_after_refl)
next
  case (Suc n)
  show ?case
  proof (cases "x_buf (sp_st d) < hi")
    case False
    then have "r_left (sp_hw d) = 0" using Suc.prems(1) by (auto simp: spi_stream_def)
    then show ?thesis using False Suc.prems(1) by (auto simp: rx_full_def intro: irq_after_refl)
  next
    case True
    then have full: "rx_full (sp_hw d)" using Suc.prems(1) by (auto simp: spi_stream_def xfer_ok_def rx_full_def min_def split: if_splits)
    obtain st hw m1 s where r: "rkspi_handle_interrupt (sp_flash d) (sp_waiters d) (sp_st d) (sp_hw d) m (sp_sched d) = Some (st, hw, m1, s)"
      "irq_after addr lo hi (d, m) (d\<lparr>sp_st := st, sp_hw := hw, sp_sched := s\<rparr>, m1)" "x_buf (sp_st d) < x_buf st"
      using one_irq [OF Suc.prems(1) True Suc.prems(2)] by blast
    have "mapped m1 lo (hi - lo)" using r(2) Suc.prems(2) only_within_mapped by (auto simp: irq_after_def)
    then obtain d' m' where r': "take_irqs n (d\<lparr>sp_st := st, sp_hw := hw, sp_sched := s\<rparr>, m1) = Some (d', m')"
      "irq_after addr lo hi (d\<lparr>sp_st := st, sp_hw := hw, sp_sched := s\<rparr>, m1) (d', m')"
      using Suc.IH [of "d\<lparr>sp_st := st, sp_hw := hw, sp_sched := s\<rparr>" m1] r(2) by (auto simp: irq_after_def)
    moreover have "x_buf st \<le> x_buf (sp_st d')" using r'(2) by (simp add: irq_after_def)
    ultimately show ?thesis
      using full r irq_after_trans [OF r(2) r'(2)] by auto
  qed
qed

section \<open>The pump\<close>

definition irq_wait :: "(nat \<Rightarrow> nat) \<Rightarrow> nat \<Rightarrow> nat" where
  "irq_wait f i = (LEAST e. 0 < f (i + e))"

lemma irq_wait_less:
  assumes "\<forall>i. \<exists>e. 0 < f (i + e)" "f i = 0"
  shows "irq_wait f (i + 1) < irq_wait f i"
proof -
  have e: "0 < f (i + irq_wait f i)"
    unfolding irq_wait_def by (rule LeastI_ex) (use assms(1) in auto)
  then obtain d where d: "irq_wait f i = Suc d" using assms(2) by (cases "irq_wait f i") auto
  with e have "0 < f (i + 1 + d)" by simp
  then have "irq_wait f (i + 1) \<le> d" unfolding irq_wait_def by (rule Least_le)
  with d show ?thesis by simp
qed

text \<open>The states of the pump loop, and how its result relates to the state before.\<close>

definition pump_inv :: "nat \<Rightarrow> nat \<Rightarrow> nat \<Rightarrow> spi_dev \<times> mem \<Rightarrow> spi_dev \<times> mem \<Rightarrow> bool" where
  "pump_inv addr lo hi = (\<lambda>(d0, m0) (d, m). spi_stream addr lo hi d \<and> sp_irqs d = sp_irqs d0 \<and> sp_flash d = sp_flash d0 \<and>
     buf_start (sp_buf d) = buf_start (sp_buf d0) \<and> buf_end (sp_buf d0) \<le> buf_end (sp_buf d) \<and>
     x_buf (sp_st d0) \<le> x_buf (sp_st d) \<and> only_within m0 m (x_buf (sp_st d0)) hi \<and>
     (spi_received addr lo d0 m0 \<longrightarrow> spi_received addr lo d m))"

definition pump_rel :: "nat \<Rightarrow> ((spi_dev \<times> mem) \<times> (spi_dev \<times> mem)) set" where
  "pump_rel hi = inv_image (less_than <*lex*> less_than) (\<lambda>(d, m). (hi - x_buf (sp_st d), irq_wait (sp_irqs d) (sp_looks d)))"

lemma pump_step_ok:
  assumes inv: "pump_inv addr lo hi dm0 (d, m)" and mem: "mapped (snd dm0) lo (hi - lo)"
  shows "(\<exists>dm. spi_pump_step min_size (d, m) = Some (Inl dm) \<and> pump_inv addr lo hi dm0 dm \<and> (dm, (d, m)) \<in> pump_rel hi) \<or>
    (\<exists>d' m'. spi_pump_step min_size (d, m) = Some (Inr (d', m')) \<and> pump_inv addr lo hi dm0 (d', m') \<and>
      buf_end (sp_buf d') = x_buf (sp_st d') \<and> (min_size \<le> buf_size (sp_buf d') \<or> buf_end (sp_buf d') = hi))"
proof -
  obtain d0 m0 where dm0: "dm0 = (d0, m0)" by (cases dm0)
  have st: "spi_stream addr lo hi d" using inv by (simp add: pump_inv_def dm0)
  have "mapped m lo (hi - lo)" using inv mem only_within_mapped by (auto simp: pump_inv_def dm0)
  then obtain d1 m1 where r: "take_irqs (sp_irqs d (sp_looks d)) (d, m) = Some (d1, m1)" "irq_after addr lo hi (d, m) (d1, m1)"
    "0 < sp_irqs d (sp_looks d) \<longrightarrow> x_buf (sp_st d) < hi \<longrightarrow> x_buf (sp_st d) < x_buf (sp_st d1)"
    using take_irqs_ok [OF st] by blast
  define d2 where "d2 = d1\<lparr>sp_looks := sp_looks d1 + 1, sp_buf := (sp_buf d1)\<lparr>buf_end := x_buf (sp_st d1)\<rparr>\<rparr>"
  have i2: "pump_inv addr lo hi dm0 (d2, m1)"
  proof -
    have i: "spi_stream addr lo hi d1" "sp_buf d1 = sp_buf d" "sp_irqs d1 = sp_irqs d" "sp_flash d1 = sp_flash d"
      "x_buf (sp_st d) \<le> x_buf (sp_st d1)" "only_within m m1 (x_buf (sp_st d)) hi" "spi_received addr lo d m \<longrightarrow> spi_received addr lo d1 m1"
      using r(2) by (simp_all add: irq_after_def)
    have j: "sp_irqs d = sp_irqs d0" "sp_flash d = sp_flash d0" "buf_start (sp_buf d) = buf_start (sp_buf d0)"
      "buf_end (sp_buf d0) \<le> buf_end (sp_buf d)" "x_buf (sp_st d0) \<le> x_buf (sp_st d)" "only_within m0 m (x_buf (sp_st d0)) hi"
      "spi_received addr lo d0 m0 \<longrightarrow> spi_received addr lo d m"
      using inv by (simp_all add: pump_inv_def dm0)
    have "spi_stream addr lo hi d2" using i(1) unfolding spi_stream_def d2_def by simp linarith
    moreover have "buf_end (sp_buf d1) \<le> x_buf (sp_st d1)" using i(1) by (simp add: spi_stream_def)
    moreover have "only_within m0 m1 (x_buf (sp_st d0)) hi" using only_within_trans [OF j(6) i(6) j(5)] by simp
    moreover have "spi_received addr lo d1 m1 \<Longrightarrow> spi_received addr lo d2 m1" by (simp add: spi_received_def d2_def)
    ultimately show ?thesis using i j by (simp add: pump_inv_def dm0 d2_def)
  qed
  have le: "buf_start (sp_buf d1) \<le> x_buf (sp_st d1)" "x_end (sp_st d1) = hi" "x_buf (sp_st d1) \<le> hi"
    using r(2) by (auto simp: irq_after_def spi_stream_def)
  show ?thesis
  proof (cases "min_size \<le> x_buf (sp_st d1) - buf_start (sp_buf d1) \<or> x_buf (sp_st d1) = hi")
    case True
    then show ?thesis
      using r(1) le i2 by (auto simp: spi_pump_step_def sub64_def buf_size_def d2_def)
  next
    case False
    have same: "sp_irqs d1 = sp_irqs d" "sp_looks d1 = sp_looks d" "x_buf (sp_st d) \<le> x_buf (sp_st d1)"
      using r(2) by (auto simp: irq_after_def)
    have f: "\<forall>i. \<exists>e. 0 < sp_irqs d (i + e)" using st by (simp add: spi_stream_def)
    have "((d2, m1), (d, m)) \<in> pump_rel hi"
      using r(3) le same False irq_wait_less [OF f, of "sp_looks d"]
      by (cases "sp_irqs d (sp_looks d) = 0") (auto simp: pump_rel_def d2_def)
    moreover have "spi_pump_step min_size (d, m) = Some (Inl (d2, m1))"
      using r(1) le False by (simp add: spi_pump_step_def sub64_def d2_def)
    ultimately show ?thesis using i2 by blast
  qed
qed

lemma spi_pump_ok:
  assumes st: "spi_stream addr lo hi d" and mem: "mapped m lo (hi - lo)" and c: "consume \<le> buf_size (sp_buf d)"
  shows "\<exists>d' m'. spi_pump d m consume min_size = Some (sp_buf d', d', m') \<and> spi_stream addr lo hi d' \<and>
    x_buf (sp_st d) \<le> x_buf (sp_st d') \<and>
    sp_flash d' = sp_flash d \<and> buf_start (sp_buf d') = buf_start (sp_buf d) + consume \<and> buf_end (sp_buf d) \<le> buf_end (sp_buf d') \<and>
    buf_end (sp_buf d') = x_buf (sp_st d') \<and> (min_size \<le> buf_size (sp_buf d') \<or> buf_end (sp_buf d') = hi) \<and>
    only_within m m' (x_buf (sp_st d)) hi \<and> (spi_received addr lo d m \<longrightarrow> spi_received addr lo d' m')"
proof -
  define d0 where "d0 = d\<lparr>sp_buf := (sp_buf d)\<lparr>buf_start := buf_start (sp_buf d) + consume\<rparr>\<rparr>"
  have i0: "pump_inv addr lo hi (d0, m) (d0, m)"
    using st c by (auto simp: pump_inv_def d0_def spi_stream_def buf_size_def)
  let ?Q = "\<lambda>(d', m'). pump_inv addr lo hi (d0, m) (d', m') \<and> buf_end (sp_buf d') = x_buf (sp_st d') \<and>
    (min_size \<le> buf_size (sp_buf d') \<or> buf_end (sp_buf d') = hi)"
  have "\<exists>x. iterate (spi_pump_step min_size) (d0, m) = Some x \<and> ?Q x"
  proof (rule iterate_wf [where R = "pump_rel hi" and I = "pump_inv addr lo hi (d0, m)"])
    show "wf (pump_rel hi)" by (simp add: pump_rel_def wf_inv_image wf_lex_prod)
    fix dm assume "pump_inv addr lo hi (d0, m) dm"
    then show "(\<exists>dm'. spi_pump_step min_size dm = Some (Inl dm') \<and> pump_inv addr lo hi (d0, m) dm' \<and> (dm', dm) \<in> pump_rel hi) \<or>
        (\<exists>x. spi_pump_step min_size dm = Some (Inr x) \<and> ?Q x)"
      using pump_step_ok [of addr lo hi "(d0, m)" "fst dm" "snd dm" min_size] mem by auto
  qed (rule i0)
  then obtain d' m' where "iterate (spi_pump_step min_size) (d0, m) = Some (d', m')" "?Q (d', m')" by auto
  then show ?thesis
    using st by (auto simp: spi_pump_def pump_inv_def d0_def spi_received_def)
qed

interpretation spi: transfer spi_pump "\<lambda>d b. spi_stream addr lo hi d \<and> b = sp_buf d" lo hi for addr lo hi
proof
  fix d b m c n
  assume a: "spi_stream addr lo hi d \<and> b = sp_buf d"
  then show "lo \<le> buf_start b \<and> buf_start b \<le> buf_end b \<and> buf_end b \<le> hi"
    by (auto simp: spi_stream_def)
  assume m: "mapped m lo (hi - lo)" "c \<le> buf_size b"
  obtain d' m' where p: "spi_pump d m c n = Some (sp_buf d', d', m')" "spi_stream addr lo hi d'"
    "buf_start (sp_buf d') = buf_start (sp_buf d) + c" "buf_end (sp_buf d) \<le> buf_end (sp_buf d')"
    "only_within m m' (x_buf (sp_st d)) hi"
    using spi_pump_ok [of addr lo hi d m c n] a m by blast
  then show "\<exists>b' a' m'. spi_pump d m c n = Some (b', a', m')" by blast
  fix b' a' m1 assume r: "spi_pump d m c n = Some (b', a', m1)"
  have "buf_end b \<le> x_buf (sp_st d)" using a by (simp add: spi_stream_def)
  then show "only_within m m1 (buf_end b) hi" using p r by (auto intro: only_within_mono)
  assume "\<not> buf_error b'"
  show "(spi_stream addr lo hi a' \<and> b' = sp_buf a') \<and> buf_start b' = buf_start b + c \<and> buf_end b \<le> buf_end b'"
    using p r a by auto
qed

interpretation lz4_spi: decode_driver lz4_decode lz4_null lz4_dstate lz4_wf spi_pump
    "\<lambda>d b. spi_stream addr lo hi d \<and> b = sp_buf d" lo hi for addr lo hi
  by unfold_locales

section \<open>Starting a stream\<close>

text \<open>A flash that sends from the 24-bit address of a fast-read command with its dummy byte.\<close>

definition fast_read_flash :: "spi_flash \<Rightarrow> bool" where
  "fast_read_flash fl \<longleftrightarrow> (\<forall>a b c. sf_addr fl [0x0b, a, b, c, 0xff] = unat a * 2 ^ 16 + unat b * 2 ^ 8 + unat c)"

lemma unat_drop32: "unat (drop_bit k x :: u32) = unat x div 2 ^ k"
proof -
  have "take_bit 32 (unat x) = unat x"
    using unsigned_less [of x, where 'a = nat] by (simp add: take_bit_nat_eq_self)
  then show ?thesis by (simp only: unsigned_drop_bit_eq len_of_numeral_defs) (simp add: drop_bit_eq_div)
qed

lemma u32_byte: "unat (ucast (drop_bit k x AND 0xff :: u32) :: u8) = unat x div 2 ^ k mod 256"
proof -
  have m: "x AND 0xff = take_bit 8 x" for x :: u32 by (simp add: take_bit_eq_mask mask_eq_exp_minus_1)
  show ?thesis
    unfolding m by (simp add: unsigned_ucast_eq unsigned_take_bit_eq unat_drop32) (simp add: take_bit_eq_mod)
qed

lemma bytes24:
  assumes "x < (2 :: nat) ^ 24"
  shows "x div 2 ^ 16 mod 256 * 2 ^ 16 + x div 2 ^ 8 mod 256 * 2 ^ 8 + x mod 256 = x"
    "(0x0b * 2 ^ 24 + x) div 2 ^ 16 mod 256 = x div 2 ^ 16 mod 256"
    "(0x0b * 2 ^ 24 + x) div 2 ^ 8 mod 256 = x div 2 ^ 8 mod 256" "(0x0b * 2 ^ 24 + x) mod 256 = x mod 256"
    "(0x0b * 2 ^ 24 + x) div 2 ^ 24 = 0x0b"
proof -
  define q r t where "q = x div 256" and "r = q div 256" and "t = q mod 256"
  have q: "x div 2 ^ 16 = r" "x div 2 ^ 8 mod 256 = t" by (simp_all add: q_def r_def t_def div_mult2_eq [symmetric])
  have "r < 256" using assms unfolding q(1) [symmetric] by (simp add: less_mult_imp_div_less)
  moreover have "r * 256 + t = q" by (simp add: r_def t_def)
  moreover have "q * 256 + x mod 256 = x" by (simp add: q_def)
  ultimately show "x div 2 ^ 16 mod 256 * 2 ^ 16 + x div 2 ^ 8 mod 256 * 2 ^ 8 + x mod 256 = x"
    unfolding q by simp
  have "(2816 * 65536 + x) div 65536 = 2816 + x div 65536" by simp
  moreover have "(2816 + y) mod 256 = y mod 256" for y :: nat using mod_mult_self4 [of 256 11 y] by simp
  ultimately show "(0x0b * 2 ^ 24 + x) div 2 ^ 16 mod 256 = x div 2 ^ 16 mod 256" by simp
  have "(720896 * 256 + x) div 256 = 720896 + x div 256" by simp
  moreover have "(720896 + y) mod 256 = y mod 256" for y :: nat using mod_mult_self4 [of 256 2816 y] by simp
  ultimately show "(0x0b * 2 ^ 24 + x) div 2 ^ 8 mod 256 = x div 2 ^ 8 mod 256" by simp
  show "(0x0b * 2 ^ 24 + x) mod 256 = x mod 256" using mod_mult_self4 [of 256 720896 x] by simp
  show "(0x0b * 2 ^ 24 + x) div 2 ^ 24 = 0x0b" using assms by simp
qed

lemma fast_read_bytes:
  assumes "drop_bit 24 addr = (0 :: u32)" "fast_read_flash fl"
  shows "sf_addr fl [ucast (drop_bit 24 (push_bit 24 0x0b OR addr)), ucast (drop_bit 16 (push_bit 24 0x0b OR addr) AND 0xff),
    ucast (drop_bit 8 (push_bit 24 0x0b OR addr) AND 0xff), ucast ((push_bit 24 0x0b OR addr) AND 0xff), 0xff] = unat addr"
proof -
  define c where "c = push_bit 24 0x0b OR addr"
  have "unat (drop_bit 24 addr) = 0" using assms(1) by simp
  then have lt: "unat addr < 2 ^ 24" by (simp add: unat_drop32 div_eq_0_iff)
  have "\<not> bit addr n" if "24 \<le> n" for n
    using arg_cong [OF assms(1), of "\<lambda>w. bit w (n - 24)"] that by (simp add: bit_simps)
  then have "c = push_bit 24 0x0b + addr" unfolding c_def
    by (intro disjunctive_add [symmetric]) (auto simp: bit_push_bit_iff simp del: push_bit_numeral)
  then have u: "unat c = 0x0b * 2 ^ 24 + unat addr"
    using lt by (simp add: unat_word_ariths)
  have "unat (drop_bit 24 c) = 0x0b" using u bytes24(5) [OF lt] by (simp only: unat_drop32)
  then have "drop_bit 24 c = 0x0b" by (intro unsigned_word_eqI [where 'a = nat]) simp
  then have "ucast (drop_bit 24 c) = (0x0b :: u8)" by simp
  then show ?thesis
    using assms(2) u32_byte [of 16 c] u32_byte [of 8 c] u32_byte [of 0 c] bytes24 [OF lt]
    unfolding c_def [symmetric] by (simp add: fast_read_flash_def u)
qed

lemma tx_fast_read:
  assumes "drop_bit 24 addr = (0 :: u32)" "fast_read_flash fl" "r_tx hw = []"
  shows "\<exists>c0 tx. rkspi_tx_fast_read_cmd fl addr hw =
    Some (hw\<lparr>r_ctrl0 := c0, r_tx := tx, r_pos := unat addr, r_enable := False, r_left := 0\<rparr>)"
proof -
  define c where "c = push_bit 24 0x0b OR addr"
  have "sf_addr fl [ucast (drop_bit 24 c), ucast (drop_bit 16 c AND 0xff), ucast (drop_bit 8 c AND 0xff), ucast (c AND 0xff), 0xff] = unat addr"
    unfolding c_def by (rule fast_read_bytes [OF assms(1,2)])
  then have "rkspi_tx_fast_read_cmd fl addr hw = Some (hw\<lparr>r_ctrl0 := rkspi_mode_base OR RKSPI_XFM_TX OR RKSPI_BHT_APB_8BIT,
      r_tx := [ucast (drop_bit 24 c), ucast (drop_bit 16 c AND 0xff), ucast (drop_bit 8 c AND 0xff), ucast (c AND 0xff), 0xff],
      r_pos := unat addr, r_enable := False, r_left := 0\<rparr>)"
    using assms(1,3) unfolding rkspi_tx_fast_read_cmd_def c_def [symmetric]
    by (simp add: rkspi_tx_cmd4_dummy1_def spi_enable_def spi_disable_def Let_def)
  then show ?thesis by blast
qed

lemma rx_ctrl0: "rx_mode (hw\<lparr>r_ctrl0 := rkspi_mode_base OR RKSPI_XFM_RX OR RKSPI_BHT_APB_16BIT\<rparr>)"
  by (simp add: rx_mode_def rkspi_mode_base_def RKSPI_XFM_RX_def RKSPI_BHT_APB_16BIT_def)

lemma start_irq_stream:
  assumes "drop_bit 24 addr = (0 :: u32)" "fast_read_flash fl" "r_tx hw = []" "0 < lo" "lo < hi" "even (hi - lo)"
    and d: "sp_flash d = fl" "sched_inv (sp_sched d)" "sp_waiters d \<noteq> rq_fresh" "\<forall>i. \<exists>e. 0 < sp_irqs d (i + e)"
      "sp_buf d = \<lparr>buf_start = lo, buf_end = lo\<rparr>"
  shows "\<exists>st' hw'. start_irq_flash_read fl addr lo hi st hw = Some (st', hw') \<and>
    spi_stream (unat addr) lo hi (d\<lparr>sp_st := st', sp_hw := hw'\<rparr>) \<and> x_buf st' = lo"
proof -
  let ?hw0 = "hw\<lparr>r_intr_mask := RKSPI_RX_FULL_INTR, r_slave_enable := True\<rparr>"
  obtain c0 tx where t: "rkspi_tx_fast_read_cmd fl addr ?hw0 =
      Some (?hw0\<lparr>r_ctrl0 := c0, r_tx := tx, r_pos := unat addr, r_enable := False, r_left := 0\<rparr>)"
    using tx_fast_read [OF assms(1,2), of ?hw0] assms(3) by auto
  let ?hw = "?hw0\<lparr>r_tx := tx, r_pos := unat addr, r_enable := False, r_left := 0,
      r_ctrl0 := rkspi_mode_base OR RKSPI_XFM_RX OR RKSPI_BHT_APB_16BIT\<rparr>"
  let ?st = "st\<lparr>x_end := hi, x_buf := lo\<rparr>"
  have e: "(hi - lo) mod 2 = 0" using assms(6) by presburger
  obtain n thr c where "rkspi_start_rx_xfer (hi - lo) ?st ?hw = Some (?st\<lparr>this_xfer_items := n\<rparr>,
      ?hw\<lparr>r_rx_fifo_threshold := thr, r_ctrl1 := c, r_enable := True, r_left := n\<rparr>)"
    "xfer_ok (?st\<lparr>this_xfer_items := n\<rparr>) (?hw\<lparr>r_rx_fifo_threshold := thr, r_ctrl1 := c, r_enable := True, r_left := n\<rparr>)"
    using start_rx_xfer_ok [OF e, of ?st ?hw] rx_ctrl0 assms(5) by auto
  then show ?thesis
    using t e d assms(4-6) by (auto simp: start_irq_flash_read_def spi_stream_def)
qed

lemma spi_pumps:
  assumes "spi_stream addr lo hi d" "mapped m lo (hi - lo)" "spi_received addr lo d m"
  shows "\<exists>d' m'. pumps spi_pump d m (sp_buf d) cs = Some (sp_buf d', d', m') \<and> spi_stream addr lo hi d' \<and>
    sp_flash d' = sp_flash d \<and> only_within m m' (x_buf (sp_st d)) hi \<and> spi_received addr lo d' m'"
  using assms
proof (induction cs arbitrary: d m)
  case Nil
  then show ?case by auto
next
  case (Cons cn cs)
  obtain c n where cn: "cn = (c, n)" by fastforce
  obtain d1 m1 where p: "spi_pump d m (min c (buf_size (sp_buf d))) n = Some (sp_buf d1, d1, m1)" "spi_stream addr lo hi d1"
    "sp_flash d1 = sp_flash d" "buf_end (sp_buf d1) = x_buf (sp_st d1)" "buf_end (sp_buf d) \<le> buf_end (sp_buf d1)"
    "only_within m m1 (x_buf (sp_st d)) hi" "spi_received addr lo d1 m1" "x_buf (sp_st d) \<le> x_buf (sp_st d1)"
    using spi_pump_ok [OF Cons.prems(1,2), of "min c (buf_size (sp_buf d))" n] Cons.prems(3) by auto
  have "mapped m1 lo (hi - lo)" using only_within_mapped [OF p(6)] Cons.prems(2) by simp
  from Cons.IH [OF p(2) this p(7)] obtain d' m' where q: "pumps spi_pump d1 m1 (sp_buf d1) cs = Some (sp_buf d', d', m')"
    "spi_stream addr lo hi d'" "sp_flash d' = sp_flash d1" "only_within m1 m' (x_buf (sp_st d1)) hi" "spi_received addr lo d' m'"
    by blast
  have le: "lo \<le> buf_start (sp_buf d)" "buf_start (sp_buf d) \<le> buf_end (sp_buf d)" using Cons.prems(1) by (auto simp: spi_stream_def)
  show ?case
    using p q le only_within_trans [OF p(6) q(4) p(8)] by (auto simp: cn buf_error_def)
qed

section \<open>Polled reading\<close>

text \<open>Memory m' is m with the n bytes of the flash from pos on stored at a.\<close>

definition got :: "spi_flash \<Rightarrow> nat \<Rightarrow> nat \<Rightarrow> nat \<Rightarrow> mem \<Rightarrow> mem \<Rightarrow> bool" where
  "got fl pos a n m m' \<longleftrightarrow> only_within m m' a (a + n) \<and> bytes_at m' a n = medium_bytes (sf_data fl) pos n"

lemma got_0: "got fl pos a 0 m m"
  by (simp add: got_def medium_bytes_def)

lemma got_append:
  assumes "got fl pos a n m m1" "got fl (pos + n) (a + n) k m1 m2"
  shows "got fl pos a (n + k) m m2"
proof -
  have w: "only_within m1 m2 (a + n) (a + n + k)" using assms(2) by (simp add: got_def)
  have "only_within m m1 a (a + (n + k))" using assms(1) by (auto simp: got_def intro: only_within_mono)
  then have "only_within m m2 a (a + (n + k))" using only_within_trans [OF _ w] by (simp add: add.assoc)
  moreover have "bytes_at m2 a n = bytes_at m1 a n" using only_within_bytes [OF w] by simp
  ultimately show ?thesis
    using assms by (simp add: got_def bytes_at_append medium_bytes_append [symmetric])
qed

lemma got_mapped: "got fl pos a n m m' \<Longrightarrow> mapped m' x k \<longleftrightarrow> mapped m x k"
  using only_within_mapped by (auto simp: got_def)

lemma got_item:
  assumes "0 < r_left hw" "mapped m a 2"
  shows "\<exists>m'. rx_item fl (hw, a, m) = Some (hw\<lparr>r_pos := r_pos hw + 2, r_left := r_left hw - 1\<rparr>, a + 2, m') \<and> got fl (r_pos hw) a 2 m m'"
  using rx_item_ok [OF assms, of fl] mem_write_within [of m a "medium_bytes (sf_data fl) (r_pos hw) 2"]
    bytes_at_mem_write [of m a "medium_bytes (sf_data fl) (r_pos hw) 2"] assms(2) by (simp add: got_def)

lemma recv_items_ok:
  assumes "ptr + 2 * r_left hw = hi" "0 < r_left hw" "mapped m ptr (2 * r_left hw)"
  shows "\<exists>m'. recv_items fl hi lvl (hw, ptr, m) = Some (r_left hw \<le> lvl, hw\<lparr>r_pos := r_pos hw + 2 * min lvl (r_left hw),
      r_left := r_left hw - min lvl (r_left hw)\<rparr>, ptr + 2 * min lvl (r_left hw), m') \<and>
    got fl (r_pos hw) ptr (2 * min lvl (r_left hw)) m m'"
  using assms
proof (induction lvl arbitrary: hw ptr m)
  case 0
  then show ?case by (auto intro: got_0)
next
  case (Suc lvl)
  let ?hw = "hw\<lparr>r_pos := r_pos hw + 2, r_left := r_left hw - 1\<rparr>"
  have "mapped m ptr 2" by (rule mapped_sub [OF Suc.prems(3)]) (use Suc.prems(2) in auto)
  then obtain m1 where m1: "rx_item fl (hw, ptr, m) = Some (?hw, ptr + 2, m1)" "got fl (r_pos hw) ptr 2 m m1"
    using got_item [OF Suc.prems(2)] by blast
  show ?case
  proof (cases "r_left hw = 1")
    case True
    then show ?thesis using m1 Suc.prems(1) by (auto simp: min_def)
  next
    case False
    then have l: "0 < r_left ?hw" "ptr + 2 + 2 * r_left ?hw = hi" "\<not> hi \<le> ptr + 2" using Suc.prems by auto
    have "mapped m1 (ptr + 2) (2 * r_left ?hw)"
      unfolding got_mapped [OF m1(2)] by (rule mapped_sub [OF Suc.prems(3)]) (use l Suc.prems(1) in auto)
    from Suc.IH [OF l(2,1) this] obtain m' where r: "recv_items fl hi lvl (?hw, ptr + 2, m1) =
        Some (r_left ?hw \<le> lvl, ?hw\<lparr>r_pos := r_pos ?hw + 2 * min lvl (r_left ?hw),
          r_left := r_left ?hw - min lvl (r_left ?hw)\<rparr>, ptr + 2 + 2 * min lvl (r_left ?hw), m')"
      "got fl (r_pos ?hw) (ptr + 2) (2 * min lvl (r_left ?hw)) m1 m'" by blast
    have mn: "min (Suc lvl) (r_left hw) = Suc (min lvl (r_left ?hw))" using l by auto
    have "got fl (r_pos hw) ptr (2 + 2 * min lvl (r_left ?hw)) m m'"
      using got_append [OF m1(2)] r(2) by simp
    then show ?thesis unfolding mn using m1(1) r(1) l by auto
  qed
qed

definition polls :: "nat list \<Rightarrow> nat" where
  "polls lvls = length (filter ((<) 0) lvls)"

lemma recv_poll_ok:
  assumes "ptr + 2 * r_left hw = hi" "0 < r_left hw" "mapped m ptr (2 * r_left hw)" "r_left hw \<le> polls lvls"
  shows "\<exists>m' rest. recv_poll fl hi lvls (hw, ptr, m) = Some (hw\<lparr>r_pos := r_pos hw + 2 * r_left hw, r_left := 0\<rparr>, hi, m', rest) \<and>
    polls lvls - r_left hw \<le> polls rest \<and> got fl (r_pos hw) ptr (2 * r_left hw) m m'"
  using assms
proof (induction lvls arbitrary: hw ptr m)
  case (Cons lvl lvls)
  let ?k = "min lvl (r_left hw)"
  let ?hw = "hw\<lparr>r_pos := r_pos hw + 2 * ?k, r_left := r_left hw - ?k\<rparr>"
  obtain m1 where m1: "recv_items fl hi lvl (hw, ptr, m) = Some (r_left hw \<le> lvl, ?hw, ptr + 2 * ?k, m1)"
    "got fl (r_pos hw) ptr (2 * ?k) m m1"
    using recv_items_ok [OF Cons.prems(1-3)] by blast
  show ?case
  proof (cases "r_left hw \<le> lvl")
    case True
    then have "?k = r_left hw" "0 < lvl" using Cons.prems(2) by auto
    then show ?thesis using True m1 Cons.prems(1,2) by (auto simp: polls_def)
  next
    case False
    then have k: "?k = lvl" "0 < r_left ?hw" by auto
    have p: "ptr + 2 * ?k + 2 * r_left ?hw = hi" using k Cons.prems(1) by auto
    have "mapped m1 (ptr + 2 * ?k) (2 * r_left ?hw)"
      unfolding got_mapped [OF m1(2)] by (rule mapped_sub [OF Cons.prems(3)]) (use p Cons.prems(1) in auto)
    moreover have c: "polls lvls - r_left ?hw \<ge> polls (lvl # lvls) - r_left hw" "r_left ?hw \<le> polls lvls"
      using Cons.prems(4) k by (auto simp: polls_def split: if_splits)
    ultimately obtain m' rest where r: "recv_poll fl hi lvls (?hw, ptr + 2 * ?k, m1) =
        Some (?hw\<lparr>r_pos := r_pos ?hw + 2 * r_left ?hw, r_left := 0\<rparr>, hi, m', rest)"
      "polls lvls - r_left ?hw \<le> polls rest" "got fl (r_pos ?hw) (ptr + 2 * ?k) (2 * r_left ?hw) m1 m'"
      using Cons.IH [OF p k(2)] by blast
    have s: "2 * ?k + 2 * r_left ?hw = 2 * r_left hw" using k by simp
    have "got fl (r_pos hw) ptr (2 * r_left hw) m m'"
      using got_append [OF m1(2), of "2 * r_left ?hw" m'] r(3) unfolding s by simp
    moreover have "polls (lvl # lvls) - r_left hw \<le> polls rest" using c(1) r(2) by linarith
    ultimately show ?thesis using m1(1) r(1) False s by auto
  qed
qed (simp add: polls_def)

lemma recv_fast_ok:
  assumes "even buf" "even sz" "0 < sz" "sz \<le> 0xffff" "mapped m buf sz" "sz div 2 \<le> polls lvls"
  shows "\<exists>hw' m' rest. rkspi_recv_fast fl buf sz lvls hw m = Some (hw', m', rest) \<and> r_pos hw' = r_pos hw + sz \<and>
    polls lvls - sz div 2 \<le> polls rest \<and> got fl (r_pos hw) buf sz m m'"
proof -
  let ?hw = "hw\<lparr>r_ctrl1 := of_nat sz - 1, r_ctrl0 := rkspi_mode_base OR RKSPI_XFM_RX OR RKSPI_BHT_APB_16BIT\<rparr>"
  have e: "of_nat sz - 1 = (of_nat (sz - 1) :: u32)" using assms(3) by (simp add: of_nat_diff)
  have u: "unat (of_nat x :: u32) = x" if "x < 2 ^ 32" for x using that by (simp add: unat_of_nat take_bit_nat_eq_self)
  have "sz - 1 < 2 ^ 32" using assms(4) by simp
  then have "unat (of_nat sz - 1 :: u32) = sz - 1" unfolding e by (rule u)
  then have "unat (r_ctrl1 ?hw) + 1 = sz" using assms(3) by simp
  then have hw: "spi_enable ?hw = ?hw\<lparr>r_enable := True, r_left := sz div 2\<rparr>"
    using rx_ctrl0 [of "hw\<lparr>r_ctrl1 := of_nat sz - 1\<rparr>"] by (simp add: spi_enable_def)
  let ?h = "?hw\<lparr>r_enable := True, r_left := sz div 2\<rparr>"
  have s2: "2 * (sz div 2) = sz" using assms(2) by simp
  obtain m' rest where "recv_poll fl (buf + sz) lvls (?h, buf, m) = Some (?h\<lparr>r_pos := r_pos hw + sz, r_left := 0\<rparr>, buf + sz, m', rest)"
    "polls lvls - sz div 2 \<le> polls rest" "got fl (r_pos hw) buf sz m m'"
    using recv_poll_ok [of buf ?h "buf + sz" m lvls fl] assms s2 by auto
  then show ?thesis
    using assms(1,2,4) hw by (auto simp: rkspi_recv_fast_def Let_def spi_disable_def)
qed

declare read_chunks.simps [simp del]

lemma read_chunks_ok:
  assumes "even pos" "even (hi - pos)" "pos \<le> hi" "hi - pos < 2 ^ 32" "mapped m pos (hi - pos)" "(hi - pos) div 2 \<le> polls lvls"
  shows "\<exists>hw' m' rest. read_chunks fl pos hi lvls hw m = Some (hw', m', rest) \<and> got fl (r_pos hw) pos (hi - pos) m m'"
  using assms
proof (induction "hi - pos" arbitrary: pos lvls hw m rule: less_induct)
  case less
  show ?case
  proof (cases "pos = hi")
    case True
    then show ?thesis by (subst read_chunks.simps) (simp add: got_0)
  next
    case False
    define sz where "sz = chunk_size (hi - pos)"
    have sz: "0 < sz" "sz \<le> hi - pos" "even sz" "sz \<le> 0xffff"
      using False less.prems by (auto simp: sz_def chunk_size_def RKSPI_MAX_RECV_def Let_def)
    have half: "sz div 2 \<le> (hi - pos) div 2" "(hi - (pos + sz)) div 2 = (hi - pos) div 2 - sz div 2"
    proof -
      obtain a b where "sz = 2 * a" "hi - pos = 2 * b" using sz(3) less.prems(2) by (blast elim: evenE)
      moreover have "hi - (pos + sz) = hi - pos - sz" by simp
      ultimately show "sz div 2 \<le> (hi - pos) div 2" "(hi - (pos + sz)) div 2 = (hi - pos) div 2 - sz div 2"
        using sz(2) by (simp_all flip: right_diff_distrib')
    qed
    obtain hw1 m1 rest where r: "rkspi_recv_fast fl pos sz lvls hw m = Some (hw1, m1, rest)" "r_pos hw1 = r_pos hw + sz"
      "polls lvls - sz div 2 \<le> polls rest" "got fl (r_pos hw) pos sz m m1"
      using recv_fast_ok [OF less.prems(1) sz(3,1,4), of m lvls fl hw] mapped_sub [OF less.prems(5), of pos sz] half less.prems(6) sz by auto
    have "mapped m1 (pos + sz) (hi - (pos + sz))"
      unfolding got_mapped [OF r(4)] by (rule mapped_sub [OF less.prems(5)]) (use sz less.prems(3) in auto)
    then obtain hw2 m2 rest2 where r2: "read_chunks fl (pos + sz) hi rest hw1 m1 = Some (hw2, m2, rest2)"
      "got fl (r_pos hw1) (pos + sz) (hi - (pos + sz)) m1 m2"
    proof -
      have a: "hi - (pos + sz) < hi - pos" "pos + sz \<le> hi" using sz(1,2) by linarith+
      have b: "even (pos + sz)" "even (hi - (pos + sz))" using sz(3) less.prems(1,2) a(2) by auto
      have c: "hi - (pos + sz) < 2 ^ 32" using a(1) less.prems(4) by linarith
      have d: "(hi - (pos + sz)) div 2 \<le> polls rest" unfolding half(2) using r(3) less.prems(6) half(1) by linarith
      from less.hyps [OF a(1) b a(2) c \<open>mapped m1 (pos + sz) (hi - (pos + sz))\<close> d, of hw1] that show ?thesis by blast
    qed
    have "got fl (r_pos hw) pos (sz + (hi - (pos + sz))) m m2"
      using got_append [OF r(4)] r2(2) r(2) by simp
    moreover have "sz + (hi - (pos + sz)) = hi - pos" using sz(2) by linarith
    moreover have "sz mod 2 = 0" "pos < hi" using sz(3) False less.prems(3) by auto
    then have "read_chunks fl pos hi lvls hw m = Some (hw2, m2, rest2)"
      using r(1) r2(1) sz(1) by (subst read_chunks.simps) (simp add: Let_def flip: sz_def)
    ultimately show ?thesis by simp
  qed
qed

lemma flash_poll_ok:
  assumes "drop_bit 24 addr = (0 :: u32)" "fast_read_flash fl" "r_tx hw = []" "even buf" "even sz" "sz < 2 ^ 32"
    "mapped m buf sz" "sz div 2 \<le> polls lvls"
  shows "\<exists>hw' m' rest. rkspi_read_flash_poll fl buf sz addr lvls hw m = Some (hw', m', rest) \<and> got fl (unat addr) buf sz m m'"
proof -
  let ?hw = "hw\<lparr>r_slave_enable := True\<rparr>"
  obtain c0 tx where t: "rkspi_tx_fast_read_cmd fl addr ?hw =
      Some (?hw\<lparr>r_ctrl0 := c0, r_tx := tx, r_pos := unat addr, r_enable := False, r_left := 0\<rparr>)"
    using tx_fast_read [OF assms(1,2), of ?hw] assms(3) by auto
  let ?h = "?hw\<lparr>r_ctrl0 := c0, r_tx := tx, r_pos := unat addr, r_enable := False, r_left := 0\<rparr>"
  obtain hw' m' rest where "read_chunks fl buf (buf + sz) lvls ?h m = Some (hw', m', rest)" "got fl (r_pos ?h) buf (buf + sz - buf) m m'"
    using read_chunks_ok [of buf "buf + sz" m lvls fl ?h] assms(4-8) by auto
  with t show ?thesis by (auto simp: rkspi_read_flash_poll_def Let_def)
qed

section \<open>What the boot medium reads\<close>

lemma received_buf:
  assumes "spi_stream addr lo hi d" "spi_received addr lo d m"
  shows "bytes_at m (buf_start (sp_buf d)) (buf_size (sp_buf d)) =
    medium_bytes (sf_data (sp_flash d)) (addr + (buf_start (sp_buf d) - lo)) (buf_size (sp_buf d))"
proof (rule nth_equalityI)
  fix i assume "i < length (bytes_at m (buf_start (sp_buf d)) (buf_size (sp_buf d)))"
  then have i: "i < buf_size (sp_buf d)" by simp
  define k where "k = buf_start (sp_buf d) - lo + i"
  have k: "lo + k = buf_start (sp_buf d) + i" "k < x_buf (sp_st d) - lo"
    using assms(1) i by (auto simp: spi_stream_def k_def buf_size_def)
  have "bytes_at m lo (x_buf (sp_st d) - lo) ! k = medium_bytes (sf_data (sp_flash d)) addr (x_buf (sp_st d) - lo) ! k"
    using assms(2) by (simp add: spi_received_def)
  then have "the (m (buf_start (sp_buf d) + i)) = sf_data (sp_flash d) (addr + k)"
    using k by (simp add: medium_bytes_def)
  then show "bytes_at m (buf_start (sp_buf d)) (buf_size (sp_buf d)) ! i =
      medium_bytes (sf_data (sp_flash d)) (addr + (buf_start (sp_buf d) - lo)) (buf_size (sp_buf d)) ! i"
    using i by (simp add: medium_bytes_def k_def add.assoc)
qed simp

lemma same_bytes_same_mem:
  assumes "only_within m m1 a (a + n)" "only_within m m2 a (a + n)" "bytes_at m1 a n = bytes_at m2 a n"
  shows "m1 = m2"
proof
  fix x
  show "m1 x = m2 x"
  proof (cases "x < a \<or> a + n \<le> x")
    case True
    then show ?thesis using assms(1,2) by (auto simp: only_within_def)
  next
    case False
    then have x: "x - a < n" "a + (x - a) = x" by auto
    have "the (m1 x) = the (m2 x)"
      using arg_cong [OF assms(3), of "\<lambda>bs. bs ! (x - a)"] x by simp
    moreover have "dom m1 = dom m2" using assms(1,2) by (simp add: only_within_def)
    then have "m1 x = None \<longleftrightarrow> m2 x = None" by blast
    ultimately show ?thesis by (auto simp: option.expand)
  qed
qed

text \<open>
  A client of the stream that pumps as cs says, in place of the decompression, and reports the
  window it was given last.
\<close>

definition pump_client :: "(nat \<times> nat) list \<Rightarrow> spi_dev \<Rightarrow> mem \<Rightarrow> (nat \<times> spi_dev \<times> mem) option" where
  "pump_client cs d m = do {
     (b, d, m) \<leftarrow> pumps spi_pump d m (sp_buf d) cs;
     Some (buf_size b, d, m)
   }"

text \<open>C7:
  Loading from SPI flash.  Take a flash that answers the fast-read command, a blob buffer of an
  even, positive number of bytes and interrupts that keep coming.  Then, for every sequence of
  pump calls the decompressor may make, boot_spi's transfer finishes without tripping an assertion, fills at most
  16 MiB of the buffer and nothing else, the window it hands out holds the bytes of the flash
  from 256 KiB on, and the controller is left disabled and deselected with its interrupt masked.
\<close>

theorem spi_load_reads:
  assumes fl: "fast_read_flash (sp_flash d)" and hw: "r_tx (sp_hw d) = []"
    and irq: "\<forall>i. \<exists>e. 0 < sp_irqs d (i + e)" and sch: "sched_inv (sp_sched d)" "sp_waiters d \<noteq> rq_fresh"
    and buf: "0 < lo" "lo < hi" "even (hi - lo)" "mapped m lo (hi - lo)"
  shows "\<exists>n d' m'. spi_load (pump_client cs) lo hi d m = Some (n, d', m') \<and>
    only_within m m' lo (min hi (lo + 2 ^ 24)) \<and> n = buf_size (sp_buf d') \<and>
    lo \<le> buf_start (sp_buf d') \<and> buf_start (sp_buf d') \<le> buf_end (sp_buf d') \<and> buf_end (sp_buf d') \<le> min hi (lo + 2 ^ 24) \<and>
    bytes_at m' (buf_start (sp_buf d')) n = medium_bytes (sf_data (sp_flash d)) (256 * 1024 + (buf_start (sp_buf d') - lo)) n \<and>
    \<not> r_enable (sp_hw d') \<and> \<not> r_slave_enable (sp_hw d') \<and> r_intr_mask (sp_hw d') = 0"
proof -
  define h where "h = (if hi - lo > 2 ^ 24 then lo + 2 ^ 24 else hi)"
  define d0 where "d0 = d\<lparr>sp_buf := \<lparr>buf_start = lo, buf_end = lo\<rparr>\<rparr>"
  have h: "h = min hi (lo + 2 ^ 24)" "lo < h" "even (h - lo)" "mapped m lo (h - lo)"
    using buf by (auto simp: h_def mapped_def)
  have a: "drop_bit 24 SPI_LOAD_ADDR = 0" "unat SPI_LOAD_ADDR = 256 * 1024"
    by (simp_all add: SPI_LOAD_ADDR_def)
  obtain st' hw' where s: "start_irq_flash_read (sp_flash d) SPI_LOAD_ADDR lo h (sp_st d) (sp_hw d) = Some (st', hw')"
    "spi_stream (256 * 1024) lo h (d0\<lparr>sp_st := st', sp_hw := hw'\<rparr>)" "x_buf st' = lo"
    using start_irq_stream [OF a(1) fl hw buf(1) h(2,3), of d0 "sp_st d"] irq sch a(2) by (auto simp: d0_def)
  let ?d = "d0\<lparr>sp_st := st', sp_hw := hw'\<rparr>"
  have "spi_received (256 * 1024) lo ?d m" using s(3) by (simp add: spi_received_def medium_bytes_def)
  then obtain d' m' where p: "pumps spi_pump ?d m (sp_buf ?d) cs = Some (sp_buf d', d', m')" "spi_stream (256 * 1024) lo h d'"
    "sp_flash d' = sp_flash ?d" "only_within m m' (x_buf (sp_st ?d)) h" "spi_received (256 * 1024) lo d' m'"
    using spi_pumps [OF s(2) h(4)] by blast
  have "spi_load (pump_client cs) lo hi d m =
      Some (buf_size (sp_buf d'), d'\<lparr>sp_hw := rkspi_end_irq_flash_read (sp_hw d')\<rparr>, m')"
    using s(1) p(1) unfolding spi_load_def Let_def h_def [symmetric] d0_def by (simp add: pump_client_def)
  then show ?thesis
    using p s(3) received_buf [OF p(2,5)] unfolding h(1) [symmetric]
    by (auto simp: spi_stream_def d0_def rkspi_end_irq_flash_read_def Let_def spi_disable_def spi_deselect_def)
qed

definition sample_flash :: spi_flash where
  "sample_flash = \<lparr>sf_data = sample_disk, sf_addr = (\<lambda>bs. unat (bs ! 1) * 2 ^ 16 + unat (bs ! 2) * 2 ^ 8 + unat (bs ! 3))\<rparr>"

lemma sample_flash_fast: "fast_read_flash sample_flash"
  by (simp add: fast_read_flash_def sample_flash_def)

definition sample_rkspi :: rkspi where
  "sample_rkspi = \<lparr>r_ctrl0 = 0, r_ctrl1 = 0, r_enable = False, r_slave_enable = False, r_rx_fifo_threshold = 0,
     r_intr_mask = 0, r_tx = [], r_pos = 0, r_left = 0\<rparr>"

definition sample_spi :: spi_dev where
  "sample_spi = \<lparr>sp_flash = sample_flash, sp_waiters = 2, sp_st = \<lparr>this_xfer_items = 0, x_buf = 0, x_end = 0\<rparr>,
     sp_hw = sample_rkspi, sp_sched = sched_init, sp_buf = \<lparr>buf_start = 0, buf_end = 0\<rparr>,
     sp_irqs = (\<lambda>i. i mod 2), sp_looks = 0\<rparr>"

lemma sample_spi_irqs: "\<forall>i. \<exists>e. 0 < sp_irqs sample_spi (i + e)"
proof
  fix i show "\<exists>e. 0 < sp_irqs sample_spi (i + e)"
    by (rule exI [of _ "if even i then 1 else 0"]) (auto simp: sample_spi_def odd_iff_mod_2_eq_one)
qed

theorem spi_load_reads_witness:
  "\<exists>n d' m'. spi_load (pump_client [(0, 100), (40, 300)]) 0x1000 0x2002 sample_spi zero_mem = Some (n, d', m') \<and>
    only_within zero_mem m' 0x1000 (min 0x2002 (0x1000 + 2 ^ 24)) \<and> n = buf_size (sp_buf d') \<and>
    0x1000 \<le> buf_start (sp_buf d') \<and> buf_start (sp_buf d') \<le> buf_end (sp_buf d') \<and> buf_end (sp_buf d') \<le> min 0x2002 (0x1000 + 2 ^ 24) \<and>
    bytes_at m' (buf_start (sp_buf d')) n = medium_bytes (sf_data (sp_flash sample_spi)) (256 * 1024 + (buf_start (sp_buf d') - 0x1000)) n \<and>
    \<not> r_enable (sp_hw d') \<and> \<not> r_slave_enable (sp_hw d') \<and> r_intr_mask (sp_hw d') = 0"
  by (rule spi_load_reads [OF _ _ sample_spi_irqs])
    (simp_all add: sample_spi_def sample_rkspi_def sample_flash_fast zero_mem_mapped rq_fresh_def)

text \<open>C21:
  The two ways of reading the flash agree.  For an even number of bytes at an even address, an
  interrupt-driven transfer that is pumped until the buffer is full and a polled read, given
  enough polls that find data, leave the same memory behind, at whatever pace the data arrives.
\<close>

theorem spi_poll_equals_irq:
  assumes fl: "drop_bit 24 addr = 0" "fast_read_flash (sp_flash d)" and hw: "r_tx (sp_hw d) = []" "r_tx hw = []"
    and irq: "\<forall>i. \<exists>e. 0 < sp_irqs d (i + e)" and sch: "sched_inv (sp_sched d)" "sp_waiters d \<noteq> rq_fresh"
    and d: "sp_buf d = \<lparr>buf_start = lo, buf_end = lo\<rparr>"
    and buf: "0 < lo" "0 < n" "even lo" "even n" "n < 2 ^ 32" "mapped m lo n" "n div 2 \<le> polls lvls"
  shows "\<exists>st' hw' d' hw2 rest m'.
    start_irq_flash_read (sp_flash d) addr lo (lo + n) (sp_st d) (sp_hw d) = Some (st', hw') \<and>
    spi_pump (d\<lparr>sp_st := st', sp_hw := hw'\<rparr>) m 0 n = Some (\<lparr>buf_start = lo, buf_end = lo + n\<rparr>, d', m') \<and>
    rkspi_read_flash_poll (sp_flash d) lo n addr lvls hw m = Some (hw2, m', rest)"
proof -
  obtain st' hw' where s: "start_irq_flash_read (sp_flash d) addr lo (lo + n) (sp_st d) (sp_hw d) = Some (st', hw')"
    "spi_stream (unat addr) lo (lo + n) (d\<lparr>sp_st := st', sp_hw := hw'\<rparr>)" "x_buf st' = lo"
    using start_irq_stream [OF fl hw(1) buf(1), of "lo + n" d "sp_st d"] irq sch d buf by auto
  let ?d = "d\<lparr>sp_st := st', sp_hw := hw'\<rparr>"
  obtain d' m' where p: "spi_pump ?d m 0 n = Some (sp_buf d', d', m')" "spi_stream (unat addr) lo (lo + n) d'"
    "sp_flash d' = sp_flash d" "buf_start (sp_buf d') = lo" "n \<le> buf_size (sp_buf d') \<or> buf_end (sp_buf d') = lo + n"
    "only_within m m' lo (lo + n)" "spi_received (unat addr) lo d' m'"
    using spi_pump_ok [OF s(2), of m 0 n] buf s(3) d by (auto simp: spi_received_def medium_bytes_def)
  have e: "buf_end (sp_buf d') = lo + n" using p(2,4,5) by (auto simp: spi_stream_def buf_size_def)
  then have b: "sp_buf d' = \<lparr>buf_start = lo, buf_end = lo + n\<rparr>" using p(4) by (cases "sp_buf d'") simp
  have m': "bytes_at m' lo n = medium_bytes (sf_data (sp_flash d)) (unat addr) n"
    using received_buf [OF p(2,7)] p(3) by (simp add: b buf_size_def)
  obtain hw2 m2 rest where q: "rkspi_read_flash_poll (sp_flash d) lo n addr lvls hw m = Some (hw2, m2, rest)"
    "got (sp_flash d) (unat addr) lo n m m2"
    using flash_poll_ok [OF fl hw(2) buf(3-7)] by blast
  have "m2 = m'"
    using same_bytes_same_mem [of m m2 lo n m'] q(2) p(6) m' by (simp add: got_def)
  then show ?thesis using s(1) p(1) q(1) b by auto
qed

theorem spi_poll_equals_irq_witness:
  "\<exists>st' hw' d' hw2 rest m'.
    start_irq_flash_read sample_flash 0x1234 0x1000 (0x1000 + 130) (sp_st sample_spi) (sp_hw sample_spi) = Some (st', hw') \<and>
    spi_pump (sample_spi\<lparr>sp_buf := \<lparr>buf_start = 0x1000, buf_end = 0x1000\<rparr>, sp_st := st', sp_hw := hw'\<rparr>) zero_mem 0 130 =
      Some (\<lparr>buf_start = 0x1000, buf_end = 0x1000 + 130\<rparr>, d', m') \<and>
    rkspi_read_flash_poll sample_flash 0x1000 130 0x1234 (replicate 65 3) sample_rkspi zero_mem = Some (hw2, m', rest)"
proof -
  let ?d = "sample_spi\<lparr>sp_buf := \<lparr>buf_start = 0x1000, buf_end = 0x1000\<rparr>\<rparr>"
  have "\<forall>i. \<exists>e. 0 < sp_irqs ?d (i + e)" using sample_spi_irqs by simp
  moreover have "polls (replicate 65 3) = 65" by (simp add: polls_def filter_replicate)
  ultimately show ?thesis
    using spi_poll_equals_irq [of "0x1234" ?d sample_rkspi "0x1000" 130 zero_mem "replicate 65 3"]
    by (simp add: sample_spi_def sample_rkspi_def sample_flash_fast zero_mem_mapped rq_fresh_def)
qed

end
