(* ===== verification/Spec2Isabelle.thy ===== *)
theory Spec2Isabelle
  imports Blockdev Boot_Gpt Boot_Monitor Decompress_Driver Decompressor Dram_Size Dwmmc Embedded_Dramstage Gzip Huffman Idbtool Inflate Inflate_Bits Inflate_Block Levin_Prelude Lz4 Lz4_Frame Lzcommon Nvme Nvme_Controller Sched Sdhci Spi_Flash
begin

text \<open>
  Verification of levinboot, the RK3399 boot loader of this repository.
\<close>

end
